(* ===== verification/NP_Prelude.thy ===== *)
theory NP_Prelude
  imports Main "HOL-Library.Word"
begin

text \<open>
  Shared vocabulary of the development: C strings and the string functions the programs
  call, \<open>atoi\<close>, the file operations \<open>fread\<close> and \<open>fseek\<close> followed by \<open>fwrite\<close>, and the
  generic facts on lists and files that several components use. A C string is the list of
  its characters without the terminating NUL; a buffer that may hold NUL characters is a
  \<open>char list\<close>, and \<open>cstr\<close> reads the C string at its start.
\<close>

unbundle bit_operations_syntax

named_theorems cstring_simps \<open>unfoldings of the C string functions\<close>
named_theorems file_laws \<open>laws of positioned writes\<close>

type_synonym u8 = "8 word"
type_synonym u32 = "32 word"
type_synonym u64 = "64 word"
type_synonym bytes = "char list"

abbreviation NUL :: char where "NUL \<equiv> CHR 0x00"
abbreviation NL :: char where "NL \<equiv> CHR 0x0A"

section \<open>C strings\<close>

definition cstr :: "bytes \<Rightarrow> string" where
  "cstr b = takeWhile (\<lambda>c. c \<noteq> NUL) b"

definition nul_free :: "bytes \<Rightarrow> bool" where
  "nul_free b \<longleftrightarrow> NUL \<notin> set b"

text \<open>\<open>strcmp\<close> and \<open>strncmp\<close> are only ever tested for equality with zero.\<close>

definition strcmp_eq :: "bytes \<Rightarrow> bytes \<Rightarrow> bool" where
  "strcmp_eq a b \<longleftrightarrow> cstr a = cstr b"

definition strncmp_eq :: "bytes \<Rightarrow> bytes \<Rightarrow> nat \<Rightarrow> bool" where
  "strncmp_eq a b n \<longleftrightarrow> take n (cstr a) = take n (cstr b)"

text \<open>\<open>strncpy\<close> into a zeroed field of \<open>n\<close> bytes: cut at the first NUL, padded with NULs.\<close>

definition strncpy :: "bytes \<Rightarrow> nat \<Rightarrow> bytes" where
  "strncpy src n = (let s = take n (cstr src) in s @ replicate (n - length s) NUL)"

definition is_space :: "char \<Rightarrow> bool" where
  "is_space c \<longleftrightarrow> c = CHR '' '' \<or> ((9 :: nat) \<le> of_char c \<and> of_char c \<le> (13 :: nat))"

definition is_digit :: "char \<Rightarrow> bool" where
  "is_digit c \<longleftrightarrow> (48 :: nat) \<le> of_char c \<and> of_char c \<le> (57 :: nat)"

fun digits_val :: "nat \<Rightarrow> string \<Rightarrow> nat" where
  "digits_val acc [] = acc"
| "digits_val acc (c # cs) =
     (if is_digit c then digits_val (10 * acc + (of_char c - 48)) cs else acc)"

definition atoi :: "bytes \<Rightarrow> int" where
  "atoi s = (case dropWhile is_space (cstr s) of
       [] \<Rightarrow> 0
     | c # cs \<Rightarrow> (if c = CHR ''-'' then - int (digits_val 0 cs)
                  else if c = CHR ''+'' then int (digits_val 0 cs)
                  else int (digits_val 0 (c # cs))))"

lemma cstr_nul_free [simp]: "nul_free b \<Longrightarrow> cstr b = b"
  by (auto simp: cstr_def nul_free_def takeWhile_eq_all_conv)

lemma cstr_simps [simp]:
  "cstr [] = []" "cstr (NUL # b) = []" "c \<noteq> NUL \<Longrightarrow> cstr (c # b) = c # cstr b"
  by (simp_all add: cstr_def)

lemma nul_free_cstr [simp]: "nul_free (cstr b)"
  by (auto simp: cstr_def nul_free_def dest: set_takeWhileD)

lemma length_cstr: "length (cstr b) \<le> length b"
  by (simp add: cstr_def length_takeWhile_le)

lemma cstr_append_NUL [simp]: "cstr (b @ NUL # r) = cstr b"
  by (induction b) (auto simp: cstr_def)

lemma nul_free_simps [simp]:
  "nul_free []"
  "nul_free (a @ b) \<longleftrightarrow> nul_free a \<and> nul_free b"
  "nul_free (c # b) \<longleftrightarrow> c \<noteq> NUL \<and> nul_free b"
  by (auto simp: nul_free_def)

lemma nul_free_take [intro]: "nul_free b \<Longrightarrow> nul_free (take n b)"
  by (auto simp: nul_free_def dest: in_set_takeD)

lemma nul_free_drop [intro]: "nul_free b \<Longrightarrow> nul_free (drop n b)"
  by (auto simp: nul_free_def dest: in_set_dropD)

lemma nul_free_butlast [intro]: "nul_free b \<Longrightarrow> nul_free (butlast b)"
  by (auto simp: nul_free_def dest: in_set_butlastD)

lemma length_strncpy [simp]: "length (strncpy src n) = n"
  by (simp add: strncpy_def Let_def)

lemma strncpy_nul_free:
  "nul_free s \<Longrightarrow> length s \<le> n \<Longrightarrow> strncpy s n = s @ replicate (n - length s) NUL"
  by (simp add: strncpy_def Let_def)

lemma list_update_last: "xs \<noteq> [] \<Longrightarrow> xs[length xs - 1 := v] = butlast xs @ [v]"
  by (cases xs rule: rev_cases) auto

section \<open>Decimal output\<close>

text \<open>The conversion \<open>%d\<close> of \<open>printf\<close>, and its inverse \<open>atoi\<close>.\<close>

fun string_of_nat :: "nat \<Rightarrow> string" where
  "string_of_nat n =
     (if n < 10 then [char_of (48 + n)] else string_of_nat (n div 10) @ [char_of (48 + n mod 10)])"

declare string_of_nat.simps [simp del]

definition string_of_int :: "int \<Rightarrow> string" where
  "string_of_int i =
     (if i < 0 then CHR ''-'' # string_of_nat (nat (- i)) else string_of_nat (nat i))"

lemma is_digit_char_of [simp]: "(n :: nat) < 10 \<Longrightarrow> is_digit (char_of (48 + n))"
  by (simp add: is_digit_def of_char_of)

lemma string_of_nat_digits: "c \<in> set (string_of_nat n) \<Longrightarrow> is_digit c"
proof (induction n rule: string_of_nat.induct)
  case (1 n)
  then show ?case
    by (cases "n < 10") (auto simp: string_of_nat.simps [of n])
qed

lemma string_of_nat_nonempty [simp]: "string_of_nat n \<noteq> []"
  by (subst string_of_nat.simps) simp

lemma digits_val_append:
  "(\<And>c. c \<in> set xs \<Longrightarrow> is_digit c) \<Longrightarrow> digits_val a (xs @ ys) = digits_val (digits_val a xs) ys"
  by (induction xs arbitrary: a) auto

lemma digits_val_string_of_nat [simp]: "digits_val 0 (string_of_nat n) = n"
proof (induction n rule: string_of_nat.induct)
  case (1 n)
  show ?case
  proof (cases "n < 10")
    case True
    then show ?thesis by (simp add: string_of_nat.simps [of n] of_char_of)
  next
    case False
    then show ?thesis
      using "1.IH" by (simp add: string_of_nat.simps [of n] digits_val_append string_of_nat_digits of_char_of)
  qed
qed

lemma is_digit_not [simp]:
  "is_digit c \<Longrightarrow> \<not> is_space c" "is_digit c \<Longrightarrow> c \<noteq> NUL"
  "is_digit c \<Longrightarrow> c \<noteq> CHR ''-''" "is_digit c \<Longrightarrow> c \<noteq> CHR ''+''"
  by (auto simp: is_digit_def is_space_def)

lemma nul_free_string_of_nat [simp]: "nul_free (string_of_nat n)"
  using is_digit_not(2) string_of_nat_digits unfolding nul_free_def by blast

lemma atoi_string_of_int [simp]: "atoi (string_of_int i) = i"
proof -
  have nat: "atoi (string_of_nat n) = int n" for n
  proof -
    obtain c cs where c: "string_of_nat n = c # cs"
      by (cases "string_of_nat n") auto
    then have "is_digit c" using string_of_nat_digits [of c n] by simp
    then show ?thesis
      using digits_val_string_of_nat [of n] nul_free_string_of_nat [of n]
      by (simp add: atoi_def c del: digits_val.simps nul_free_simps)
  qed
  have "\<not> is_space (CHR ''-'')" by (simp add: is_space_def)
  then have "atoi (CHR ''-'' # string_of_nat n) = - int n" for n by (simp add: atoi_def)
  then show ?thesis by (auto simp: string_of_int_def nat)
qed

section \<open>Computations that may fail\<close>

fun rbind :: "'e + 'a \<Rightarrow> ('a \<Rightarrow> 'e + 'b) \<Rightarrow> 'e + 'b" where
  "rbind (Inl e) f = Inl e"
| "rbind (Inr x) f = f x"

lemma rbind_eq_Inr [simp]: "rbind r f = Inr y \<longleftrightarrow> (\<exists>x. r = Inr x \<and> f x = Inr y)"
  by (cases r) auto

lemma Inr_eq_rbind [simp]: "Inr y = rbind r f \<longleftrightarrow> (\<exists>x. r = Inr x \<and> f x = Inr y)"
  by (cases r) auto

text \<open>
  What C leaves undefined: dereferencing NULL or a released object, an access outside an
  object, and reading an object that was never written.
\<close>

datatype cerror = Segfault | Overflow | Uninitialised

text \<open>A loop that stops at the first error.\<close>

fun rfold :: "('s \<Rightarrow> 'a \<Rightarrow> 'e + 's) \<Rightarrow> 's \<Rightarrow> 'a list \<Rightarrow> 'e + 's" where
  "rfold f s [] = Inr s"
| "rfold f s (x # xs) = rbind (f s x) (\<lambda>s'. rfold f s' xs)"

section \<open>Files\<close>

text \<open>\<open>fread\<close> of at most \<open>n\<close> bytes: the bytes read and what is left of the stream.\<close>

definition fread :: "nat \<Rightarrow> bytes \<Rightarrow> bytes \<times> bytes" where
  "fread n f = (take n f, drop n f)"

text \<open>
  \<open>fseek\<close> to an offset followed by \<open>fwrite\<close>: a gap between the end of the file and the
  offset reads as NULs, and writing no byte leaves the file as it is.
\<close>

definition fwrite_at :: "nat \<Rightarrow> bytes \<Rightarrow> bytes \<Rightarrow> bytes" where
  "fwrite_at off d f =
     (if d = [] then f
      else take off (f @ replicate (off - length f) NUL) @ d @ drop (off + length d) f)"

lemma fwrite_at_empty [simp, file_laws]: "fwrite_at off [] f = f"
  by (simp add: fwrite_at_def)

lemma length_fwrite_at [file_laws]:
  "length (fwrite_at off d f) = (if d = [] then length f else max (length f) (off + length d))"
  by (auto simp: fwrite_at_def min_def max_def)

lemma nth_fwrite_at_in [file_laws]:
  assumes "off \<le> k" and "k < off + length d"
  shows "fwrite_at off d f ! k = d ! (k - off)"
proof -
  have "length (take off (f @ replicate (off - length f) NUL)) = off" by simp
  then show ?thesis using assms by (auto simp: fwrite_at_def nth_append)
qed

lemma nth_fwrite_at_out [file_laws]:
  assumes "k < length f" and "k < off \<or> off + length d \<le> k"
  shows "fwrite_at off d f ! k = f ! k"
proof -
  have "length (take off (f @ replicate (off - length f) NUL)) = off" by simp
  then show ?thesis using assms by (auto simp: fwrite_at_def nth_append)
qed

text \<open>Writing right at the end of a file appends.\<close>

lemma fwrite_at_append [simp, file_laws]: "fwrite_at (length f) d f = f @ d"
  by (simp add: fwrite_at_def)

text \<open>Two writes of the same bytes at the same place are one write.\<close>

lemma fwrite_at_idem [simp, file_laws]:
  "fwrite_at off d (fwrite_at off d f) = fwrite_at off d f"
proof (cases "d = []")
  case False
  show ?thesis
  proof (rule nth_equalityI)
    fix k assume k: "k < length (fwrite_at off d (fwrite_at off d f))"
    show "fwrite_at off d (fwrite_at off d f) ! k = fwrite_at off d f ! k"
    proof (cases "off \<le> k \<and> k < off + length d")
      case True
      then show ?thesis by (simp add: nth_fwrite_at_in)
    next
      case False
      with k \<open>d \<noteq> []\<close> have "k < length (fwrite_at off d f)"
        by (simp add: length_fwrite_at)
      with False show ?thesis by (intro nth_fwrite_at_out) auto
    qed
  qed (simp add: length_fwrite_at)
qed simp

text \<open>The bytes of a file, with NULs behind its end.\<close>

definition byte_at :: "bytes \<Rightarrow> nat \<Rightarrow> char" where
  "byte_at f k = (if k < length f then f ! k else NUL)"

lemma byte_at_fwrite_at [file_laws]:
  "byte_at (fwrite_at off d f) k = (if off \<le> k \<and> k < off + length d then d ! (k - off) else byte_at f k)"
proof (cases "d = []")
  case False
  show ?thesis
  proof (cases "off \<le> k \<and> k < off + length d")
    case True
    then show ?thesis using False nth_fwrite_at_in [of off k d f] by (auto simp: byte_at_def length_fwrite_at)
  next
    case out: False
    show ?thesis
    proof (cases "k < length f")
      case True
      then show ?thesis using False out nth_fwrite_at_out [of k f off d] by (auto simp: byte_at_def length_fwrite_at)
    next
      case gap: False
      then show ?thesis using out
        by (auto simp: byte_at_def fwrite_at_def nth_append)
    qed
  qed
qed auto

lemma nth_update_any: "(xs[i := x]) ! k = (if i = k \<and> k < length xs then x else xs ! k)"
  by (cases "i = k") (auto simp: list_update_beyond)

end
