(* ===== verification/Wire.thy ===== *)
theory Wire
  imports NP_Prelude
begin

text \<open>
  The packet format and helpers of \<open>N-Channel-StopNWait/utils.h\<close>: the byte-order macros
  \<open>htonll\<close> and \<open>ntohll\<close> on 64-bit words, the structures \<open>Header\<close> and \<open>Packet\<close>,
  \<open>hton_header\<close> and \<open>get_next_chunk\<close>. The flag \<open>big\<close> says whether the host is big endian,
  which is what the macros test with \<open>1 == htonl(1)\<close>. Main results: the two macros are
  inverse on both kinds of host, \<open>hton_header\<close> lays out the header in network order, and
  \<open>get_next_chunk\<close> returns full chunks unchanged but drops the last byte of a short one.
\<close>

section \<open>Byte order\<close>

definition bswap32 :: "u32 \<Rightarrow> u32" where
  "bswap32 x = push_bit 24 (x AND 0xFF) OR push_bit 8 (x AND 0xFF00)
     OR drop_bit 8 (x AND 0xFF0000) OR drop_bit 24 (x AND 0xFF000000)"

definition htonl :: "bool \<Rightarrow> u32 \<Rightarrow> u32" where
  "htonl big x = (if big then x else bswap32 x)"

definition htonll :: "bool \<Rightarrow> u64 \<Rightarrow> u64" where
  "htonll big x =
     (if 1 = htonl big 1 then x
      else push_bit 32 (ucast (htonl big (ucast (x AND 0xFFFFFFFF))) :: u64)
           OR ucast (htonl big (ucast (drop_bit 32 x))))"

definition ntohll :: "bool \<Rightarrow> u64 \<Rightarrow> u64" where
  "ntohll big x =
     (if 1 = htonl big 1 then x
      else push_bit 32 (ucast (htonl big (ucast (x AND 0xFFFFFFFF))) :: u64)
           OR ucast (htonl big (ucast (drop_bit 32 x))))"

section \<open>Packets\<close>

record Header =
  size :: u64
  seq_no :: u64
  is_last :: u8
  type :: u8
  channel_id :: u8

record Packet =
  header :: Header
  data :: bytes

definition PACKET_SIZE :: nat where "PACKET_SIZE = 5"
definition NUM_CHANNELS :: nat where "NUM_CHANNELS = 3"

text \<open>The eight bytes of a 64-bit word as \<open>memcpy\<close> finds them in memory.\<close>

definition word_bytes :: "bool \<Rightarrow> u64 \<Rightarrow> u8 list" where
  "word_bytes big x =
     (let le = map (\<lambda>i. ucast (drop_bit (8 * i) x)) [0..<8] in if big then rev le else le)"

definition hton_header :: "bool \<Rightarrow> Header \<Rightarrow> u8 list" where
  "hton_header big h =
     word_bytes big (htonll big (size h)) @ word_bytes big (htonll big (seq_no h))
     @ [is_last h, type h, channel_id h]"

text \<open>
  \<open>get_next_chunk\<close> returns the buffer up to its terminating NUL, the rest of the stream,
  the end-of-file flag (set, never cleared) and the payload size.
\<close>

definition get_next_chunk :: "bytes \<Rightarrow> nat \<Rightarrow> bool \<Rightarrow> bytes \<times> bytes \<times> bool \<times> nat" where
  "get_next_chunk fp chunk_size is_eof =
     (let (buf, fp') = fread chunk_size fp; ret = length buf in
      if ret < chunk_size then
        (if ret > 0 then (buf[ret - 1 := NUL] @ [NUL], fp', True, ret - 1)
         else (buf @ [NUL], fp', True, ret))
      else (buf @ [NUL], fp', is_eof, ret))"

section \<open>Properties of the byte-order macros\<close>

lemma byte_masks:
  "(0xFF :: u32) = mask 8" "(0xFF00 :: u32) = push_bit 8 (mask 8)"
  "(0xFF0000 :: u32) = push_bit 16 (mask 8)" "(0xFF000000 :: u32) = push_bit 24 (mask 8)"
  "(0xFFFFFFFF :: u64) = mask 32"
  by (simp_all add: mask_eq_exp_minus_1 push_bit_eq_mult)

lemma bit_bswap32:
  "bit (bswap32 x) n \<longleftrightarrow>
     n < 32 \<and> bit x (if n < 8 then 24 + n else if n < 16 then 8 + n
                    else if n < 24 then n - 8 else n - 24)"
  unfolding bswap32_def byte_masks
  by (auto simp: bit_simps not_less not_le dest: bit_imp_le_length)

lemma bswap32_invol: "bswap32 (bswap32 x) = x"
  by (rule bit_word_eqI) (auto simp: bit_bswap32)

lemma htonl_one: "1 = htonl big 1 \<longleftrightarrow> big"
  by (simp add: htonl_def bswap32_def)

lemma bit_htonll_little:
  "bit (htonll False x) n \<longleftrightarrow>
     n < 64 \<and> (if n < 32 then bit (bswap32 (ucast (drop_bit 32 x))) n
               else bit (bswap32 (ucast x)) (n - 32))"
proof -
  have low: "(ucast (x AND mask 32) :: u32) = ucast x"
    by (rule bit_word_eqI) (simp add: bit_simps)
  show ?thesis
    unfolding htonll_def byte_masks(5) low htonl_one
    by (auto simp: htonl_def bit_simps bit_bswap32)
qed

lemma htonll_invol: "htonll big (htonll big x) = x"
proof (cases big)
  case True
  then show ?thesis by (simp add: htonll_def htonl_def)
next
  case False
  have hi: "(ucast (drop_bit 32 (htonll False x)) :: u32) = bswap32 (ucast x)"
    by (rule bit_word_eqI) (auto simp: bit_simps bit_htonll_little bit_bswap32)
  have lo: "(ucast (htonll False x) :: u32) = bswap32 (ucast (drop_bit 32 x))"
    by (rule bit_word_eqI) (auto simp: bit_simps bit_htonll_little bit_bswap32)
  have "htonll False (htonll False x) = x"
    by (rule bit_word_eqI)
       (auto simp: bit_htonll_little hi lo bswap32_invol bit_simps)
  with False show ?thesis by simp
qed

lemma ntohll_eq: "ntohll = htonll"
  by (simp add: fun_eq_iff ntohll_def htonll_def)

lemma ntohll_htonll [simp]: "ntohll big (htonll big x) = x"
  by (simp add: ntohll_eq htonll_invol)

lemma htonll_ntohll [simp]: "htonll big (ntohll big x) = x"
  by (simp add: ntohll_eq htonll_invol)

lemma htonll_inj [simp]: "htonll big x = htonll big y \<longleftrightarrow> x = y"
  by (metis ntohll_htonll)

text \<open>
  C11. The 64-bit byte-order macros are inverse to each other, on little-endian and on
  big-endian hosts: what one side puts into \<open>size\<close> or \<open>seq_no\<close> is what the other reads.
\<close>

theorem byte_order_roundtrip:
  "ntohll big (htonll big x) = x \<and> htonll big (ntohll big x) = x"
  by simp

section \<open>Properties of the header layout\<close>

definition be_bytes :: "u64 \<Rightarrow> u8 list" where
  "be_bytes x = rev (map (\<lambda>i. ucast (drop_bit (8 * i) x)) [0..<8])"

lemma length_be_bytes [simp]: "length (be_bytes x) = 8"
  by (simp add: be_bytes_def)

lemma be_bytes_inj:
  assumes "be_bytes x = be_bytes y"
  shows "x = y"
proof (rule bit_word_eqI)
  fix n assume "n < LENGTH(64)"
  define i where "i = n div 8"
  have i: "i < 8" "n = 8 * i + n mod 8"
    using \<open>n < LENGTH(64)\<close> by (auto simp: i_def)
  from assms have eq: "map (\<lambda>i. ucast (drop_bit (8 * i) x) :: u8) [0..<8]
      = map (\<lambda>i. ucast (drop_bit (8 * i) y)) [0..<8]"
    by (simp add: be_bytes_def)
  have "(ucast (drop_bit (8 * i) x) :: u8) = ucast (drop_bit (8 * i) y)"
    using arg_cong [OF eq, of "\<lambda>l. l ! i"] i(1) by simp
  then have "bit (ucast (drop_bit (8 * i) x) :: u8) (n mod 8)
      = bit (ucast (drop_bit (8 * i) y) :: u8) (n mod 8)" by simp
  then show "bit x n = bit y n"
    using i(2) by (simp add: bit_simps)
qed

lemma swapped_byte:
  "i < 8 \<Longrightarrow> (ucast (drop_bit (8 * i) (htonll False x)) :: u8) = ucast (drop_bit (8 * (7 - i)) x)"
proof (rule bit_word_eqI)
  fix m assume i: "i < 8" and m: "m < LENGTH(8)"
  from i have "i = 0 \<or> i = 1 \<or> i = 2 \<or> i = 3 \<or> i = 4 \<or> i = 5 \<or> i = 6 \<or> i = 7" by linarith
  then show "bit (ucast (drop_bit (8 * i) (htonll False x)) :: u8) m
      = bit (ucast (drop_bit (8 * (7 - i)) x) :: u8) m"
    using m by (elim disjE) (simp_all add: bit_simps bit_htonll_little bit_bswap32)
qed

lemma nth_upt_7: "i < 8 \<Longrightarrow> [0..<8] ! (7 - i) = 7 - (i :: nat)"
  by (subst nth_upt) auto

lemma word_bytes_htonll: "word_bytes big (htonll big x) = be_bytes x"
proof (cases big)
  case True
  then show ?thesis by (simp add: word_bytes_def be_bytes_def htonll_def htonl_def)
next
  case False
  show ?thesis
    unfolding word_bytes_def be_bytes_def Let_def
    using False by (intro nth_equalityI) (auto simp: swapped_byte rev_nth nth_upt_7)
qed

text \<open>
  \<open>hton_header\<close> writes 19 bytes whose layout does not depend on the host: the size and
  the sequence number in network byte order, then the three one-byte fields; and two
  headers with the same bytes are the same header, so nothing of the header is lost.
\<close>

theorem hton_header_layout:
  "hton_header big h = be_bytes (size h) @ be_bytes (seq_no h) @ [is_last h, type h, channel_id h]
   \<and> length (hton_header big h) = 19
   \<and> (hton_header big h = hton_header big' h' \<longleftrightarrow> (h :: Header) = h')"
proof -
  have lay: "hton_header b g
      = be_bytes (size g) @ be_bytes (seq_no g) @ [is_last g, type g, channel_id g]"
    for b and g :: Header
    by (simp add: hton_header_def word_bytes_htonll)
  have "(h :: Header) = h'" if "hton_header big h = hton_header big' h'"
    using that unfolding lay by (auto intro!: Header.equality dest: be_bytes_inj)
  then show ?thesis by (auto simp: lay)
qed

section \<open>Properties of chunking\<close>

lemma get_next_chunk_full:
  "n \<le> length fp \<Longrightarrow> get_next_chunk fp n e = (take n fp @ [NUL], drop n fp, e, n)"
  by (simp add: get_next_chunk_def fread_def)

lemma get_next_chunk_short:
  "length fp < n \<Longrightarrow> get_next_chunk fp n e =
     (if fp = [] then [NUL] else butlast fp @ [NUL, NUL], [], True, length fp - 1)"
  by (auto simp: get_next_chunk_def fread_def Let_def list_update_last [simplified])

text \<open>
  \<open>get_next_chunk\<close> on every branch. A full chunk is returned as it is in the file and
  leaves the end-of-file flag alone. A short read (the end of the file) sets the flag,
  empties the stream and gives away the last byte that was read: the payload is one byte
  shorter than what \<open>fread\<close> returned, unless nothing was read.
\<close>

theorem get_next_chunk_spec:
  assumes "get_next_chunk fp n e = (buf, fp', e', payload)"
  shows "if n \<le> length fp
         then cstr buf = cstr (take n fp) \<and> fp = take n fp @ fp' \<and> e' = e \<and> payload = n
         else cstr buf = cstr (butlast fp) \<and> fp' = [] \<and> e' \<and> payload = length fp - 1"
proof (cases "n \<le> length fp")
  case True
  then show ?thesis using assms by (auto simp: get_next_chunk_full)
next
  case False
  then show ?thesis using assms by (auto simp: get_next_chunk_short split: if_splits)
qed

theorem get_next_chunk_spec_witness:
  "get_next_chunk ''abc'' 5 False = (''ab'' @ [NUL, NUL], [], True, 2)
   \<and> cstr (''ab'' @ [NUL, NUL]) = cstr (butlast ''abc'')"
proof -
  have g: "get_next_chunk ''abc'' 5 False = (''ab'' @ [NUL, NUL], [], True, 2)"
    by (simp add: get_next_chunk_def fread_def Let_def)
  have "cstr (''ab'' @ [NUL, NUL]) = cstr (butlast ''abc'')"
    using get_next_chunk_spec [OF g] by (simp only: list.size split: if_splits)
  with g show ?thesis by blast
qed

end
