(* ===== verification/Stop_And_Wait.thy ===== *)
theory Stop_And_Wait
  imports Wire
begin

text \<open>
  The N-channel stop-and-wait file transfer: \<open>connection_loop\<close> of
  \<open>N-Channel-StopNWait/client.c\<close> and \<open>serve_connection\<close> with the service loop of
  \<open>server.c\<close>. Each TCP connection is a pair of first-in first-out queues of packets, and
  one step of the system is one iteration of a loop of the client or of the server: which
  side moves, when \<open>poll\<close> reports a timeout and which packets the server drops (\<open>rand\<close>)
  is left open, so a theorem about every run covers every timing and every drop pattern.
  The clock itself is not modelled: the variable \<open>timeout\<close> only decides when \<open>poll\<close>
  returns 0, which may be any moment at which nothing can be read. \<open>patient\<close> runs are
  those in which \<open>poll\<close> times out only when no packet is under way on the channel, that is
  in which the server answers or drops within the timeout.
\<close>

section \<open>The client\<close>

record client =
  c_fp :: bytes
  c_is_eof :: bool
  c_payload_size :: nat
  c_seq_no :: u64
  c_eof_seq_no :: u64
  c_tmp :: "Packet list"
  c_last_packet :: int

definition zero_packet :: Packet where
  "zero_packet = \<lparr>header = \<lparr>size = 0, seq_no = 0, is_last = 0, type = 0, channel_id = 0\<rparr>,
     data = replicate PACKET_SIZE NUL\<rparr>"

definition init_client :: "bytes \<Rightarrow> client" where
  "init_client F = \<lparr>c_fp = F, c_is_eof = False, c_payload_size = 0, c_seq_no = 0,
     c_eof_seq_no = -1, c_tmp = replicate NUM_CHANNELS zero_packet, c_last_packet = -1\<rparr>"

text \<open>One iteration of the sending loop on channel \<open>i\<close>: the packet written and the new state.\<close>

definition send_chunk :: "bool \<Rightarrow> nat \<Rightarrow> client \<Rightarrow> Packet \<times> client" where
  "send_chunk big i c =
     (let (buf, fp', eof, payload) = get_next_chunk (c_fp c) PACKET_SIZE (c_is_eof c);
          eof_seq = (if eof then c_seq_no c else c_eof_seq_no c);
          hdr = \<lparr>size = htonll big (of_nat payload), seq_no = htonll big (c_seq_no c),
                 is_last = 0, type = 0, channel_id = of_nat i\<rparr>;
          pkt = \<lparr>header = hdr, data = strncpy buf PACKET_SIZE\<rparr>
      in (pkt,
          c\<lparr>c_fp := fp', c_is_eof := (if eof then False else c_is_eof c),
            c_payload_size := payload, c_eof_seq_no := eof_seq,
            c_tmp := (c_tmp c)[i := pkt],
            c_seq_no := c_seq_no c + ntohll big (size hdr),
            c_last_packet := (if ntohll big (size hdr) = 0 then int i else c_last_packet c)\<rparr>))"

text \<open>The bookkeeping for a packet read back on some channel.\<close>

definition recv_ack :: "bool \<Rightarrow> Packet \<Rightarrow> client \<Rightarrow> client" where
  "recv_ack big p c =
     (if type (header p) = 1 \<and> ntohll big (seq_no (header p)) = c_eof_seq_no c
      then c\<lparr>c_is_eof := True\<rparr> else c)"

definition fin_packet :: "bool \<Rightarrow> client \<Rightarrow> Packet" where
  "fin_packet big c =
     \<lparr>header = \<lparr>size = htonll big (of_nat (c_payload_size c)), seq_no = htonll big (c_seq_no c),
                is_last = 1, type = 1, channel_id = 0\<rparr>,
      data = strncpy ''exit'' PACKET_SIZE\<rparr>"

text \<open>
  Where the client is: about to send on channel \<open>i\<close>, waiting in the receive loop on
  channel \<open>i\<close>, waiting for the acknowledgement of its final packet, or out of the loop.
\<close>

datatype cpc = Send nat | Wait nat | FinWait Packet | Finished

definition loop_head :: "client \<Rightarrow> cpc" where
  "loop_head c =
     (if c_is_eof c then Finished else if c_eof_seq_no c = -1 then Send 0 else Wait 0)"

definition after_send :: "bool \<Rightarrow> nat \<Rightarrow> Packet \<Rightarrow> cpc" where
  "after_send big i p =
     (if ntohll big (size (header p)) = 0 then Wait 0
      else if Suc i < NUM_CHANNELS then Send (Suc i) else Wait 0)"

definition after_wait :: "bool \<Rightarrow> nat \<Rightarrow> client \<Rightarrow> cpc" where
  "after_wait big i c =
     (if Suc i < NUM_CHANNELS \<and> \<not> (c_last_packet c \<noteq> -1 \<and> int (Suc i) > c_last_packet c)
      then Wait (Suc i)
      else if c_is_eof c then FinWait (fin_packet big c) else loop_head c)"

section \<open>The server\<close>

record server =
  s_fp :: bytes
  s_last_seq_no :: u64

text \<open>
  \<open>serve_connection\<close> on the packet read; \<open>res\<close> is the outcome of the random test. The
  result is the packet written back, if any, and the returned \<open>is_last\<close>.
\<close>

definition serve_connection :: "bool \<Rightarrow> bool \<Rightarrow> Packet \<Rightarrow> server \<Rightarrow> Packet option \<times> server \<times> u8" where
  "serve_connection big res p s =
     (if res then (None, s, 0)
      else
        let seq = ntohll big (seq_no (header p));
            pkt_size = ntohll big (size (header p));
            fp' = (if is_last (header p) \<noteq> 1
                   then fwrite_at (unat seq) (take (unat pkt_size) (data p)) (s_fp s) else s_fp s);
            ack = p\<lparr>header := (header p)\<lparr>seq_no := htonll big seq, type := 1\<rparr>\<rparr>
        in (Some ack,
            s\<lparr>s_fp := fp', s_last_seq_no := (if seq > s_last_seq_no s then seq else s_last_seq_no s)\<rparr>,
            is_last (header p)))"

text \<open>The server is in \<open>select\<close>, serving the channels \<open>select\<close> reported, or out of its loop.\<close>

datatype spc = Select | Serve "nat list" | Closed

section \<open>The system\<close>

record sys =
  cl :: client
  cpc_of :: cpc
  up :: "nat \<Rightarrow> Packet list"
  down :: "nat \<Rightarrow> Packet list"
  srv :: server
  s_is_last :: bool
  spc_of :: spc

definition init_sys :: "bytes \<Rightarrow> sys" where
  "init_sys F = \<lparr>cl = init_client F, cpc_of = loop_head (init_client F),
     up = (\<lambda>_. []), down = (\<lambda>_. []), srv = \<lparr>s_fp = [], s_last_seq_no = 0\<rparr>,
     s_is_last = False, spc_of = Select\<rparr>"

datatype action = CSend | CTimeout | CRecv | SSelect | SServe bool | SLoop

definition client_send :: "bool \<Rightarrow> sys \<Rightarrow> sys option" where
  "client_send big s = (case cpc_of s of
       Send i \<Rightarrow> (let (p, c') = send_chunk big i (cl s)
                 in Some (s\<lparr>cl := c', cpc_of := after_send big i p, up := (up s)(i := up s i @ [p])\<rparr>))
     | _ \<Rightarrow> None)"

definition poll_times_out :: "bool \<Rightarrow> nat \<Rightarrow> sys \<Rightarrow> bool" where
  "poll_times_out patient i s \<longleftrightarrow> down s i = [] \<and> (patient \<longrightarrow> up s i = [])"

definition client_timeout :: "bool \<Rightarrow> sys \<Rightarrow> sys option" where
  "client_timeout patient s = (case cpc_of s of
       Wait i \<Rightarrow> if poll_times_out patient i s
                 then Some (s\<lparr>up := (up s)(i := up s i @ [c_tmp (cl s) ! i])\<rparr>) else None
     | FinWait p \<Rightarrow> if poll_times_out patient 0 s
                 then Some (s\<lparr>up := (up s)(0 := up s 0 @ [p])\<rparr>) else None
     | _ \<Rightarrow> None)"

definition client_recv :: "bool \<Rightarrow> sys \<Rightarrow> sys option" where
  "client_recv big s = (case cpc_of s of
       Wait i \<Rightarrow> (case down s i of
           [] \<Rightarrow> None
         | p # ps \<Rightarrow>
             let c' = recv_ack big p (cl s); pc' = after_wait big i c';
                 s' = s\<lparr>cl := c', cpc_of := pc', down := (down s)(i := ps)\<rparr>
             in Some (case pc' of FinWait q \<Rightarrow> s'\<lparr>up := (up s)(0 := up s 0 @ [q]),
                                     cl := c'\<lparr>c_seq_no := c_seq_no c' + ntohll big (size (header q))\<rparr>\<rparr>
                      | _ \<Rightarrow> s'))
     | FinWait q \<Rightarrow> (case down s 0 of
           [] \<Rightarrow> None
         | p # ps \<Rightarrow> Some (s\<lparr>cl := recv_ack big p (cl s), cpc_of := loop_head (recv_ack big p (cl s)),
                             down := (down s)(0 := ps)\<rparr>))
     | _ \<Rightarrow> None)"

definition server_select :: "sys \<Rightarrow> sys option" where
  "server_select s = (case spc_of s of
       Select \<Rightarrow> (let ready = filter (\<lambda>i. up s i \<noteq> []) [0..<NUM_CHANNELS]
                  in if ready = [] then None else Some (s\<lparr>spc_of := Serve ready\<rparr>))
     | _ \<Rightarrow> None)"

definition server_serve :: "bool \<Rightarrow> bool \<Rightarrow> sys \<Rightarrow> sys option" where
  "server_serve big res s = (case spc_of s of
       Serve (i # is) \<Rightarrow> (case up s i of
           [] \<Rightarrow> None
         | p # ps \<Rightarrow>
             let (ack, srv', last) = serve_connection big res p (srv s)
             in Some (s\<lparr>up := (up s)(i := ps),
                        down := (down s)(i := down s i @ (case ack of None \<Rightarrow> [] | Some a \<Rightarrow> [a])),
                        srv := srv', s_is_last := (last = 1 \<or> s_is_last s), spc_of := Serve is\<rparr>))
     | _ \<Rightarrow> None)"

definition server_loop :: "sys \<Rightarrow> sys option" where
  "server_loop s = (case spc_of s of
       Serve [] \<Rightarrow> Some (s\<lparr>spc_of := (if s_is_last s then Closed else Select)\<rparr>)
     | _ \<Rightarrow> None)"

fun act :: "bool \<Rightarrow> bool \<Rightarrow> action \<Rightarrow> sys \<Rightarrow> sys option" where
  "act big patient CSend s = client_send big s"
| "act big patient CTimeout s = client_timeout patient s"
| "act big patient CRecv s = client_recv big s"
| "act big patient SSelect s = server_select s"
| "act big patient (SServe res) s = server_serve big res s"
| "act big patient SLoop s = server_loop s"

fun run :: "bool \<Rightarrow> bool \<Rightarrow> action list \<Rightarrow> sys \<Rightarrow> sys option" where
  "run big patient [] s = Some s"
| "run big patient (a # as) s =
     (case act big patient a s of None \<Rightarrow> None | Some s' \<Rightarrow> run big patient as s')"

inductive reachable :: "bool \<Rightarrow> bool \<Rightarrow> bytes \<Rightarrow> sys \<Rightarrow> bool" for big patient F where
  start: "reachable big patient F (init_sys F)"
| step: "reachable big patient F s \<Longrightarrow> act big patient a s = Some t \<Longrightarrow> reachable big patient F t"

section \<open>What the server's file should be\<close>

text \<open>The bytes the chunks of the input file carry, one after the other.\<close>

function expected :: "bytes \<Rightarrow> bytes" where
  "expected f =
     (if PACKET_SIZE \<le> length f
      then strncpy (take PACKET_SIZE f) PACKET_SIZE @ expected (drop PACKET_SIZE f)
      else take (length f - 1) (strncpy (butlast f) PACKET_SIZE))"
  by pat_completeness auto
termination
  by (relation "measure length") (auto simp: PACKET_SIZE_def)

declare expected.simps [simp del]

section \<open>Facts about the bytes carried\<close>

lemma expected_full:
  "PACKET_SIZE \<le> length f \<Longrightarrow>
     expected f = strncpy (take PACKET_SIZE f) PACKET_SIZE @ expected (drop PACKET_SIZE f)"
  by (subst expected.simps) simp

lemma expected_short:
  "length f < PACKET_SIZE \<Longrightarrow>
     expected f = take (length f - 1) (strncpy (butlast f) PACKET_SIZE)"
  by (subst expected.simps) simp

lemma expected_Nil [simp]: "expected [] = []"
  by (subst expected.simps) (simp add: PACKET_SIZE_def)

lemma length_expected: "length (expected f) \<le> length f"
proof (induction f rule: expected.induct)
  case (1 f)
  then show ?case
    by (cases "PACKET_SIZE \<le> length f") (auto simp: expected_full expected_short)
qed

lemma expected_nul_free:
  "nul_free f \<Longrightarrow> expected f = (if PACKET_SIZE dvd length f then f else butlast f)"
proof (induction f rule: expected.induct)
  case (1 f)
  show ?case
  proof (cases "PACKET_SIZE \<le> length f")
    case True
    then have "expected f = take PACKET_SIZE f @ expected (drop PACKET_SIZE f)"
      using "1.prems" by (simp add: expected_full strncpy_nul_free nul_free_take)
    moreover have "PACKET_SIZE dvd length f \<longleftrightarrow> PACKET_SIZE dvd length (drop PACKET_SIZE f)"
      using True by (simp add: dvd_minus_self)
    moreover have "take PACKET_SIZE f @ butlast (drop PACKET_SIZE f) = butlast f"
      if "\<not> PACKET_SIZE dvd length f"
    proof -
      from that have "drop PACKET_SIZE f \<noteq> []" using True by auto
      then show ?thesis by (metis append_take_drop_id butlast_append)
    qed
    ultimately show ?thesis
      using "1.IH" [OF True] "1.prems" by (auto simp: nul_free_drop)
  next
    case False
    then have "f = [] \<or> \<not> PACKET_SIZE dvd length f"
      by (auto dest: dvd_imp_le)
    then show ?thesis
      using False "1.prems"
      by (auto simp: expected_short strncpy_nul_free nul_free_butlast)
  qed
qed

section \<open>Packets and channels\<close>

definition pkt_off :: "bool \<Rightarrow> Packet \<Rightarrow> nat" where
  "pkt_off big p = unat (ntohll big (seq_no (header p)))"

definition pkt_len :: "bool \<Rightarrow> Packet \<Rightarrow> nat" where
  "pkt_len big p = unat (ntohll big (size (header p)))"

definition region :: "bool \<Rightarrow> Packet \<Rightarrow> nat set" where
  "region big p = {pkt_off big p ..< pkt_off big p + pkt_len big p}"

definition pkt_ok :: "bool \<Rightarrow> bytes \<Rightarrow> Packet \<Rightarrow> bool" where
  "pkt_ok big E p \<longleftrightarrow>
     is_last (header p) = 0 \<and> pkt_len big p \<le> PACKET_SIZE \<and> length (data p) = PACKET_SIZE
     \<and> pkt_off big p + pkt_len big p \<le> length E
     \<and> take (pkt_len big p) (data p) = take (pkt_len big p) (drop (pkt_off big p) E)"

definition ack_of :: "Packet \<Rightarrow> Packet" where
  "ack_of p = p\<lparr>header := (header p)\<lparr>type := 1\<rparr>\<rparr>"

lemma ack_of_simps [simp]:
  "pkt_off big (ack_of p) = pkt_off big p" "pkt_len big (ack_of p) = pkt_len big p"
  "region big (ack_of p) = region big p" "pkt_ok big E (ack_of p) = pkt_ok big E p"
  "is_last (header (ack_of p)) = is_last (header p)"
  "seq_no (header (ack_of p)) = seq_no (header p)" "type (header (ack_of p)) = 1"
  by (simp_all add: ack_of_def pkt_off_def pkt_len_def region_def pkt_ok_def)

text \<open>A stop-and-wait channel holds the packet, its acknowledgement or nothing.\<close>

definition chan_ok :: "Packet \<Rightarrow> Packet list \<Rightarrow> Packet list \<Rightarrow> bool" where
  "chan_ok q u d \<longleftrightarrow> u = [] \<and> d = [] \<or> u = [q] \<and> d = [] \<or> u = [] \<and> d = [ack_of q]"

definition active :: "sys \<Rightarrow> nat \<Rightarrow> bool" where
  "active s j \<longleftrightarrow> j < NUM_CHANNELS \<and> (case cpc_of s of
       Send i \<Rightarrow> j < i
     | Wait i \<Rightarrow> i \<le> j \<and> (c_last_packet (cl s) = -1 \<or> int j \<le> c_last_packet (cl s))
     | _ \<Rightarrow> False)"

definition used :: "sys \<Rightarrow> nat \<Rightarrow> bool" where
  "used s j \<longleftrightarrow> j < NUM_CHANNELS \<and> (case cpc_of s of
       Send i \<Rightarrow> j < i
     | Wait i \<Rightarrow> c_last_packet (cl s) = -1 \<or> int j \<le> c_last_packet (cl s)
     | _ \<Rightarrow> False)"

definition slot :: "sys \<Rightarrow> nat \<Rightarrow> Packet option" where
  "slot s j = (case cpc_of s of
       FinWait q \<Rightarrow> if j = 0 then Some q else None
     | _ \<Rightarrow> if active s j then Some (c_tmp (cl s) ! j) else None)"

definition in_transfer :: "sys \<Rightarrow> bool" where
  "in_transfer s \<longleftrightarrow> (case cpc_of s of Send _ \<Rightarrow> True | Wait _ \<Rightarrow> True | _ \<Rightarrow> False)"

definition sent_len :: "bytes \<Rightarrow> sys \<Rightarrow> nat" where
  "sent_len E s = (if in_transfer s then unat (c_seq_no (cl s)) else length E)"

section \<open>The invariant\<close>

definition inv_pc :: "sys \<Rightarrow> bool" where
  "inv_pc s \<longleftrightarrow> length (c_tmp (cl s)) = NUM_CHANNELS \<and> (case cpc_of s of
       Send i \<Rightarrow> i < NUM_CHANNELS \<and> c_last_packet (cl s) = -1 \<and> \<not> c_is_eof (cl s)
     | Wait i \<Rightarrow> i < NUM_CHANNELS \<and>
         (c_last_packet (cl s) = -1 \<or> int i \<le> c_last_packet (cl s) \<and> c_last_packet (cl s) < int NUM_CHANNELS
            \<and> c_eof_seq_no (cl s) \<noteq> -1)
     | FinWait q \<Rightarrow> is_last (header q) = 1 \<and> c_is_eof (cl s)
     | Finished \<Rightarrow> c_is_eof (cl s))"

definition inv_stream :: "bytes \<Rightarrow> sys \<Rightarrow> bool" where
  "inv_stream E s \<longleftrightarrow>
     (c_is_eof (cl s) \<longrightarrow> c_eof_seq_no (cl s) \<noteq> -1) \<and>
     (in_transfer s \<longrightarrow> unat (c_seq_no (cl s)) \<le> length E
        \<and> drop (unat (c_seq_no (cl s))) E = expected (c_fp (cl s))
        \<and> (c_eof_seq_no (cl s) \<noteq> -1 \<longrightarrow> c_fp (cl s) = []))"

definition inv_chan :: "bool \<Rightarrow> bytes \<Rightarrow> sys \<Rightarrow> bool" where
  "inv_chan big E s \<longleftrightarrow>
     (\<forall>j. used s j \<longrightarrow> pkt_ok big E (c_tmp (cl s) ! j)) \<and>
     (\<forall>j. case slot s j of None \<Rightarrow> up s j = [] \<and> down s j = []
                        | Some q \<Rightarrow> chan_ok q (up s j) (down s j))"

definition inv_file :: "bool \<Rightarrow> bytes \<Rightarrow> sys \<Rightarrow> bool" where
  "inv_file big E s \<longleftrightarrow> length (s_fp (srv s)) \<le> length E \<and>
     (\<forall>k < sent_len E s.
        (\<forall>j. active s j \<and> down s j = [] \<longrightarrow> k \<notin> region big (c_tmp (cl s) ! j)) \<longrightarrow>
        k < length (s_fp (srv s)) \<and> s_fp (srv s) ! k = E ! k)"

definition inv :: "bool \<Rightarrow> bytes \<Rightarrow> sys \<Rightarrow> bool" where
  "inv big E s \<longleftrightarrow> inv_pc s \<and> inv_stream E s \<and> inv_chan big E s \<and> inv_file big E s"

lemmas inv_defs = inv_def inv_pc_def inv_stream_def inv_chan_def inv_file_def

lemma inv_init: "inv big (expected F) (init_sys F)"
  by (simp add: inv_defs init_sys_def init_client_def loop_head_def used_def slot_def active_def
      sent_len_def in_transfer_def NUM_CHANNELS_def)

lemma inv_fileI:
  assumes "length (s_fp (srv s)) \<le> length E"
    and "\<And>k. k < sent_len E s \<Longrightarrow>
      (\<And>j. active s j \<Longrightarrow> down s j = [] \<Longrightarrow> k \<notin> region big (c_tmp (cl s) ! j)) \<Longrightarrow>
      k < length (s_fp (srv s)) \<and> s_fp (srv s) ! k = E ! k"
  shows "inv_file big E s"
  using assms by (simp add: inv_file_def)

lemma inv_fileD:
  assumes "inv_file big E s" and "k < sent_len E s"
    and "\<And>j. active s j \<Longrightarrow> down s j = [] \<Longrightarrow> k \<notin> region big (c_tmp (cl s) ! j)"
  shows "k < length (s_fp (srv s)) \<and> s_fp (srv s) ! k = E ! k"
  using assms by (simp add: inv_file_def)

lemma inv_slotD:
  assumes "inv big E s"
  shows "slot s j = None \<Longrightarrow> up s j = [] \<and> down s j = []"
    and "slot s j = Some q \<Longrightarrow> chan_ok q (up s j) (down s j)"
  using assms by (auto simp: inv_def inv_chan_def dest: spec [of _ j])

lemma inv_chanI:
  assumes "\<And>j. used s j \<Longrightarrow> pkt_ok big E (c_tmp (cl s) ! j)"
    and "\<And>j. slot s j = None \<Longrightarrow> up s j = [] \<and> down s j = []"
    and "\<And>j q. slot s j = Some q \<Longrightarrow> chan_ok q (up s j) (down s j)"
  shows "inv_chan big E s"
  using assms by (auto simp: inv_chan_def split: option.split)

subsection \<open>Sending\<close>

lemma strncpy_cstr: "cstr a = cstr b \<Longrightarrow> strncpy a n = strncpy b n"
  by (simp add: strncpy_def)

lemma chunk_data:
  assumes "get_next_chunk fp PACKET_SIZE False = (buf, fp', eof, payload)"
  obtains d where "payload = length d" "take (length d) (strncpy buf PACKET_SIZE) = d"
    "expected fp = d @ expected fp'" "length d \<le> PACKET_SIZE" "fp' = drop PACKET_SIZE fp"
    "eof \<longleftrightarrow> length fp < PACKET_SIZE" "d = [] \<Longrightarrow> length fp < PACKET_SIZE"
proof (cases "PACKET_SIZE \<le> length fp")
  case True
  then show ?thesis
    using assms by (intro that [of "strncpy (take PACKET_SIZE fp) PACKET_SIZE"])
       (auto simp: get_next_chunk_full expected_full strncpy_def Let_def PACKET_SIZE_def)
next
  case False
  have buf: "strncpy buf PACKET_SIZE = strncpy (butlast fp) PACKET_SIZE"
    using False assms by (intro strncpy_cstr) (auto simp: get_next_chunk_short split: if_splits)
  show ?thesis
    using assms False
    by (intro that [of "take (length fp - 1) (strncpy (butlast fp) PACKET_SIZE)"])
       (auto simp: get_next_chunk_short expected_short buf not_le)
qed

lemma of_nat_small_0 [simp]: "n \<le> PACKET_SIZE \<Longrightarrow> (of_nat n :: u64) = 0 \<longleftrightarrow> n = 0"
  by (subst word_unat_eq_iff) (simp add: unat_of_nat take_bit_nat_def PACKET_SIZE_def)

lemma send_chunk_spec:
  assumes "send_chunk big i c = (p, c')" and "\<not> c_is_eof c"
  obtains d where
    "expected (c_fp c) = d @ expected (c_fp c')" "length d \<le> PACKET_SIZE"
    "header p = \<lparr>size = htonll big (of_nat (length d)), seq_no = htonll big (c_seq_no c),
            is_last = 0, type = 0, channel_id = of_nat i\<rparr>"
    "length (data p) = PACKET_SIZE" "take (length d) (data p) = d"
    "c' = c\<lparr>c_fp := drop PACKET_SIZE (c_fp c), c_is_eof := False, c_payload_size := length d,
            c_eof_seq_no := (if length (c_fp c) < PACKET_SIZE then c_seq_no c else c_eof_seq_no c),
            c_tmp := (c_tmp c)[i := p], c_seq_no := c_seq_no c + of_nat (length d),
            c_last_packet := (if d = [] then int i else c_last_packet c)\<rparr>"
    "d = [] \<Longrightarrow> length (c_fp c) < PACKET_SIZE"
proof -
  obtain buf fp' eof payload where
    g: "get_next_chunk (c_fp c) PACKET_SIZE False = (buf, fp', eof, payload)"
    by (metis prod_cases4)
  from chunk_data [OF g] obtain d where
    d: "payload = length d" "take (length d) (strncpy buf PACKET_SIZE) = d"
    "expected (c_fp c) = d @ expected fp'" "length d \<le> PACKET_SIZE" "fp' = drop PACKET_SIZE (c_fp c)"
    "eof \<longleftrightarrow> length (c_fp c) < PACKET_SIZE" "d = [] \<Longrightarrow> length (c_fp c) < PACKET_SIZE"
    by blast
  have "p = \<lparr>header = \<lparr>size = htonll big (of_nat (length d)), seq_no = htonll big (c_seq_no c),
            is_last = 0, type = 0, channel_id = of_nat i\<rparr>, data = strncpy buf PACKET_SIZE\<rparr>"
    "c' = c\<lparr>c_fp := drop PACKET_SIZE (c_fp c), c_is_eof := False, c_payload_size := length d,
            c_eof_seq_no := (if length (c_fp c) < PACKET_SIZE then c_seq_no c else c_eof_seq_no c),
            c_tmp := (c_tmp c)[i := p], c_seq_no := c_seq_no c + of_nat (length d),
            c_last_packet := (if d = [] then int i else c_last_packet c)\<rparr>"
    using assms d(4) by (auto simp: send_chunk_def g d(1,5,6) Let_def)
  then show ?thesis using d by (intro that [of d]) auto
qed

lemma unat_add_small:
  "unat a + n < 2 ^ 64 \<Longrightarrow> unat (a + of_nat n :: u64) = unat a + n"
  by (simp add: unat_word_ariths unat_of_nat take_bit_nat_def)

lemma seq_not_minus_1: "unat (x :: u64) < 2 ^ 64 - 1 \<Longrightarrow> x \<noteq> -1"
proof
  assume "unat x < 2 ^ 64 - 1" and "x = -1"
  moreover have "unat (-1 :: u64) = 2 ^ 64 - 1"
    by (simp add: unsigned_minus_1_eq_mask mask_eq_exp_minus_1)
  ultimately show False by simp
qed

text \<open>What one iteration of the sending loop does: \<open>d\<close> are the bytes the packet carries.\<close>

definition sent_client :: "nat \<Rightarrow> Packet \<Rightarrow> bytes \<Rightarrow> client \<Rightarrow> client" where
  "sent_client i p d c = c\<lparr>c_fp := drop PACKET_SIZE (c_fp c), c_is_eof := False, c_payload_size := length d,
     c_eof_seq_no := (if length (c_fp c) < PACKET_SIZE then c_seq_no c else c_eof_seq_no c),
     c_tmp := (c_tmp c)[i := p], c_seq_no := c_seq_no c + of_nat (length d),
     c_last_packet := (if d = [] then int i else c_last_packet c)\<rparr>"

lemma client_send_step:
  assumes inv: "inv big E s" and E: "length E < 2 ^ 64 - 1" and a: "client_send big s = Some t"
  obtains i p d where "cpc_of s = Send i"
    "t = s\<lparr>cl := sent_client i p d (cl s),
           cpc_of := (if d = [] \<or> \<not> Suc i < NUM_CHANNELS then Wait 0 else Send (Suc i)), up := (up s)(i := up s i @ [p])\<rparr>"
    "pkt_ok big E p" "pkt_len big p = length d" "ntohll big (seq_no (header p)) = c_seq_no (cl s)"
    "expected (c_fp (cl s)) = d @ expected (drop PACKET_SIZE (c_fp (cl s)))"
    "d = [] \<Longrightarrow> length (c_fp (cl s)) < PACKET_SIZE"
    "unat (c_seq_no (cl s)) + length d \<le> length E"
proof -
  from a obtain i p c' where pc: "cpc_of s = Send i" and sc: "send_chunk big i (cl s) = (p, c')"
    and t: "t = s\<lparr>cl := c', cpc_of := after_send big i p, up := (up s)(i := up s i @ [p])\<rparr>"
    by (auto simp: client_send_def split: cpc.splits prod.splits)
  let ?c = "cl s" and ?n = "unat (c_seq_no (cl s))"
  from inv pc have "\<not> c_is_eof ?c" and st: "?n \<le> length E" "drop ?n E = expected (c_fp ?c)"
    by (auto simp: inv_defs in_transfer_def)
  from send_chunk_spec [OF sc this(1)] obtain d where
    d: "expected (c_fp ?c) = d @ expected (c_fp c')" "length d \<le> PACKET_SIZE"
    and h: "header p = \<lparr>size = htonll big (of_nat (length d)), seq_no = htonll big (c_seq_no ?c),
            is_last = 0, type = 0, channel_id = of_nat i\<rparr>"
      "length (data p) = PACKET_SIZE" "take (length d) (data p) = d"
    and c': "c' = sent_client i p d ?c" and dnil: "d = [] \<Longrightarrow> length (c_fp ?c) < PACKET_SIZE"
    unfolding sent_client_def by blast
  have lend: "?n + length d \<le> length E"
    using st d(1) by (metis add_le_cancel_left append_take_drop_id length_append length_take
        min.absorb2 le_add1)
  have len_p: "pkt_len big p = length d" "pkt_off big p = ?n"
    using d(2) h by (auto simp: pkt_len_def pkt_off_def unat_of_nat take_bit_nat_def PACKET_SIZE_def)
  have "pkt_ok big E p" using h d lend st(2) by (auto simp: pkt_ok_def len_p)
  moreover have "after_send big i p = (if d = [] \<or> \<not> Suc i < NUM_CHANNELS then Wait 0 else Send (Suc i))"
    using d(2) by (simp add: after_send_def h)
  ultimately show thesis
    using that [OF pc _ _ len_p(1) _ _ dnil lend] t c' d(1) h(1) by (simp add: sent_client_def)
qed

text \<open>The channels before and after: the packet is put on channel \<open>i\<close>, which was empty.\<close>

lemma send_channels:
  assumes inv: "inv big E s" and pc: "cpc_of s = Send i" and cl: "cl t = sent_client i p d (cl s)"
    and pct: "cpc_of t = (if d = [] \<or> \<not> Suc i < NUM_CHANNELS then Wait 0 else Send (Suc i))"
  shows "active s j \<longleftrightarrow> j < i" and "active t j \<longleftrightarrow> j \<le> i" and "used s j \<longleftrightarrow> j < i" and "used t j \<longleftrightarrow> j \<le> i"
    and "c_tmp (cl t) ! j = (if j = i then p else c_tmp (cl s) ! j)"
    and "slot t j = (if j = i then Some p else slot s j)" and "up s i = []" and "down s i = []"
    and "slot s i = None" and "in_transfer s" and "in_transfer t"
proof -
  have ip: "i < NUM_CHANNELS" "c_last_packet (cl s) = -1" "length (c_tmp (cl s)) = NUM_CHANNELS"
    using inv pc by (auto simp: inv_defs)
  show act: "active s j \<longleftrightarrow> j < i" "active t j \<longleftrightarrow> j \<le> i" for j
    using ip by (auto simp: active_def pc pct cl sent_client_def NUM_CHANNELS_def)
  show "used s j \<longleftrightarrow> j < i" "used t j \<longleftrightarrow> j \<le> i"
    using ip by (auto simp: used_def pc pct cl sent_client_def NUM_CHANNELS_def)
  show tmp: "c_tmp (cl t) ! j = (if j = i then p else c_tmp (cl s) ! j)" for j
    using ip by (simp add: cl sent_client_def nth_list_update)
  show "slot t j = (if j = i then Some p else slot s j)" by (auto simp: slot_def pct act pc tmp)
  show none: "slot s i = None" by (simp add: slot_def pc act)
  show "up s i = []" "down s i = []"
    using inv_slotD(1) [OF inv none] by simp_all
  show "in_transfer s" "in_transfer t" by (auto simp: in_transfer_def pc pct)
qed

lemma act_send_inv:
  assumes inv: "inv big E s" and E: "length E < 2 ^ 64 - 1"
    and a: "client_send big s = Some t"
  shows "inv big E t"
proof -
  let ?c = "cl s" and ?n = "unat (c_seq_no (cl s))"
  obtain i p d where pc: "cpc_of s = Send i"
    and t: "t = s\<lparr>cl := sent_client i p d ?c,
           cpc_of := (if d = [] \<or> \<not> Suc i < NUM_CHANNELS then Wait 0 else Send (Suc i)), up := (up s)(i := up s i @ [p])\<rparr>"
    and ok: "pkt_ok big E p" and len_p: "pkt_len big p = length d" and seq: "ntohll big (seq_no (header p)) = c_seq_no ?c"
    and d: "expected (c_fp ?c) = d @ expected (drop PACKET_SIZE (c_fp ?c))" "d = [] \<Longrightarrow> length (c_fp ?c) < PACKET_SIZE"
      "?n + length d \<le> length E"
    using client_send_step [OF assms] by blast
  have flds: "cl t = sent_client i p d ?c" "srv t = srv s" "down t = down s" "up t = (up s)(i := up s i @ [p])"
    and pct: "cpc_of t = (if d = [] \<or> \<not> Suc i < NUM_CHANNELS then Wait 0 else Send (Suc i))"
    by (simp_all add: t)
  note ch = send_channels [OF inv pc flds(1) pct]
  from inv pc have ip: "i < NUM_CHANNELS" "c_last_packet ?c = -1" "length (c_tmp ?c) = NUM_CHANNELS"
    and st: "drop ?n E = expected (c_fp ?c)" "c_eof_seq_no ?c \<noteq> -1 \<longrightarrow> c_fp ?c = []"
    by (auto simp: inv_defs in_transfer_def)
  have n': "unat (c_seq_no (cl t)) = ?n + length d"
    using d(3) E by (simp add: flds(1) sent_client_def unat_add_small)
  have "c_seq_no ?c \<noteq> -1" using d(3) E by (intro seq_not_minus_1) simp
  then have "inv_pc t"
    using ip d(2) by (auto simp: inv_pc_def pct flds sent_client_def NUM_CHANNELS_def)
  moreover have "drop (?n + length d) E = expected (drop PACKET_SIZE (c_fp ?c))"
    using st(1) d(1) by (metis add.commute append_eq_conv_conj drop_drop)
  then have "inv_stream E t"
    using d(3) st(2) n' by (auto simp: inv_stream_def ch) (auto simp: flds sent_client_def split: if_splits)
  moreover have "inv_chan big E t"
    using inv_slotD [OF inv] inv ok ch(7,8)
    by (intro inv_chanI) (auto simp: ch(4-6) flds(3,4) chan_ok_def inv_def inv_chan_def ch(3) split: if_splits)
  moreover have "inv_file big E t"
  proof (rule inv_fileI)
    fix k assume k: "k < sent_len E t"
      and H: "\<And>j. active t j \<Longrightarrow> down t j = [] \<Longrightarrow> k \<notin> region big (c_tmp (cl t) ! j)"
    have "k \<notin> region big p" using H [of i] ch(8) by (simp add: ch flds(3))
    then have "k < sent_len E s"
      using k n' seq len_p by (auto simp: sent_len_def ch region_def pkt_off_def)
    moreover have "k \<notin> region big (c_tmp ?c ! j)" if "active s j" "down s j = []" for j
      using H [of j] that by (simp add: ch flds(3) split: if_splits)
    ultimately show "k < length (s_fp (srv t)) \<and> s_fp (srv t) ! k = E ! k"
      unfolding flds using inv_fileD [of big E s k] inv by (simp add: inv_def)
  qed (use inv in \<open>simp add: inv_def inv_file_def flds(2)\<close>)
  ultimately show ?thesis by (simp add: inv_def)
qed

subsection \<open>Waiting\<close>

lemma up_only_simps [simp]:
  "active (s\<lparr>up := u\<rparr>) = active s" "used (s\<lparr>up := u\<rparr>) = used s"
  "slot (s\<lparr>up := u\<rparr>) = slot s" "sent_len E (s\<lparr>up := u\<rparr>) = sent_len E s"
  "inv_pc (s\<lparr>up := u\<rparr>) = inv_pc s" "inv_stream E (s\<lparr>up := u\<rparr>) = inv_stream E s"
  "inv_file big E (s\<lparr>up := u\<rparr>) = inv_file big E s"
  by (simp_all add: fun_eq_iff active_def used_def slot_def sent_len_def in_transfer_def
      inv_pc_def inv_stream_def inv_file_def split: cpc.split)

lemma act_timeout_inv:
  assumes inv: "inv big E s" and a: "client_timeout True s = Some t"
  shows "inv big E t"
proof -
  have *: "inv big E (s\<lparr>up := (up s)(i := [q])\<rparr>)"
    if sl: "slot s i = Some q" and "up s i = []" "down s i = []" for i q
  proof -
    have "inv_chan big E (s\<lparr>up := (up s)(i := [q])\<rparr>)"
      using inv inv_slotD [OF inv] that
      by (intro inv_chanI) (auto simp: inv_def inv_chan_def chan_ok_def split: if_splits)
    then show ?thesis using inv by (simp add: inv_def)
  qed
  show ?thesis
  proof (cases "cpc_of s")
    case (Wait i)
    then have "slot s i = Some (c_tmp (cl s) ! i)"
      using inv by (auto simp: inv_defs slot_def active_def)
    then show ?thesis
      using a Wait by (auto simp: client_timeout_def poll_times_out_def split: if_splits intro!: *)
  next
    case (FinWait q)
    then have "slot s 0 = Some q" by (simp add: slot_def)
    then show ?thesis
      using a FinWait by (auto simp: client_timeout_def poll_times_out_def split: if_splits intro!: *)
  qed (use a in \<open>simp_all add: client_timeout_def\<close>)
qed

lemma act_fin_recv_inv:
  assumes inv: "inv big E s" and pc: "cpc_of s = FinWait q" and a: "client_recv big s = Some t"
  shows "inv big E t"
proof -
  from a pc obtain p ps where d: "down s 0 = p # ps"
    and t: "t = s\<lparr>cl := recv_ack big p (cl s), cpc_of := loop_head (recv_ack big p (cl s)),
                   down := (down s)(0 := ps)\<rparr>"
    by (auto simp: client_recv_def split: list.splits)
  have sl: "slot s j = (if j = 0 then Some q else None)" for j
    by (simp add: slot_def pc)
  have ch: "ps = []" "up s 0 = []"
    using inv_slotD(2) [OF inv, of 0 q] d by (auto simp: sl chan_ok_def)
  have eof: "c_is_eof (recv_ack big p (cl s))"
    using inv pc by (auto simp: inv_defs recv_ack_def)
  have cpt: "cpc_of t = Finished" by (simp add: t loop_head_def eof)
  have flds: "cl t = recv_ack big p (cl s)" "srv t = srv s" "up t = up s" "down t = (down s)(0 := ps)"
    by (simp_all add: t)
  have no: "\<not> active s j" "\<not> active t j" "\<not> used t j" "slot t j = None" for j
    by (auto simp: active_def used_def slot_def pc cpt)
  have tr: "\<not> in_transfer s" "\<not> in_transfer t" by (auto simp: in_transfer_def pc cpt)
  have "inv_pc t" using inv eof by (auto simp: inv_def inv_pc_def cpt flds recv_ack_def)
  moreover have "inv_stream E t"
    using inv pc tr by (auto simp: inv_defs flds recv_ack_def)
  moreover have "inv_chan big E t"
    using inv_slotD(1) [OF inv] ch by (intro inv_chanI) (auto simp: no flds sl)
  moreover have "inv_file big E t"
    using inv no tr by (auto simp: inv_def inv_file_def sent_len_def flds)
  ultimately show ?thesis by (simp add: inv_def)
qed

text \<open>The last channel that was used in the round whose acknowledgements are awaited.\<close>

definition last_used :: "client \<Rightarrow> nat" where
  "last_used c = (if c_last_packet c = -1 then NUM_CHANNELS - 1 else nat (c_last_packet c))"

lemma recv_ack_simps [simp]:
  "c_fp (recv_ack big p c) = c_fp c" "c_seq_no (recv_ack big p c) = c_seq_no c"
  "c_eof_seq_no (recv_ack big p c) = c_eof_seq_no c" "c_tmp (recv_ack big p c) = c_tmp c"
  "c_last_packet (recv_ack big p c) = c_last_packet c"
  by (simp_all add: recv_ack_def)

text \<open>A client that reads in its receive loop finds the acknowledgement of its packet.\<close>

lemma wait_channel:
  assumes inv: "inv big E s" and E: "length E < 2 ^ 64 - 1" and pc: "cpc_of s = Wait i"
    and a: "client_recv big s = Some t"
  defines "q \<equiv> c_tmp (cl s) ! i"
  shows "i < NUM_CHANNELS" and "active s i" and "slot s i = Some q" and "up s i = []" and "down s i = [ack_of q]"
    and "pkt_ok big E q" and "ntohll big (seq_no (header q)) \<noteq> -1" and "i \<le> last_used (cl s)"
    and "last_used (cl s) < NUM_CHANNELS"
proof -
  from a pc obtain p ps where d: "down s i = p # ps" by (auto simp: client_recv_def split: list.splits)
  have ipc: "i < NUM_CHANNELS" "c_last_packet (cl s) = -1 \<or> int i \<le> c_last_packet (cl s) \<and> c_last_packet (cl s) < int NUM_CHANNELS"
    using inv pc by (auto simp: inv_defs)
  then have use: "used s i" by (auto simp: used_def pc)
  show act: "active s i" using ipc by (auto simp: active_def pc)
  show sl: "slot s i = Some q" using act by (simp add: slot_def pc q_def)
  show "up s i = []" "down s i = [ack_of q]" using inv_slotD(2) [OF inv sl] d by (auto simp: chan_ok_def)
  show ok: "pkt_ok big E q" using inv use by (simp add: inv_def inv_chan_def q_def)
  show "ntohll big (seq_no (header q)) \<noteq> -1"
    using ok E by (intro seq_not_minus_1) (simp add: pkt_ok_def pkt_off_def)
  show "i < NUM_CHANNELS" "i \<le> last_used (cl s)" "last_used (cl s) < NUM_CHANNELS"
    using ipc by (auto simp: last_used_def)
qed

text \<open>
  It goes on with the next channel, or, on the last one that was used, sends its final packet
  or starts over. Then no channel carries anything.
\<close>

lemma wait_recv_cases:
  assumes inv: "inv big E s" and E: "length E < 2 ^ 64 - 1" and pc: "cpc_of s = Wait i"
    and a: "client_recv big s = Some t"
  defines "c' \<equiv> recv_ack big (ack_of (c_tmp (cl s) ! i)) (cl s)"
  obtains (next_channel) "i < last_used (cl s)"
      "t = s\<lparr>cl := c', cpc_of := Wait (Suc i), down := (down s)(i := [])\<rparr>"
  | (last_channel) "i = last_used (cl s)" "\<And>j. active s j \<longleftrightarrow> j = i" "up s = (\<lambda>_. [])" "down s = (\<lambda>_. [])(i := down s i)"
      "c_is_eof c'" "t = s\<lparr>cl := c'\<lparr>c_seq_no := c_seq_no c' + ntohll big (size (header (fin_packet big c')))\<rparr>,
         cpc_of := FinWait (fin_packet big c'), down := (\<lambda>_. []), up := (\<lambda>_. [])(0 := [fin_packet big c'])\<rparr>"
  | (next_round) "i = last_used (cl s)" "\<And>j. active s j \<longleftrightarrow> j = i" "up s = (\<lambda>_. [])" "down s = (\<lambda>_. [])(i := down s i)"
      "\<not> c_is_eof c'" "t = s\<lparr>cl := c', cpc_of := loop_head c', down := (\<lambda>_. [])\<rparr>"
proof (cases "i < last_used (cl s)")
  note ch = wait_channel [OF inv E pc a]
  have step: "t = (case after_wait big i c' of
        FinWait q \<Rightarrow> s\<lparr>cl := c'\<lparr>c_seq_no := c_seq_no c' + ntohll big (size (header q))\<rparr>,
            cpc_of := after_wait big i c', down := (down s)(i := []), up := (up s)(0 := up s 0 @ [q])\<rparr>
      | _ \<Rightarrow> s\<lparr>cl := c', cpc_of := after_wait big i c', down := (down s)(i := [])\<rparr>)"
    using a by (auto simp: client_recv_def pc ch(5) c'_def Let_def split: cpc.splits)
  {
    case True
    then have "after_wait big i c' = Wait (Suc i)"
      using ch(9) by (auto simp: after_wait_def c'_def last_used_def split: if_splits)
    then show thesis using True step next_channel by simp
  next
    case False
    then have i: "i = last_used (cl s)" using ch(8) by simp
    then have act: "active s j \<longleftrightarrow> j = i" for j
      using ch(2) by (auto simp: active_def pc last_used_def split: if_splits)
    have e: "up s j = []" "j \<noteq> i \<Longrightarrow> down s j = []" for j
      using inv_slotD(1) [OF inv, of j] ch(4) act [of j] by (auto simp: slot_def pc)
    have aw: "after_wait big i c' = (if c_is_eof c' then FinWait (fin_packet big c') else loop_head c')"
      using i ch(1) by (auto simp: after_wait_def c'_def last_used_def split: if_splits)
    have down: "down s = (\<lambda>_. [])(i := down s i)" "(down s)(i := []) = (\<lambda>_. [])" "up s = (\<lambda>_. [])" using e by auto
    show thesis
    proof (cases "c_is_eof c'")
      case True
      then show ?thesis using last_channel [OF i act down(3,1)] step aw down by simp
    next
      case False
      then show ?thesis using next_round [OF i act down(3,1)] step aw down by (simp add: loop_head_def)
    qed
  }
qed

lemma act_wait_recv_inv:
  assumes inv: "inv big E s" and E: "length E < 2 ^ 64 - 1"
    and pc: "cpc_of s = Wait i" and a: "client_recv big s = Some t"
  shows "inv big E t"
proof -
  let ?c = "cl s" and ?n = "unat (c_seq_no (cl s))"
  let ?c' = "recv_ack big (ack_of (c_tmp (cl s) ! i)) (cl s)"
  note ch = wait_channel [OF assms]
  have ok: "pkt_ok big E (c_tmp ?c ! j)" if "used s j" for j using inv that by (simp add: inv_def inv_chan_def)
  have ipc: "c_last_packet ?c = -1 \<or> int i \<le> c_last_packet ?c \<and> c_last_packet ?c < int NUM_CHANNELS \<and> c_eof_seq_no ?c \<noteq> -1"
      "length (c_tmp ?c) = NUM_CHANNELS"
    and st: "?n \<le> length E" "drop ?n E = expected (c_fp ?c)" "c_eof_seq_no ?c \<noteq> -1 \<longrightarrow> c_fp ?c = []"
    using inv pc by (auto simp: inv_defs in_transfer_def)
  have eof: "c_is_eof ?c' \<longrightarrow> c_eof_seq_no ?c \<noteq> -1"
    using inv ch(7) by (auto simp: inv_defs recv_ack_def)
  have flen: "length (s_fp (srv s)) \<le> length E" using inv by (simp add: inv_def inv_file_def)
  have filed: "k < length (s_fp (srv s)) \<and> s_fp (srv s) ! k = E ! k"
    if "k < ?n" "\<And>j. active s j \<Longrightarrow> j \<noteq> i \<Longrightarrow> down s j = [] \<Longrightarrow> k \<notin> region big (c_tmp ?c ! j)" for k
  proof (rule inv_fileD)
    show "inv_file big E s" using inv by (simp add: inv_def)
    show "k < sent_len E s" using that(1) by (simp add: sent_len_def in_transfer_def pc)
    show "k \<notin> region big (c_tmp ?c ! j)" if "active s j" "down s j = []" for j
      using that \<open>\<And>j. active s j \<Longrightarrow> j \<noteq> i \<Longrightarrow> down s j = [] \<Longrightarrow> k \<notin> region big (c_tmp ?c ! j)\<close> ch(5) by fastforce
  qed
  from assms show ?thesis
  proof (cases rule: wait_recv_cases)
    case next_channel
    have flds: "cl t = ?c'" "srv t = srv s" "up t = up s" "down t = (down s)(i := [])" "cpc_of t = Wait (Suc i)"
      by (simp_all add: next_channel)
    have act_t: "active t j \<longleftrightarrow> active s j \<and> j \<noteq> i" and use_t: "used t j = used s j" for j
      by (auto simp: active_def used_def pc flds)
    have sl_t: "slot t j = (if j = i then None else slot s j)" for j by (simp add: slot_def flds act_t pc)
    have "inv_pc t" using next_channel(1) ch(9) ipc by (auto simp: inv_pc_def flds last_used_def split: if_splits)
    moreover have "inv_stream E t" using st eof by (auto simp: inv_stream_def flds)
    moreover have "inv_chan big E t"
      using ok inv_slotD [OF inv] ch(4)
      by (intro inv_chanI) (auto simp: sl_t use_t flds(1-4) split: if_splits)
    moreover have "inv_file big E t"
      using flen filed
      by (intro inv_fileI) (auto simp: act_t flds sent_len_def in_transfer_def)
    ultimately show ?thesis by (simp add: inv_def)
  next
    case last_channel
    have "c_fp ?c = []" using eof st(3) last_channel(5) by blast
    then have "?n = length E" using st(1,2) by simp
    moreover have "inv_pc t" using ipc last_channel(5) by (simp add: inv_pc_def fin_packet_def last_channel(6))
    moreover have "inv_stream E t" using eof last_channel(5) by (simp add: inv_stream_def last_channel(6) in_transfer_def)
    moreover have "inv_chan big E t"
      by (intro inv_chanI) (auto simp: used_def slot_def last_channel(6) chan_ok_def split: if_splits)
    ultimately show ?thesis
      using filed flen by (auto simp: inv_def last_channel(2,6) sent_len_def in_transfer_def intro!: inv_fileI)
  next
    case next_round
    have flds: "cl t = ?c'" "srv t = srv s" "up t = (\<lambda>_. [])" "down t = (\<lambda>_. [])"
        "cpc_of t = (if c_eof_seq_no ?c = -1 then Send 0 else Wait 0)"
      using next_round(3,5) by (auto simp: next_round(6) loop_head_def)
    have use_t: "used t j \<Longrightarrow> used s j" for j by (auto simp: used_def flds pc split: if_splits)
    have tr: "in_transfer t" by (simp add: in_transfer_def flds)
    have "inv_pc t" using ipc ch(1) next_round(5) by (auto simp: inv_pc_def flds)
    moreover have "inv_stream E t" using st eof next_round(5) by (auto simp: inv_stream_def flds)
    moreover have "inv_chan big E t"
      using ok use_t by (intro inv_chanI) (auto simp: flds(1-4) chan_ok_def)
    moreover have "inv_file big E t"
      using filed flen by (intro inv_fileI) (auto simp: next_round(2) flds(1,2) sent_len_def tr)
    ultimately show ?thesis by (simp add: inv_def)
  qed
qed

subsection \<open>Serving\<close>

lemma serve_connection_drop: "serve_connection big True p sv = (None, sv, 0)"
  by (simp add: serve_connection_def)

lemma serve_connection_ack:
  "serve_connection big False p sv =
     (Some (ack_of p),
      sv\<lparr>s_fp := (if is_last (header p) \<noteq> 1
                  then fwrite_at (pkt_off big p) (take (pkt_len big p) (data p)) (s_fp sv) else s_fp sv),
        s_last_seq_no := max (s_last_seq_no sv) (ntohll big (seq_no (header p)))\<rparr>,
      is_last (header p))"
  by (auto simp: serve_connection_def ack_of_def pkt_off_def pkt_len_def Let_def max_def)

lemma pkt_write:
  assumes ok: "pkt_ok big E p" and len: "length f \<le> length E"
  defines "f' \<equiv> fwrite_at (pkt_off big p) (take (pkt_len big p) (data p)) f"
  shows "length f' \<le> length E"
    and "k \<in> region big p \<Longrightarrow> k < length f' \<and> f' ! k = E ! k"
    and "k \<notin> region big p \<Longrightarrow> k < length f \<Longrightarrow> k < length f' \<and> f' ! k = f ! k"
proof -
  let ?o = "pkt_off big p" and ?n = "pkt_len big p"
  have ld: "length (take ?n (data p)) = ?n" and oE: "?o + ?n \<le> length E"
    and dE: "take ?n (data p) = take ?n (drop ?o E)"
    using ok by (auto simp: pkt_ok_def)
  show "length f' \<le> length E"
    using len oE ld by (auto simp: f'_def length_fwrite_at)
  show "k < length f' \<and> f' ! k = E ! k" if "k \<in> region big p"
  proof -
    have k: "?o \<le> k" "k < ?o + ?n" using that by (auto simp: region_def)
    then have "0 < ?n" by simp
    with ld have "take ?n (data p) \<noteq> []" by (metis length_greater_0_conv)
    then have "k < length f'" using k ld by (simp add: f'_def length_fwrite_at)
    moreover have "f' ! k = take ?n (drop ?o E) ! (k - ?o)"
      using k ld by (simp add: f'_def nth_fwrite_at_in dE [symmetric])
    ultimately show ?thesis using k oE by simp
  qed
  show "k < length f' \<and> f' ! k = f ! k" if "k \<notin> region big p" "k < length f"
    using that ld by (auto simp: f'_def length_fwrite_at region_def not_less intro!: nth_fwrite_at_out)
qed

text \<open>The server takes the packet of a channel and puts its acknowledgement there, or drops it.\<close>

definition served :: "bool \<Rightarrow> bool \<Rightarrow> Packet \<Rightarrow> server \<Rightarrow> server" where
  "served big res p sv = fst (snd (serve_connection big res p sv))"

lemma served_file:
  "s_fp (served big res p sv) = (if res \<or> is_last (header p) = 1 then s_fp sv
     else fwrite_at (pkt_off big p) (take (pkt_len big p) (data p)) (s_fp sv))"
  by (cases res) (simp_all add: served_def serve_connection_drop serve_connection_ack)

lemma server_serve_step:
  assumes inv: "inv big E s" and a: "server_serve big res s = Some t"
  obtains i js p where "spc_of s = Serve (i # js)" "slot s i = Some p" "up s i = [p]" "down s i = []"
    "t = s\<lparr>up := (up s)(i := []), down := (if res then down s else (down s)(i := [ack_of p])),
           srv := served big res p (srv s), s_is_last := (\<not> res \<and> is_last (header p) = 1 \<or> s_is_last s), spc_of := Serve js\<rparr>"
proof -
  from a obtain i js p ps where sp: "spc_of s = Serve (i # js)" and u: "up s i = p # ps"
    by (auto simp: server_serve_def split: spc.splits list.splits)
  have sl: "slot s i = Some p" "ps = []" "down s i = []"
    using inv_slotD [OF inv, of i] u by (cases "slot s i"; auto simp: chan_ok_def)+
  have "t = s\<lparr>up := (up s)(i := []), down := (if res then down s else (down s)(i := [ack_of p])),
           srv := served big res p (srv s), s_is_last := (\<not> res \<and> is_last (header p) = 1 \<or> s_is_last s), spc_of := Serve js\<rparr>"
    using a sl by (cases res) (auto simp: server_serve_def sp u served_def serve_connection_drop serve_connection_ack
        Let_def fun_upd_idem)
  then show thesis using that sp sl u by simp
qed

lemma act_serve_inv:
  assumes inv: "inv big E s" and a: "server_serve big res s = Some t"
  shows "inv big E t"
proof -
  obtain i js p where sl: "slot s i = Some p" and dn: "down s i = []"
    and t: "t = s\<lparr>up := (up s)(i := []), down := (if res then down s else (down s)(i := [ack_of p])),
           srv := served big res p (srv s), s_is_last := (\<not> res \<and> is_last (header p) = 1 \<or> s_is_last s), spc_of := Serve js\<rparr>"
    using server_serve_step [OF assms] by blast
  have flds: "cl t = cl s" "cpc_of t = cpc_of s" "up t = (up s)(i := [])"
      "down t = (if res then down s else (down s)(i := [ack_of p]))"
      "s_fp (srv t) = (if res \<or> is_last (header p) = 1 then s_fp (srv s)
         else fwrite_at (pkt_off big p) (take (pkt_len big p) (data p)) (s_fp (srv s)))"
    by (simp_all add: t served_file)
  have same: "active t = active s" "used t = used s" "slot t = slot s" "sent_len E t = sent_len E s"
    "inv_pc t = inv_pc s" "inv_stream E t = inv_stream E s"
    by (simp_all add: fun_eq_iff active_def used_def slot_def sent_len_def in_transfer_def
      inv_pc_def inv_stream_def flds split: cpc.split)
  have chan: "inv_chan big E t"
    using inv_slotD [OF inv] sl dn inv
    by (intro inv_chanI) (auto simp: same flds(1,3,4) chan_ok_def inv_def inv_chan_def split: if_splits)
  have "inv_file big E t"
  proof (cases "res \<or> is_last (header p) = 1")
    case True
    have "\<not> active s i" if "\<not> res"
    proof
      assume "active s i"
      then have "used s i" "p = c_tmp (cl s) ! i"
        using sl by (auto simp: slot_def active_def used_def split: cpc.splits)
      then have "pkt_ok big E p" using inv by (simp add: inv_def inv_chan_def)
      then show False using True that by (simp add: pkt_ok_def)
    qed
    then have "active t j \<and> down t j = [] \<longleftrightarrow> active s j \<and> down s j = []" for j
      by (auto simp: same flds(4))
    then show ?thesis
      using inv True by (simp add: inv_def inv_file_def same flds(1,5) del: imp_conjL)
  next
    case False
    have act: "active s i" "used s i" and p: "p = c_tmp (cl s) ! i"
      using sl inv False
      by (auto simp: slot_def active_def used_def inv_def inv_pc_def split: cpc.splits if_splits)
    have ok: "pkt_ok big E p" using inv act p by (simp add: inv_def inv_chan_def)
    have len: "length (s_fp (srv s)) \<le> length E" using inv by (simp add: inv_def inv_file_def)
    have fp: "s_fp (srv t) = fwrite_at (pkt_off big p) (take (pkt_len big p) (data p)) (s_fp (srv s))"
      using False by (simp add: flds(5))
    note pw = pkt_write [OF ok len, folded fp]
    show ?thesis
    proof (rule inv_fileI)
      fix k assume k: "k < sent_len E t"
        and H: "\<And>j. active t j \<Longrightarrow> down t j = [] \<Longrightarrow> k \<notin> region big (c_tmp (cl t) ! j)"
      have "k \<notin> region big (c_tmp (cl s) ! j)" if "k \<notin> region big p" "active s j" "down s j = []" for j
        using H [of j] that by (cases "j = i") (simp_all add: same flds(1,4) p)
      then have old: "k < length (s_fp (srv s)) \<and> s_fp (srv s) ! k = E ! k" if "k \<notin> region big p"
        using inv k that by (intro inv_fileD [of big]) (simp_all add: inv_def same)
      show "k < length (s_fp (srv t)) \<and> s_fp (srv t) ! k = E ! k"
        using pw(2,3) [of k] old by (cases "k \<in> region big p") auto
    qed (rule pw(1))
  qed
  with chan show ?thesis using inv by (simp add: inv_def same)
qed

subsection \<open>All steps\<close>

lemma act_select_inv:
  assumes "inv big E s" and "server_select s = Some t \<or> server_loop s = Some t"
  shows "inv big E t"
proof -
  have "inv big E (s\<lparr>spc_of := x\<rparr>) = inv big E s" for x
    by (simp add: inv_defs in_transfer_def used_def active_def slot_def sent_len_def split: cpc.split)
  then show ?thesis
    using assms by (auto simp: server_select_def server_loop_def Let_def split: spc.splits list.splits if_splits)
qed

lemma act_inv:
  assumes "inv big E s" and "length E < 2 ^ 64 - 1" and "act big True a s = Some t"
  shows "inv big E t"
proof (cases a)
  case CRecv
  then have r: "client_recv big s = Some t" using assms(3) by simp
  then obtain i q where "cpc_of s = Wait i \<or> cpc_of s = FinWait q"
    by (auto simp: client_recv_def split: cpc.splits)
  then show ?thesis
    using assms(1,2) r by (blast intro: act_wait_recv_inv act_fin_recv_inv)
qed (use assms in \<open>auto intro: act_send_inv act_timeout_inv act_serve_inv act_select_inv\<close>)

lemma reachable_inv:
  assumes "reachable big True F s" and "length F < 2 ^ 64 - 1"
  shows "inv big (expected F) s"
  using assms
proof (induction rule: reachable.induct)
  case start
  show ?case by (rule inv_init)
next
  case (step s a t)
  moreover have "length (expected F) < 2 ^ 64 - 1"
    using step.prems length_expected [of F] by simp
  ultimately show ?case using act_inv by blast
qed

lemma inv_done_file:
  assumes "inv big E s" and "\<not> in_transfer s"
  shows "s_fp (srv s) = E"
proof (rule nth_equalityI)
  have "k < length (s_fp (srv s)) \<and> s_fp (srv s) ! k = E ! k" if "k < length E" for k
    using inv_fileD [of big E s k] assms that
    by (auto simp: inv_def sent_len_def in_transfer_def active_def split: cpc.splits)
  moreover have "length (s_fp (srv s)) \<le> length E"
    using assms(1) by (simp add: inv_def inv_file_def)
  ultimately show "length (s_fp (srv s)) = length E"
    and "\<And>k. k < length (s_fp (srv s)) \<Longrightarrow> s_fp (srv s) ! k = E ! k"
    by (meson le_antisym less_irrefl not_less, meson less_le_trans)
qed


section \<open>Properties of the transfer\<close>

lemma run_reachable:
  "reachable big patient F s \<Longrightarrow> run big patient as s = Some t \<Longrightarrow> reachable big patient F t"
  by (induction as arbitrary: s) (auto split: option.splits intro: reachable.step)

text \<open>The facts that evaluate a concrete run, for either byte order.\<close>

lemmas run_eval = client_send_def client_timeout_def client_recv_def server_select_def
  server_serve_def server_loop_def send_chunk_def get_next_chunk_def fread_def Let_def
  recv_ack_def fin_packet_def loop_head_def after_send_def after_wait_def serve_connection_ack
  serve_connection_drop poll_times_out_def init_sys_def init_client_def strncpy_def
  PACKET_SIZE_def NUM_CHANNELS_def pkt_len_def pkt_off_def ack_of_def fwrite_at_def
  zero_packet_def upt_rec

text \<open>A run in which the first packet is dropped once and retransmitted.\<close>

definition lossy_run :: "action list" where
  "lossy_run = [CSend, CSend, CSend, SSelect, SServe True, SServe False, SServe False, SLoop,
     CTimeout, SSelect, SServe False, SLoop, CRecv, CRecv, CRecv,
     SSelect, SServe False, SLoop, CRecv]"

lemma lossy_run_end:
  "\<exists>s. run big True lossy_run (init_sys ''abcdefg'') = Some s \<and> cpc_of s = Finished
     \<and> up s = (\<lambda>_. []) \<and> s_fp (srv s) = ''abcdef''"
  by (simp add: run_eval lossy_run_def fun_eq_iff)

text \<open>
  C1. End-to-end correctness of the stop-and-wait transfer. Whatever the server drops and
  however the steps of client and server interleave, as long as timeouts are patient: when
  the client leaves its loop, the server's file holds exactly the bytes the chunks of the
  input carry, in order. For an input without NUL characters that is the input itself when
  its length is a multiple of the packet size, and the input without its last byte
  otherwise.
\<close>

theorem transfer_delivers_file:
  assumes "reachable big True F s" and "length F < 2 ^ 64 - 1" and "cpc_of s = Finished"
  shows "s_fp (srv s) = expected F
    \<and> (nul_free F \<longrightarrow> s_fp (srv s) = (if PACKET_SIZE dvd length F then F else butlast F))"
proof -
  have "s_fp (srv s) = expected F"
    using assms by (intro inv_done_file [OF reachable_inv]) (auto simp: in_transfer_def)
  then show ?thesis by (simp add: expected_nul_free)
qed

theorem transfer_delivers_file_witness:
  "\<exists>s. run False True lossy_run (init_sys ''abcdefg'') = Some s \<and> cpc_of s = Finished
     \<and> s_fp (srv s) = butlast ''abcdefg''"
proof -
  obtain s where s: "run False True lossy_run (init_sys ''abcdefg'') = Some s" "cpc_of s = Finished"
    using lossy_run_end by blast
  have "reachable False True ''abcdefg'' s"
    using s(1) by (rule run_reachable [OF reachable.start])
  moreover have "\<not> PACKET_SIZE dvd length ''abcdefg''" by (simp add: PACKET_SIZE_def) presburger
  moreover have "length ''abcdefg'' < 2 ^ 64 - 1" and "nul_free ''abcdefg''" by simp_all
  ultimately show ?thesis using transfer_delivers_file [of False "''abcdefg''" s] s by metis
qed

text \<open>
  C4. The stop-and-wait discipline. In patient runs each channel carries at most one packet
  at any moment, in one direction or the other; and a data packet on its way to the server
  never announces more bytes than its data field has, so the \<open>fwrite\<close> of
  \<open>serve_connection\<close> never reads beyond the packet.
\<close>

theorem one_packet_per_channel:
  assumes "reachable big True F s" and "length F < 2 ^ 64 - 1"
  shows "length (up s j) + length (down s j) \<le> 1 \<and>
    (\<forall>p \<in> set (up s j). is_last (header p) \<noteq> 1 \<longrightarrow>
       unat (ntohll big (size (header p))) \<le> length (data p))"
proof -
  have inv: "inv big (expected F) s" using assms by (rule reachable_inv)
  show ?thesis
  proof (cases "slot s j")
    case None
    then show ?thesis using inv_slotD(1) [OF inv] by simp
  next
    case (Some q)
    have "is_last (header q) = 1 \<or> pkt_ok big (expected F) q"
      using Some inv by (auto simp: slot_def inv_defs active_def used_def split: cpc.splits if_splits)
    then show ?thesis
      using inv_slotD(2) [OF inv Some] by (auto simp: chan_ok_def pkt_ok_def pkt_len_def)
  qed
qed

theorem one_packet_per_channel_witness:
  "\<exists>s. run True True [CSend] (init_sys ''abcdefg'') = Some s \<and> length (up s 0) = 1
     \<and> length (up s 0) + length (down s 0) \<le> 1"
proof -
  obtain s where s: "run True True [CSend] (init_sys ''abcdefg'') = Some s" "length (up s 0) = 1"
    by (auto simp: run_eval)
  have "reachable True True ''abcdefg'' s"
    using s(1) by (rule run_reachable [OF reachable.start])
  from one_packet_per_channel [OF this, of 0] s show ?thesis by simp
qed

text \<open>
  A retransmitted packet is harmless: serving the same packet again gives the same
  acknowledgement and leaves the output file and the highest sequence number as they are.
  A dropped packet changes nothing and is not answered.
\<close>

theorem serve_connection_idempotent:
  "serve_connection big True p s = (None, s, 0) \<and>
   (case serve_connection big False p s of (ack, s', l) \<Rightarrow>
      serve_connection big False p s' = (ack, s', l)
      \<and> l = is_last (header p)
      \<and> (\<exists>a. ack = Some a \<and> type (header a) = 1 \<and> seq_no (header a) = seq_no (header p)))"
  by (simp add: serve_connection_drop serve_connection_ack)

text \<open>The run of the next theorem: the first poll times out although the packet is under way.\<close>

definition impatient_run :: "action list" where
  "impatient_run = [CSend, CSend, CSend, CTimeout, SSelect, SServe False, SServe False, SServe False, SLoop,
     SSelect, SServe False, SLoop, CRecv, CRecv, CRecv,
     CSend, CSend, SSelect, SServe True, SServe False, SLoop, CRecv, CRecv,
     SSelect, SServe False, SLoop, CRecv]"

text \<open>
  C27. Without the patience assumption the protocol loses data, because the client takes any
  packet it reads for the acknowledgement of the outstanding one and never compares
  sequence numbers. After one premature timeout the duplicate acknowledgement of the first
  round is taken for that of the fourth chunk, which the server dropped: the client
  finishes, the server has stopped, and the last five bytes are missing.
\<close>

theorem premature_timeout_loses_data:
  "\<exists>s. run big False impatient_run (init_sys ''abcdefghijklmnopqrst'') = Some s
     \<and> cpc_of s = Finished \<and> spc_of s = Closed
     \<and> s_fp (srv s) = ''abcdefghijklmno''
     \<and> expected ''abcdefghijklmnopqrst'' = ''abcdefghijklmnopqrst''"
proof -
  have "PACKET_SIZE dvd length ''abcdefghijklmnopqrst''"
    by (simp add: PACKET_SIZE_def) presburger
  then have "expected ''abcdefghijklmnopqrst'' = ''abcdefghijklmnopqrst''"
    by (subst expected_nul_free) simp_all
  then show ?thesis by (simp add: run_eval impatient_run_def)
qed

end
