(* ===== verification/Measured_Runs.thy ===== *)
theory Measured_Runs
  imports NP_Prelude
begin

text \<open>
  Progress of a system whose actions are offered by a scheduler. The contract: an invariant, a
  rank that every action decreases except the faults, which raise it by a bounded amount, and a
  faultless action enabled in every state that is not final. Its consequences: a bound on the
  length of every run, the possibility to end, and the certainty to end under every fair schedule
  with finitely many faults.
\<close>

section \<open>Schedules\<close>

text \<open>An offered action happens when it is enabled; otherwise the system stays as it is.\<close>

definition offer :: "('a \<Rightarrow> 's \<Rightarrow> 's option) \<Rightarrow> 'a \<Rightarrow> 's \<Rightarrow> 's" where
  "offer act a s = (case act a s of None \<Rightarrow> s | Some t \<Rightarrow> t)"

primrec scheduled :: "('a \<Rightarrow> 's \<Rightarrow> 's option) \<Rightarrow> (nat \<Rightarrow> 'a) \<Rightarrow> nat \<Rightarrow> 's \<Rightarrow> 's" where
  "scheduled act f 0 s = s"
| "scheduled act f (Suc n) s = offer act (f n) (scheduled act f n s)"

text \<open>Every action that is no fault is offered again and again, a fault only finitely often.\<close>

definition fair :: "('a \<Rightarrow> bool) \<Rightarrow> (nat \<Rightarrow> 'a) \<Rightarrow> bool" where
  "fair fault f \<longleftrightarrow> (\<forall>a. if fault a then \<exists>n. \<forall>m \<ge> n. f m \<noteq> a else \<forall>n. \<exists>m \<ge> n. f m = a)"

lemma fair_cycle:
  assumes "as \<noteq> []" and "\<And>a. a \<in> set as \<longleftrightarrow> \<not> fault a"
  shows "fair fault (\<lambda>n. as ! (n mod length as))"
proof -
  have "\<exists>m \<ge> n. as ! (m mod length as) = a" if a: "a \<in> set as" for a n
  proof -
    from a obtain k where k: "k < length as" "as ! k = a" by (auto simp: in_set_conv_nth)
    have "n \<le> n * length as" using assms(1) by (cases as) auto
    then show ?thesis using k by (intro exI [of _ "k + n * length as"]) (simp add: trans_le_add2)
  qed
  moreover have "as ! (m mod length as) \<in> set as" for m using assms(1) by (intro nth_mem) simp
  ultimately show ?thesis using assms(2) unfolding fair_def by (metis (full_types))
qed

section \<open>The contract and its consequences\<close>

locale measured_runs =
  fixes act :: "'a \<Rightarrow> 's \<Rightarrow> 's option"
    and run :: "'a list \<Rightarrow> 's \<Rightarrow> 's option"
    and good :: "'s \<Rightarrow> bool"
    and rank :: "'s \<Rightarrow> nat"
    and fault :: "'a \<Rightarrow> bool"
    and cost :: nat
    and final :: "'s \<Rightarrow> bool"
  assumes run_Nil: "run [] s = Some s"
    and run_Cons: "run (a # as) s = Option.bind (act a s) (run as)"
    and good_act: "good s \<Longrightarrow> act a s = Some t \<Longrightarrow> good t"
    and decrease: "good s \<Longrightarrow> act a s = Some t \<Longrightarrow> \<not> fault a \<Longrightarrow> rank t < rank s"
    and rise: "good s \<Longrightarrow> act a s = Some t \<Longrightarrow> fault a \<Longrightarrow> rank t \<le> rank s + cost"
    and enabled: "good s \<Longrightarrow> \<not> final s \<Longrightarrow> \<exists>a t. \<not> fault a \<and> act a s = Some t"
    and few_faults: "finite {a. fault a}"
begin

lemma run_append: "run (as @ bs) s = Option.bind (run as s) (run bs)"
  by (induction as arbitrary: s) (auto simp: run_Nil run_Cons bind_eq_None_conv split: Option.bind_split)

lemma run_bound:
  assumes "good s" and "run as s = Some t"
  shows "good t \<and> length as + rank t \<le> rank s + Suc cost * length (filter fault as)"
  using assms
proof (induction as arbitrary: s)
  case Nil
  then show ?case by (simp add: run_Nil)
next
  case (Cons a as)
  then obtain s' where s': "act a s = Some s'" "run as s' = Some t" by (auto simp: run_Cons bind_eq_Some_conv)
  note Cons.IH [OF good_act [OF Cons.prems(1) s'(1)] s'(2)]
  then show ?case using decrease [OF Cons.prems(1) s'(1)] rise [OF Cons.prems(1) s'(1)] by (cases "fault a") auto
qed

lemma can_end:
  assumes "good s"
  shows "\<exists>bs t. length bs \<le> rank s \<and> (\<forall>b \<in> set bs. \<not> fault b) \<and> run bs s = Some t \<and> final t"
  using assms
proof (induction "rank s" arbitrary: s rule: less_induct)
  case less
  show ?case
  proof (cases "final s")
    case True
    then show ?thesis using run_Nil by (intro exI [of _ "[]"]) auto
  next
    case False
    then obtain a s' where a: "\<not> fault a" "act a s = Some s'" using enabled less.prems by blast
    then have r: "rank s' < rank s" using decrease less.prems by blast
    then obtain bs t where bs: "length bs \<le> rank s'" "\<forall>b \<in> set bs. \<not> fault b" "run bs s' = Some t" "final t"
      using less.hyps good_act less.prems a(2) by blast
    moreover have "run (a # bs) s = Some t" using a(2) bs(3) by (simp add: run_Cons)
    ultimately show ?thesis using a(1) r by (intro exI [of _ "a # bs"] exI [of _ t]) auto
  qed
qed

lemma good_offer: "good s \<Longrightarrow> good (offer act a s)"
  by (auto simp: offer_def intro: good_act split: option.split)

lemma good_scheduled: "good s \<Longrightarrow> good (scheduled act f n s)"
  by (induction n) (simp_all add: good_offer)

lemma fault_free_tail:
  assumes "fair fault f"
  obtains N where "\<And>m. m \<ge> N \<Longrightarrow> \<not> fault (f m)"
proof -
  have "\<exists>n. \<forall>m \<ge> n. f m \<notin> A" if "finite A" "A \<subseteq> {a. fault a}" for A
    using that
  proof (induction A)
    case (insert a A)
    moreover obtain k where "\<forall>m \<ge> k. f m \<noteq> a" using assms insert.prems unfolding fair_def by (metis insert_subset mem_Collect_eq)
    ultimately obtain n where "\<forall>m \<ge> n. f m \<notin> A" "\<forall>m \<ge> k. f m \<noteq> a" by auto
    then show ?case by (intro exI [of _ "max n k"]) auto
  qed simp
  from this [of "{a. fault a}"] obtain n where "\<forall>m \<ge> n. \<not> fault (f m)" using few_faults by auto
  then show ?thesis using that by blast
qed

text \<open>
  After the last fault take a moment of least rank: nothing can happen any more, and when the
  state is not final the enabled action is offered at some later moment.
\<close>

lemma fair_end:
  assumes "good s" and "fair fault f"
  shows "\<exists>n. final (scheduled act f n s)"
proof -
  let ?st = "\<lambda>n. scheduled act f n s"
  obtain N where N: "\<And>m. m \<ge> N \<Longrightarrow> \<not> fault (f m)" using fault_free_tail [OF assms(2)] by blast
  obtain n where n: "n \<ge> N" and least: "\<And>m. m \<ge> N \<Longrightarrow> rank (?st n) \<le> rank (?st m)"
    using ex_has_least_nat [of "\<lambda>n. n \<ge> N" N "\<lambda>n. rank (?st n)"] by auto
  have stuck: "act (f m) (?st m) = None" if "m \<ge> n" "?st m = ?st n" for m
  proof (rule ccontr)
    assume "act (f m) (?st m) \<noteq> None"
    then obtain t where t: "act (f m) (?st m) = Some t" by blast
    then have "rank t < rank (?st n)"
      using decrease [OF good_scheduled [OF assms(1)] t] N [of m] n that by simp
    moreover have "?st (Suc m) = t" using t by (simp add: offer_def)
    ultimately show False using least [of "Suc m"] n that(1) by simp
  qed
  have same: "?st m = ?st n" if "m \<ge> n" for m
    using that
  proof (induction m rule: dec_induct)
    case (step m)
    then show ?case using stuck [of m] by (simp add: offer_def)
  qed simp
  have "final (?st n)"
  proof (rule ccontr)
    assume "\<not> final (?st n)"
    then obtain a t where a: "\<not> fault a" "act a (?st n) = Some t" using enabled good_scheduled [OF assms(1)] by blast
    moreover obtain m where "m \<ge> n" "f m = a" using assms(2) a(1) unfolding fair_def by metis
    ultimately show False using stuck [of m] same [of m] by simp
  qed
  then show ?thesis ..
qed

end

end
