(* ===== verification/Transfer_Progress.thy ===== *)
theory Transfer_Progress
  imports Stop_And_Wait Measured_Runs
begin

text \<open>
  Progress of the N-channel transfer: a potential that every step of a patient run decreases,
  except a dropped packet, which raises it by at most three; and absence of deadlock before
  both programs have left their loops.
\<close>

section \<open>The invariant of progress\<close>

definition serving_ok :: "sys \<Rightarrow> bool" where
  "serving_ok s \<longleftrightarrow> (case spc_of s of
       Serve js \<Rightarrow> distinct js \<and> (\<forall>j \<in> set js. up s j \<noteq> [])
     | Select \<Rightarrow> \<not> s_is_last s
     | Closed \<Rightarrow> s_is_last s)"

definition ending_ok :: "sys \<Rightarrow> bool" where
  "ending_ok s \<longleftrightarrow> s_is_last s =
     (case cpc_of s of Finished \<Rightarrow> True | FinWait q \<Rightarrow> down s 0 \<noteq> [] | _ \<Rightarrow> False)"

definition eof_ok :: "bool \<Rightarrow> sys \<Rightarrow> bool" where
  "eof_ok big s \<longleftrightarrow> (\<forall>i. cpc_of s = Wait i \<longrightarrow> c_eof_seq_no (cl s) \<noteq> -1 \<longrightarrow>
     ntohll big (seq_no (header (c_tmp (cl s) ! last_used (cl s)))) = c_eof_seq_no (cl s))"

definition live :: "bool \<Rightarrow> sys \<Rightarrow> bool" where
  "live big s \<longleftrightarrow> serving_ok s \<and> ending_ok s \<and> eof_ok big s"

lemmas live_defs = live_def serving_ok_def ending_ok_def eof_ok_def

lemma live_init: "live big (init_sys F)"
  by (simp add: live_defs init_sys_def init_client_def loop_head_def)

section \<open>The potential\<close>

definition sends_left :: "sys \<Rightarrow> nat" where
  "sends_left s =
     (if c_eof_seq_no (cl s) = -1 then length (c_fp (cl s)) div PACKET_SIZE + 2
      else case cpc_of s of Send _ \<Rightarrow> 1 | _ \<Rightarrow> 0)"

definition weight :: "sys \<Rightarrow> nat \<Rightarrow> nat" where
  "weight s j =
     (if slot s j = None then 0
      else if up s j \<noteq> [] then (case spc_of s of Serve js \<Rightarrow> if j \<in> set js then 2 else 4 | _ \<Rightarrow> 4)
      else if down s j \<noteq> [] then 1 else 5)"

definition potential :: "sys \<Rightarrow> nat" where
  "potential s = 5 * sends_left s + (if in_transfer s then 5 else 0)
     + (\<Sum>j < NUM_CHANNELS. weight s j) + (case spc_of s of Serve _ \<Rightarrow> 1 | _ \<Rightarrow> 0)"

lemma sum_change:
  assumes "finite A" and "i \<in> A" and "\<And>j. j \<noteq> i \<Longrightarrow> f j = g j"
  shows "sum f A + g i = sum g A + (f i :: nat)"
  using assms by (simp add: sum.remove)

lemma sum_weight_change:
  assumes "i < NUM_CHANNELS" and "\<And>j. j \<noteq> i \<Longrightarrow> weight t j = weight s j"
  shows "sum (weight t) {..<NUM_CHANNELS} + weight s i = sum (weight s) {..<NUM_CHANNELS} + weight t i"
  using assms by (intro sum_change) auto

lemma slot_channel: "slot s j = Some q \<Longrightarrow> j < NUM_CHANNELS"
  by (auto simp: slot_def active_def NUM_CHANNELS_def split: cpc.splits if_splits)

lemma up_channel:
  assumes "inv big E s" and "up s j \<noteq> []"
  obtains q where "slot s j = Some q" "up s j = [q]" "down s j = []" "j < NUM_CHANNELS"
  using assms(2) inv_slotD [OF assms(1), of j] slot_channel [of s j]
  by (cases "slot s j") (auto simp: chan_ok_def)

section \<open>The server\<close>

text \<open>A step that changes only where the server is.\<close>

lemma spc_only_simps [simp]:
  "active (s\<lparr>spc_of := x\<rparr>) = active s" "slot (s\<lparr>spc_of := x\<rparr>) = slot s"
  "in_transfer (s\<lparr>spc_of := x\<rparr>) = in_transfer s" "sends_left (s\<lparr>spc_of := x\<rparr>) = sends_left s"
  "ending_ok (s\<lparr>spc_of := x\<rparr>) = ending_ok s" "eof_ok big (s\<lparr>spc_of := x\<rparr>) = eof_ok big s"
  by (simp_all add: fun_eq_iff active_def slot_def in_transfer_def sends_left_def ending_ok_def eof_ok_def split: cpc.split)

lemma select_progress:
  assumes "inv big E s" and "live big s" and "server_select s = Some t"
  shows "live big t \<and> potential t < potential s"
proof -
  let ?ready = "filter (\<lambda>i. up s i \<noteq> []) [0..<NUM_CHANNELS]"
  from assms(3) have sel: "spc_of s = Select" and t: "t = s\<lparr>spc_of := Serve ?ready\<rparr>" and ne: "?ready \<noteq> []"
    by (auto simp: server_select_def Let_def split: spc.splits if_splits)
  from ne obtain i where i: "i < NUM_CHANNELS" "up s i \<noteq> []" by (auto simp: filter_empty_conv)
  have le: "weight t j \<le> weight s j" for j by (auto simp: t weight_def sel)
  obtain q where "slot s i = Some q" using up_channel [OF assms(1) i(2)] by blast
  then have "weight t i + 2 = weight s i" using i by (simp add: t weight_def sel)
  moreover have "sum (weight t) ({..<NUM_CHANNELS} - {i}) \<le> sum (weight s) ({..<NUM_CHANNELS} - {i})"
    using le by (intro sum_mono)
  ultimately have "sum (weight t) {..<NUM_CHANNELS} + 2 \<le> sum (weight s) {..<NUM_CHANNELS}"
    using i(1) by (simp add: sum.remove [of _ i])
  then have "potential t < potential s" by (simp add: potential_def sel) (simp add: t)
  moreover have "live big t" using assms(2) by (auto simp: live_def serving_ok_def t)
  ultimately show ?thesis by simp
qed

lemma loop_progress:
  assumes "live big s" and "server_loop s = Some t"
  shows "live big t \<and> potential t < potential s"
proof -
  from assms(2) have sel: "spc_of s = Serve []" and t: "t = s\<lparr>spc_of := (if s_is_last s then Closed else Select)\<rparr>"
    by (auto simp: server_loop_def split: spc.splits list.splits)
  have "weight t = weight s" by (auto simp: fun_eq_iff t weight_def sel)
  then have "potential t < potential s" by (simp add: potential_def sel) (simp add: t)
  moreover have "live big t" using assms(1) by (auto simp: live_def serving_ok_def t)
  ultimately show ?thesis by simp
qed

lemma serve_progress:
  assumes inv: "inv big E s" and live: "live big s" and a: "server_serve big res s = Some t"
  shows "live big t \<and> (if res then potential t \<le> potential s + 3 else potential t < potential s)"
proof -
  define d where "d i p = (if res then down s else (down s)(i := [ack_of p]))" for i p
  define l where "l p = (\<not> res \<and> is_last (header p) = 1 \<or> s_is_last s)" for p :: Packet
  obtain i js p where sp: "spc_of s = Serve (i # js)" and sl: "slot s i = Some p" and u: "up s i = [p]" and dn: "down s i = []"
    and t: "t = s\<lparr>up := (up s)(i := []), down := d i p, srv := served big res p (srv s), s_is_last := l p, spc_of := Serve js\<rparr>"
    using server_serve_step [OF inv a] unfolding d_def l_def by blast
  have i: "i < NUM_CHANNELS" using slot_channel [OF sl] .
  have same: "slot t = slot s" "in_transfer t = in_transfer s" "sends_left t = sends_left s"
    by (auto simp: fun_eq_iff t slot_def active_def in_transfer_def sends_left_def split: cpc.splits)
  have ni: "i \<notin> set js" using live sp by (simp add: live_defs)
  have "weight t j = weight s j" if "j \<noteq> i" for j
    using that by (simp only: weight_def same) (simp add: t d_def sp)
  then have "sum (weight t) {..<NUM_CHANNELS} + weight s i = sum (weight s) {..<NUM_CHANNELS} + weight t i"
    using i by (intro sum_weight_change)
  moreover have "weight s i = 2" using u sl by (simp add: weight_def sp)
  moreover have "weight t i = (if res then 5 else 1)" using sl dn by (simp only: weight_def same) (simp add: t d_def)
  ultimately have "if res then potential t \<le> potential s + 3 else potential t < potential s"
    by (simp only: potential_def same) (auto simp: t sp)
  moreover have "serving_ok t" using live ni by (auto simp: live_defs sp t)
  moreover have "eof_ok big t" using live by (simp add: live_defs t)
  moreover have "ending_ok t"
  proof (cases "cpc_of s")
    case (FinWait r)
    then have "i = 0" "p = r" "is_last (header r) = 1" using sl inv by (auto simp: slot_def inv_defs split: if_splits)
    then show ?thesis using live FinWait dn by (auto simp: live_defs t l_def d_def)
  next
    case Finished
    then show ?thesis using sl by (simp add: slot_def active_def)
  next
    case (Send k)
    then have "used s i" "p = c_tmp (cl s) ! i" using sl by (auto simp: slot_def active_def used_def split: if_splits)
    then have "is_last (header p) = 0" using inv by (simp add: inv_def inv_chan_def pkt_ok_def)
    then show ?thesis using live Send by (simp add: live_defs t l_def)
  next
    case (Wait k)
    then have "used s i" "p = c_tmp (cl s) ! i" using sl by (auto simp: slot_def active_def used_def split: if_splits)
    then have "is_last (header p) = 0" using inv by (simp add: inv_def inv_chan_def pkt_ok_def)
    then show ?thesis using live Wait by (simp add: live_defs t l_def)
  qed
  ultimately show ?thesis by (simp add: live_def)
qed

section \<open>The client\<close>

lemma not_serving:
  assumes "live big s" and "up s i = []"
  shows "spc_of s = Serve js \<Longrightarrow> i \<notin> set js"
  using assms by (auto simp: live_defs)

lemma weight_new:
  assumes "live big s" and "up s i = []" and "spc_of t = spc_of s" and "slot t i \<noteq> None" and "up t i \<noteq> []"
  shows "weight t i = 4"
  using assms not_serving [OF assms(1,2)] by (auto simp: weight_def split: spc.splits)

lemma timeout_progress:
  assumes inv: "inv big E s" and live: "live big s" and a: "client_timeout True s = Some t"
  shows "live big t \<and> potential t < potential s"
proof -
  obtain i q where sl: "slot s i = Some q" and e: "up s i = []" "down s i = []"
    and t: "t = s\<lparr>up := (up s)(i := [q])\<rparr>"
  proof (cases "cpc_of s")
    case (Wait i)
    then have "slot s i = Some (c_tmp (cl s) ! i)" using inv by (auto simp: inv_defs slot_def active_def)
    then show ?thesis using that [of i "c_tmp (cl s) ! i"] a Wait
      by (auto simp: client_timeout_def poll_times_out_def split: if_splits)
  next
    case (FinWait q)
    then show ?thesis using that [of 0 q] a
      by (auto simp: client_timeout_def poll_times_out_def slot_def split: if_splits)
  qed (use a in \<open>simp_all add: client_timeout_def\<close>)
  have same: "slot t = slot s" "spc_of t = spc_of s" "sends_left t = sends_left s" "in_transfer t = in_transfer s"
    by (simp_all add: t sends_left_def in_transfer_def split: cpc.split)
  have "weight t j = weight s j" if "j \<noteq> i" for j using that by (simp add: weight_def t cong: spc.case_cong)
  then have "sum (weight t) {..<NUM_CHANNELS} + weight s i = sum (weight s) {..<NUM_CHANNELS} + weight t i"
    using slot_channel [OF sl] by (intro sum_weight_change)
  moreover have "weight s i = 5" using e sl by (simp add: weight_def)
  moreover have "weight t i = 4" using sl by (intro weight_new [OF live e(1)]) (simp_all add: t)
  ultimately have "potential t < potential s" by (simp add: potential_def same)
  moreover have "live big t"
    using live by (auto simp: live_defs t split: spc.splits cpc.splits)
  ultimately show ?thesis by simp
qed

lemma fin_recv_progress:
  assumes inv: "inv big E s" and live: "live big s" and pc: "cpc_of s = FinWait q" and a: "client_recv big s = Some t"
  shows "live big t \<and> potential t < potential s"
proof -
  from a pc obtain p ps where d: "down s 0 = p # ps"
    and t: "t = s\<lparr>cl := recv_ack big p (cl s), cpc_of := loop_head (recv_ack big p (cl s)), down := (down s)(0 := ps)\<rparr>"
    by (auto simp: client_recv_def split: list.splits)
  have sl: "slot s j = (if j = 0 then Some q else None)" for j by (simp add: slot_def pc)
  have u: "up s 0 = []" using inv_slotD(2) [OF inv, of 0 q] d by (auto simp: sl chan_ok_def)
  have cpt: "cpc_of t = Finished" using inv pc by (auto simp: t loop_head_def inv_defs recv_ack_def)
  have "weight t j = 0" for j by (simp add: weight_def slot_def active_def cpt)
  moreover have "weight s 0 \<le> sum (weight s) {..<NUM_CHANNELS}" by (intro member_le_sum) (auto simp: NUM_CHANNELS_def)
  moreover have "weight s 0 = 1" using sl d u by (simp add: weight_def)
  moreover have "sends_left t \<le> sends_left s" by (simp add: sends_left_def cpt pc) (simp add: t recv_ack_def)
  moreover have "spc_of t = spc_of s" "\<not> in_transfer t" "\<not> in_transfer s" by (simp_all add: in_transfer_def pc cpt) (simp add: t)
  ultimately have "potential t < potential s" by (simp add: potential_def)
  moreover have "live big t" using live cpt d by (auto simp: live_defs pc) (auto simp: t split: spc.splits)
  ultimately show ?thesis by simp
qed

lemma wait_recv_progress:
  assumes inv: "inv big E s" and E: "length E < 2 ^ 64 - 1" and live: "live big s" and pc: "cpc_of s = Wait i" and a: "client_recv big s = Some t"
  shows "live big t \<and> potential t < potential s"
proof -
  let ?c' = "recv_ack big (ack_of (c_tmp (cl s) ! i)) (cl s)"
  note ch = wait_channel [OF inv E pc a]
  have ws: "weight s i = 1" using ch(3-5) by (simp add: weight_def)
  then have ws1: "1 \<le> sum (weight s) {..<NUM_CHANNELS}"
    using ch(1) member_le_sum [of i "{..<NUM_CHANNELS}" "weight s"] by simp
  have nl: "\<not> s_is_last s" "serving_ok s" using live by (auto simp: live_def ending_ok_def pc)
  have eof: "c_is_eof ?c' \<longleftrightarrow> c_eof_seq_no (cl s) \<noteq> -1" if "i = last_used (cl s)"
    using inv live ch(7) that pc by (auto simp: inv_defs live_defs recv_ack_def)
  from inv E pc a show ?thesis
  proof (cases rule: wait_recv_cases)
    case next_channel
    have act: "active t j \<longleftrightarrow> active s j \<and> j \<noteq> i" for j by (auto simp: active_def next_channel(2) pc)
    then have "weight t j = weight s j" if "j \<noteq> i" for j
      using that by (simp add: weight_def slot_def pc) (simp add: next_channel(2))
    then have "sum (weight t) {..<NUM_CHANNELS} + weight s i = sum (weight s) {..<NUM_CHANNELS} + weight t i"
      using ch(1) by (intro sum_weight_change)
    moreover have "weight t i = 0" using act [of i] by (simp add: weight_def slot_def) (simp add: next_channel(2))
    ultimately have "potential t < potential s"
      using ws by (simp add: potential_def in_transfer_def sends_left_def pc) (simp add: next_channel(2))
    moreover have "live big t"
      using live nl by (auto simp: live_def ending_ok_def eof_ok_def pc serving_ok_def last_used_def next_channel(2) split: spc.splits)
    ultimately show ?thesis by simp
  next
    case last_channel
    let ?q = "fin_packet big ?c'"
    have "weight t j = 0" if "j \<noteq> 0" for j using that by (simp add: weight_def slot_def last_channel(6))
    then have "sum (weight t) {..<NUM_CHANNELS} = weight t 0"
      using sum.remove [of "{..<NUM_CHANNELS}" 0 "weight t"] by (simp add: NUM_CHANNELS_def)
    moreover have "weight t 0 = 4"
      by (rule weight_new [OF live, of 0]) (simp_all add: last_channel(3,6) slot_def)
    ultimately have "potential t < potential s"
      using ws1 eof last_channel(1,5) by (simp add: potential_def in_transfer_def sends_left_def pc) (simp add: last_channel(6))
    moreover have "live big t" using nl last_channel(3) by (auto simp: live_defs last_channel(6) split: spc.splits)
    ultimately show ?thesis by simp
  next
    case next_round
    then have t: "t = s\<lparr>cl := ?c', cpc_of := Send 0, down := (\<lambda>_. [])\<rparr>" and "c_eof_seq_no (cl s) = -1"
      using eof by (auto simp: loop_head_def)
    moreover have "weight t j = 0" for j by (simp add: weight_def slot_def active_def t)
    ultimately have "potential t < potential s"
      using ws1 by (simp add: potential_def in_transfer_def sends_left_def pc)
    moreover have "live big t" using nl by (auto simp: live_defs t split: spc.splits)
    ultimately show ?thesis by simp
  qed
qed

lemma send_progress:
  assumes inv: "inv big E s" and E: "length E < 2 ^ 64 - 1" and live: "live big s" and a: "client_send big s = Some t"
  shows "live big t \<and> potential t < potential s"
proof -
  let ?c = "cl s"
  obtain i p d where pc: "cpc_of s = Send i"
    and t: "t = s\<lparr>cl := sent_client i p d ?c,
           cpc_of := (if d = [] \<or> \<not> Suc i < NUM_CHANNELS then Wait 0 else Send (Suc i)), up := (up s)(i := up s i @ [p])\<rparr>"
    and seq: "ntohll big (seq_no (header p)) = c_seq_no ?c" and d: "expected (c_fp ?c) = d @ expected (drop PACKET_SIZE (c_fp ?c))"
      "unat (c_seq_no ?c) + length d \<le> length E"
    using client_send_step [OF inv E a] by blast
  have flds: "cl t = sent_client i p d ?c" "spc_of t = spc_of s" "down t = down s" "s_is_last t = s_is_last s"
      "up t = (up s)(i := up s i @ [p])"
    and pct: "cpc_of t = (if d = [] \<or> \<not> Suc i < NUM_CHANNELS then Wait 0 else Send (Suc i))"
    by (simp_all add: t)
  note ch = send_channels [OF inv pc flds(1) pct]
  from inv pc have ip: "i < NUM_CHANNELS" "c_last_packet ?c = -1" "length (c_tmp ?c) = NUM_CHANNELS"
    and st: "c_eof_seq_no ?c \<noteq> -1 \<longrightarrow> c_fp ?c = []"
    by (auto simp: inv_defs in_transfer_def)
  have proper: "c_seq_no ?c \<noteq> -1" using d(2) E by (intro seq_not_minus_1) simp
  have "weight t j = weight s j" if "j \<noteq> i" for j using that by (simp add: weight_def ch(6) flds)
  then have "sum (weight t) {..<NUM_CHANNELS} + weight s i = sum (weight s) {..<NUM_CHANNELS} + weight t i"
    using ip(1) by (intro sum_weight_change)
  moreover have "weight s i = 0" by (simp add: weight_def ch(9))
  moreover have "weight t i = 4" by (rule weight_new [OF live ch(7)]) (simp_all add: ch(6) flds)
  moreover have "sends_left t < sends_left s"
  proof (cases "length (c_fp ?c) < PACKET_SIZE")
    case True
    then have "d = []" if "c_eof_seq_no ?c \<noteq> -1" using d(1) st that by simp
    then show ?thesis using True proper by (auto simp: sends_left_def pc pct flds sent_client_def)
  next
    case False
    then have "c_eof_seq_no ?c = -1" using st by (auto simp: PACKET_SIZE_def)
    moreover have "length (c_fp ?c) div PACKET_SIZE = Suc (length (drop PACKET_SIZE (c_fp ?c)) div PACKET_SIZE)"
      using False by (simp add: le_div_geq PACKET_SIZE_def)
    ultimately show ?thesis using False by (simp add: sends_left_def flds sent_client_def)
  qed
  ultimately have "potential t < potential s" by (simp add: potential_def ch(10,11) flds(2))
  moreover have "eof_ok big t"
  proof -
    have "c_seq_no ?c = c_eof_seq_no (cl t)" if "c_eof_seq_no (cl t) \<noteq> -1"
      using that st by (auto simp: flds sent_client_def PACKET_SIZE_def split: if_splits)
    moreover have "last_used (cl t) = i" if "d = [] \<or> \<not> Suc i < NUM_CHANNELS"
      using that ip(1,2) by (auto simp: last_used_def flds sent_client_def)
    ultimately show ?thesis using seq by (auto simp: eof_ok_def pct ch(5) split: if_splits)
  qed
  moreover have "serving_ok t" "ending_ok t"
    using live by (auto simp: live_defs pct pc flds split: spc.splits)
  ultimately show ?thesis by (simp add: live_def)
qed

section \<open>Runs\<close>

lemma act_progress:
  assumes "inv big E s" and "length E < 2 ^ 64 - 1" and "live big s" and "act big True a s = Some t"
  shows "live big t \<and> (if a = SServe True then potential t \<le> potential s + 3 else potential t < potential s)"
proof (cases a)
  case CRecv
  then have r: "client_recv big s = Some t" using assms(4) by simp
  then obtain i q where "cpc_of s = Wait i \<or> cpc_of s = FinWait q" by (auto simp: client_recv_def split: cpc.splits)
  then have "live big t \<and> potential t < potential s"
    using wait_recv_progress [OF assms(1-3) _ r] fin_recv_progress [OF assms(1,3) _ r] by blast
  then show ?thesis using CRecv by simp
next
  case (SServe res)
  then show ?thesis using assms serve_progress [OF assms(1,3), of res t] by auto
next
  case CSend
  then show ?thesis using send_progress [OF assms(1-3)] assms(4) by simp
next
  case CTimeout
  then show ?thesis using timeout_progress [OF assms(1,3)] assms(4) by simp
next
  case SSelect
  then show ?thesis using select_progress [OF assms(1,3)] assms(4) by simp
next
  case SLoop
  then show ?thesis using loop_progress [OF assms(3)] assms(4) by simp
qed

text \<open>Before both programs have ended one of them can make a step in which nothing is dropped.\<close>

lemma no_deadlock:
  assumes "inv big E s" and "live big s" and "cpc_of s \<noteq> Finished \<or> spc_of s \<noteq> Closed"
  obtains a t where "a \<noteq> SServe True" "act big True a s = Some t"
proof -
  note enabled = that
  have server: thesis if "up s j \<noteq> []" for j
  proof (cases "spc_of s")
    case Select
    have "j < NUM_CHANNELS" using up_channel [OF assms(1) \<open>up s j \<noteq> []\<close>] by blast
    then have "filter (\<lambda>i. up s i \<noteq> []) [0..<NUM_CHANNELS] \<noteq> []" using \<open>up s j \<noteq> []\<close> by (auto simp: filter_empty_conv)
    then show ?thesis using Select enabled [of SSelect] by (simp add: server_select_def Let_def)
  next
    case (Serve js)
    show ?thesis
    proof (cases js)
      case Nil
      then show ?thesis using Serve enabled [of SLoop] by (simp add: server_loop_def)
    next
      case (Cons i ks)
      then obtain p ps where "up s i = p # ps" using Serve assms(2) by (auto simp: live_defs neq_Nil_conv)
      then show ?thesis using Serve Cons enabled [of "SServe False"] by (simp add: server_serve_def serve_connection_ack)
    qed
  next
    case Closed
    obtain q where q: "slot s j = Some q" "down s j = []" using up_channel [OF assms(1) \<open>up s j \<noteq> []\<close>] by blast
    have "ending_ok s" "s_is_last s" using assms(2) Closed by (simp_all add: live_def serving_ok_def)
    then have False using q by (cases "cpc_of s") (auto simp: ending_ok_def slot_def active_def split: if_splits)
    then show ?thesis ..
  qed
  show ?thesis
  proof (cases "cpc_of s")
    case (Send i)
    then show ?thesis using enabled [of CSend] by (cases "send_chunk big i (cl s)") (simp add: client_send_def)
  next
    case (Wait i)
    then show ?thesis using enabled [of CRecv] enabled [of CTimeout] server [of i]
      by (cases "down s i"; cases "up s i = []") (auto simp: client_recv_def client_timeout_def poll_times_out_def Let_def)
  next
    case (FinWait q)
    then show ?thesis using enabled [of CRecv] enabled [of CTimeout] server [of 0]
      by (cases "down s 0"; cases "up s 0 = []") (auto simp: client_recv_def client_timeout_def poll_times_out_def Let_def)
  next
    case Finished
    then have "s_is_last s" "\<And>j. up s j = []"
      using assms(2) inv_slotD(1) [OF assms(1)] by (auto simp: live_defs slot_def active_def)
    then have "spc_of s = Serve []" using assms(2,3) Finished
      by (cases "spc_of s") (auto simp: live_def serving_ok_def)
    then show ?thesis using enabled [of SLoop] by (simp add: server_loop_def)
  qed
qed

text \<open>The transfer meets the contract of measured runs; a dropped packet is the fault.\<close>

definition ended :: "sys \<Rightarrow> bool" where
  "ended s \<longleftrightarrow> cpc_of s = Finished \<and> spc_of s = Closed"

definition proceeds :: "bool \<Rightarrow> bytes \<Rightarrow> sys \<Rightarrow> bool" where
  "proceeds big E s \<longleftrightarrow> inv big E s \<and> live big s \<and> length E < 2 ^ 64 - 1"

interpretation transfer: measured_runs "act big True" "run big True" "proceeds big E" potential "\<lambda>a. a = SServe True" 3 ended
  for big E
proof
  fix s t a
  assume s: "proceeds big E s"
  show "\<exists>a t. a \<noteq> SServe True \<and> act big True a s = Some t" if "\<not> ended s"
    using no_deadlock [of big E s] s that unfolding ended_def proceeds_def by blast
  assume t: "act big True a s = Some t"
  then show "proceeds big E t" "a \<noteq> SServe True \<Longrightarrow> potential t < potential s"
    "a = SServe True \<Longrightarrow> potential t \<le> potential s + 3"
    using act_inv [of big E s] act_progress [of big E s a t] s unfolding proceeds_def by auto
qed (auto split: Option.bind_split option.split)

lemma proceeds_init: "length F < 2 ^ 64 - 1 \<Longrightarrow> proceeds big (expected F) (init_sys F)"
  using length_expected [of F] by (simp add: proceeds_def inv_init live_init)

lemma potential_init: "potential (init_sys F) = 5 * (length F div PACKET_SIZE) + 15"
proof -
  have "weight (init_sys F) j = 0" for j
    by (simp add: weight_def slot_def active_def init_sys_def loop_head_def init_client_def)
  then show ?thesis
    by (simp add: potential_def) (simp add: init_sys_def sends_left_def init_client_def loop_head_def in_transfer_def)
qed

lemma closed_file: "proceeds big E s \<Longrightarrow> spc_of s = Closed \<Longrightarrow> s_fp (srv s) = E"
  unfolding proceeds_def by (intro inv_done_file [of big]) (auto simp: live_defs in_transfer_def split: cpc.splits)

text \<open>
  C3. The transfer comes to an end. In patient runs the number of steps of client and server
  together is bounded by the length of the input file and the number of packets dropped; and
  a step without a drop is possible until both programs have left their loops, with the file
  delivered. So when the server drops only finitely many packets every run ends, and it ends
  in no other way.
\<close>

theorem transfer_terminates:
  assumes "run big True as (init_sys F) = Some s" and "length F < 2 ^ 64 - 1"
  shows "length as \<le> 5 * (length F div PACKET_SIZE) + 15 + 4 * count_list as (SServe True)
    \<and> ((\<forall>a t. a \<noteq> SServe True \<longrightarrow> act big True a s \<noteq> Some t)
         \<longleftrightarrow> cpc_of s = Finished \<and> spc_of s = Closed)
    \<and> (spc_of s = Closed \<longrightarrow> s_fp (srv s) = expected F)"
proof -
  note r = transfer.run_bound [OF proceeds_init [OF assms(2)] assms(1)]
  then have "length as \<le> 5 * (length F div PACKET_SIZE) + 15 + 4 * count_list as (SServe True)"
    by (simp add: potential_init count_list_eq_length_filter) (simp cong: filter_cong add: eq_sym_conv [of "SServe True"])
  moreover have "act big True a s = None" if "cpc_of s = Finished" "spc_of s = Closed" for a
    using that by (cases a) (simp_all add: client_send_def client_timeout_def client_recv_def
        server_select_def server_serve_def server_loop_def)
  moreover have "\<exists>a t. a \<noteq> SServe True \<and> act big True a s = Some t" if "\<not> ended s"
    using transfer.enabled r that by blast
  ultimately show ?thesis using r closed_file unfolding ended_def by (metis option.distinct(1))
qed

theorem transfer_terminates_witness:
  "\<exists>s. run False True lossy_run (init_sys ''abcdefg'') = Some s
     \<and> cpc_of s = Finished \<and> spc_of s = Closed \<and> s_fp (srv s) = ''abcdef'' \<and> length lossy_run \<le> 24
     \<and> (\<forall>a t. a \<noteq> SServe True \<longrightarrow> act False True a s \<noteq> Some t)"
proof -
  have "\<exists>s. run False True lossy_run (init_sys ''abcdefg'') = Some s \<and> cpc_of s = Finished
      \<and> spc_of s = Closed \<and> s_fp (srv s) = ''abcdef''"
    by (simp add: run_eval lossy_run_def fun_eq_iff)
  then obtain s where s: "run False True lossy_run (init_sys ''abcdefg'') = Some s" "cpc_of s = Finished"
      "spc_of s = Closed" "s_fp (srv s) = ''abcdef''" by blast
  have "length ''abcdefg'' < 2 ^ 64 - 1" by simp
  from transfer_terminates [OF s(1) this] show ?thesis
    using s by (auto simp: lossy_run_def PACKET_SIZE_def)
qed

text \<open>
  C2. Every fair schedule with patient timeouts delivers the file. Let a timeout of the client
  expire only when nothing is on its way on the channel, neither a packet nor an
  acknowledgement. Then, whatever order the steps of client and server are offered in, when each
  of them is offered again and again and the server drops only finitely many packets, after
  finitely many offers both programs have left their loops and the output file holds the bytes
  the chunks of the input carry. The schedule may offer a step where it is not enabled; then
  nothing happens. Without patience data can be lost.
\<close>

theorem transfer_delivers:
  assumes "fair (\<lambda>a. a = SServe True) f" and "length F < 2 ^ 64 - 1"
  shows "\<exists>n. cpc_of (scheduled (act big True) f n (init_sys F)) = Finished
    \<and> spc_of (scheduled (act big True) f n (init_sys F)) = Closed
    \<and> s_fp (srv (scheduled (act big True) f n (init_sys F))) = expected F"
proof -
  note init = proceeds_init [OF assms(2)]
  obtain n where "ended (scheduled (act big True) f n (init_sys F))" using transfer.fair_end [OF init assms(1)] ..
  then show ?thesis using closed_file [OF transfer.good_scheduled [OF init, of big f n]] unfolding ended_def by blast
qed

theorem transfer_delivers_witness:
  "\<exists>n. s_fp (srv (scheduled (act False True)
      (\<lambda>k. [CSend, CTimeout, CRecv, SSelect, SServe False, SLoop] ! (k mod 6)) n (init_sys ''abcdefg''))) = ''abcdef''"
proof -
  let ?as = "[CSend, CTimeout, CRecv, SSelect, SServe False, SLoop]"
  have "a \<in> set ?as \<longleftrightarrow> a \<noteq> SServe True" for a by (cases a) auto
  then have "fair (\<lambda>a. a = SServe True) (\<lambda>k. ?as ! (k mod length ?as))" by (intro fair_cycle) auto
  moreover have "expected ''abcdefg'' = ''abcdef''"
    by (simp add: expected_full expected_short PACKET_SIZE_def strncpy_nul_free)
  ultimately show ?thesis using transfer_delivers [of _ "''abcdefg''" False] by fastforce
qed

end
