(* ===== verification/Channel_Setup.thy ===== *)
theory Channel_Setup
  imports Stop_And_Wait "HOL-Library.Sublist"
begin

text \<open>
  The connections below the N-channel transfer: how \<open>main\<close> of \<open>N-Channel-StopNWait/client.c\<close>
  connects one socket per channel, and how \<open>main\<close> of \<open>server.c\<close> accepts them and serves its table
  of sockets. In \<open>Stop_And_Wait\<close> a channel is a pair of queues known to both programs; here the
  queues belong to connections, the client knows them by the order in which it connected, and
  the server by the descriptors in its table \<open>sockfd\<close>. Other clients may connect and write at any
  time. Main results: for a client that connects before all others the two programs and their
  connections implement the transfer of \<open>Stop_And_Wait\<close>, and a connection that did not get into
  the table is never read or answered.
\<close>

section \<open>State\<close>

text \<open>
  One client with its array of sockets, given by the numbers of their connections; \<open>w_conns\<close>
  is the number of connections made so far. The server knows a connection by the descriptor that
  \<open>accept\<close> returned for it; 0 in its table is an empty entry. While the server accepts
  connections or serves channels it keeps the channels that \<open>select\<close> reported. A server that ended
  with an error or by SIGINT is \<open>Stopped\<close>.
\<close>

datatype connect_phase = Connecting | Transferring | Gave_up nat

datatype server_pc = Selecting | Accepting nat "nat list" | At_channels "nat list" | Gone | is_Stopped: Stopped nat

record wires =
  w_phase :: connect_phase
  w_cl :: client
  w_cpc :: cpc
  w_socks :: "nat list"
  w_up :: "nat \<Rightarrow> Packet list"
  w_down :: "nat \<Rightarrow> Packet list"
  w_conns :: nat
  w_backlog :: "nat list"
  w_conn_of :: "int \<Rightarrow> nat option"
  w_sockfd :: "int list"
  w_srv :: server
  w_is_last :: bool
  w_spc :: server_pc

section \<open>Starting the programs\<close>

text \<open>
  The start of the client up to its first socket: the number of its arguments and the contents of
  \<open>input.txt\<close>, if it can be opened. The server opens \<open>output.txt\<close> without looking at the result,
  but closes it when \<open>socket\<close> or \<open>bind\<close> fails: closing a null pointer is a fault. From
  \<open>wires_start\<close> on both files are open.
\<close>

definition client_main :: "nat \<Rightarrow> bytes option \<Rightarrow> nat + client" where
  "client_main argc input =
     (if argc \<noteq> 3 then Inl 1 else case input of None \<Rightarrow> Inl 1 | Some F \<Rightarrow> Inr (init_client F))"

definition server_main :: "nat \<Rightarrow> bool \<Rightarrow> bool \<Rightarrow> bool \<Rightarrow> (cerror + nat) + server \<times> int list" where
  "server_main argc output_opens socket_ok bind_ok =
     (if argc \<noteq> 3 then Inl (Inr 0)
      else if socket_ok \<and> bind_ok then Inr (\<lparr>s_fp = [], s_last_seq_no = 0\<rparr>, replicate NUM_CHANNELS 0)
      else if output_opens then Inl (Inr 1) else Inl (Inl Segfault))"

definition wires_start :: "bytes \<Rightarrow> wires" where
  "wires_start F = \<lparr>w_phase = Connecting, w_cl = init_client F, w_cpc = loop_head (init_client F), w_socks = [],
     w_up = (\<lambda>_. []), w_down = (\<lambda>_. []), w_conns = 0, w_backlog = [], w_conn_of = (\<lambda>_. None),
     w_sockfd = replicate NUM_CHANNELS 0, w_srv = \<lparr>s_fp = [], s_last_seq_no = 0\<rparr>, w_is_last = False, w_spc = Selecting\<rparr>"

section \<open>Steps\<close>

text \<open>One iteration of the connecting loop; every failure ends the client.\<close>

datatype outcome = No_socket | No_host | Refused | Success

definition connect_channel :: "outcome \<Rightarrow> wires \<Rightarrow> wires option" where
  "connect_channel r s =
     (if w_phase s \<noteq> Connecting then None
      else if r \<noteq> Success then Some (s\<lparr>w_phase := Gave_up 1\<rparr>)
      else Some (s\<lparr>w_phase := (if Suc (length (w_socks s)) < NUM_CHANNELS then Connecting else Transferring),
                   w_socks := w_socks s @ [w_conns s], w_backlog := w_backlog s @ [w_conns s],
                   w_conns := Suc (w_conns s)\<rparr>))"

text \<open>
  A step of the connection loop of the client, which reads and writes its own sockets. What the
  client does when the server has ended with an error is left out.
\<close>

definition client_side :: "wires \<Rightarrow> sys" where
  "client_side s = \<lparr>cl = w_cl s, cpc_of = w_cpc s,
     up = (\<lambda>i. if i < length (w_socks s) then w_up s (w_socks s ! i) else []),
     down = (\<lambda>i. if i < length (w_socks s) then w_down s (w_socks s ! i) else []),
     srv = w_srv s, s_is_last = w_is_last s, spc_of = Select\<rparr>"

definition put_queues :: "nat list \<Rightarrow> (nat \<Rightarrow> Packet list) \<Rightarrow> (nat \<Rightarrow> Packet list) \<Rightarrow> nat \<Rightarrow> Packet list" where
  "put_queues cs q old c = (case map_of (zip cs (map q [0..<length cs])) c of None \<Rightarrow> old c | Some x \<Rightarrow> x)"

definition client_put :: "sys \<Rightarrow> wires \<Rightarrow> wires" where
  "client_put t s = s\<lparr>w_cl := cl t, w_cpc := cpc_of t,
     w_up := put_queues (w_socks s) (up t) (w_up s), w_down := put_queues (w_socks s) (down t) (w_down s)\<rparr>"

fun of_client :: "action \<Rightarrow> bool" where
  "of_client CSend = True"
| "of_client CTimeout = True"
| "of_client CRecv = True"
| "of_client _ = False"

definition client_acts :: "bool \<Rightarrow> bool \<Rightarrow> action \<Rightarrow> wires \<Rightarrow> wires option" where
  "client_acts big patient a s =
     (if w_phase s = Transferring \<and> of_client a \<and> \<not> is_Stopped (w_spc s)
      then map_option (\<lambda>t. client_put t s) (act big patient a (client_side s)) else None)"

text \<open>Other clients: a connection, and a packet on a connection that is not the client's.\<close>

definition other_connects :: "bool \<Rightarrow> wires \<Rightarrow> wires option" where
  "other_connects first s =
     (if first \<and> w_phase s \<noteq> Transferring then None
      else Some (s\<lparr>w_backlog := w_backlog s @ [w_conns s], w_conns := Suc (w_conns s)\<rparr>))"

definition other_sends :: "nat \<Rightarrow> Packet \<Rightarrow> wires \<Rightarrow> wires option" where
  "other_sends c p s =
     (if c < w_conns s \<and> c \<notin> set (w_socks s) then Some (s\<lparr>w_up := (w_up s)(c := w_up s c @ [p])\<rparr>) else None)"

text \<open>
  The loop of the server: \<open>select\<close> reports the listening socket and the sockets of the table that
  can be read; then as many connections as there are channels are accepted, one after the other,
  and each is entered if its place in the table is empty; then the reported channels are served.
\<close>

definition channel_readable :: "wires \<Rightarrow> nat \<Rightarrow> bool" where
  "channel_readable s i = (0 < w_sockfd s ! i \<and> (case w_conn_of s (w_sockfd s ! i) of None \<Rightarrow> False | Some c \<Rightarrow> w_up s c \<noteq> []))"

definition select_wakes :: "wires \<Rightarrow> wires option" where
  "select_wakes s =
     (let ready = filter (channel_readable s) [0..<NUM_CHANNELS] in
      if w_spc s \<noteq> Selecting \<or> w_backlog s = [] \<and> ready = [] then None
      else Some (s\<lparr>w_spc := (if w_backlog s = [] then At_channels ready else Accepting 0 ready)\<rparr>))"

text \<open>The descriptor \<open>d\<close> is chosen by the kernel: it is positive and not in use.\<close>

definition server_accepts :: "int \<Rightarrow> wires \<Rightarrow> wires option" where
  "server_accepts d s = (case w_spc s of
       Accepting i ready \<Rightarrow> (case w_backlog s of
           [] \<Rightarrow> None
         | c # cs \<Rightarrow>
             if d \<le> 0 \<or> w_conn_of s d \<noteq> None then None
             else Some (s\<lparr>w_backlog := cs, w_conn_of := (w_conn_of s)(d \<mapsto> c),
                          w_sockfd := (if w_sockfd s ! i = 0 then (w_sockfd s)[i := d] else w_sockfd s),
                          w_spc := (if Suc i < NUM_CHANNELS then Accepting (Suc i) ready else At_channels ready)\<rparr>))
     | _ \<Rightarrow> None)"

definition accept_fails :: "wires \<Rightarrow> wires option" where
  "accept_fails s = (case w_spc s of Accepting i ready \<Rightarrow> Some (s\<lparr>w_spc := Stopped 1\<rparr>) | _ \<Rightarrow> None)"

definition server_serves :: "bool \<Rightarrow> bool \<Rightarrow> wires \<Rightarrow> wires option" where
  "server_serves big res s = (case w_spc s of
       At_channels (i # js) \<Rightarrow> (case w_conn_of s (w_sockfd s ! i) of
           None \<Rightarrow> None
         | Some c \<Rightarrow> (case w_up s c of
               [] \<Rightarrow> None
             | p # ps \<Rightarrow>
                 let (ack, srv', last) = serve_connection big res p (w_srv s)
                 in Some (s\<lparr>w_up := (w_up s)(c := ps),
                            w_down := (w_down s)(c := w_down s c @ (case ack of None \<Rightarrow> [] | Some a \<Rightarrow> [a])),
                            w_srv := srv', w_is_last := (last = 1 \<or> w_is_last s), w_spc := At_channels js\<rparr>)))
     | _ \<Rightarrow> None)"

definition server_loops :: "wires \<Rightarrow> wires option" where
  "server_loops s = (case w_spc s of
       At_channels [] \<Rightarrow> Some (s\<lparr>w_spc := (if w_is_last s then Gone else Selecting)\<rparr>)
     | _ \<Rightarrow> None)"

text \<open>SIGINT closes the sockets and ends the server with 0.\<close>

definition server_interrupt :: "wires \<Rightarrow> wires option" where
  "server_interrupt s = (if w_spc s = Gone \<or> is_Stopped (w_spc s) then None else Some (s\<lparr>w_spc := Stopped 0\<rparr>))"

text \<open>The descriptors closed at the end of \<open>main\<close>: the listening socket and the table.\<close>

definition server_closes :: "int \<Rightarrow> wires \<Rightarrow> int list" where
  "server_closes listenfd s = listenfd # w_sockfd s"

datatype wire_event = Connects outcome | Client action | Other_connects | Other_sends nat Packet
  | Wakes | Accepts int | Accept_fails | Serves bool | Loops | Interrupt

fun wire_step :: "bool \<Rightarrow> bool \<Rightarrow> bool \<Rightarrow> wire_event \<Rightarrow> wires \<Rightarrow> wires option" where
  "wire_step big patient first (Connects r) s = connect_channel r s"
| "wire_step big patient first (Client a) s = client_acts big patient a s"
| "wire_step big patient first Other_connects s = other_connects first s"
| "wire_step big patient first (Other_sends c p) s = other_sends c p s"
| "wire_step big patient first Wakes s = select_wakes s"
| "wire_step big patient first (Accepts d) s = server_accepts d s"
| "wire_step big patient first Accept_fails s = accept_fails s"
| "wire_step big patient first (Serves res) s = server_serves big res s"
| "wire_step big patient first Loops s = server_loops s"
| "wire_step big patient first Interrupt s = server_interrupt s"

inductive wire_reach :: "bool \<Rightarrow> bool \<Rightarrow> bool \<Rightarrow> wires \<Rightarrow> wires \<Rightarrow> bool" for big patient first s where
  here: "wire_reach big patient first s s"
| step: "wire_reach big patient first s t \<Longrightarrow> wire_step big patient first e t = Some u \<Longrightarrow> wire_reach big patient first s u"

fun wire_run :: "bool \<Rightarrow> bool \<Rightarrow> bool \<Rightarrow> wire_event list \<Rightarrow> wires \<Rightarrow> wires option" where
  "wire_run big patient first [] s = Some s"
| "wire_run big patient first (e # es) s =
     (case wire_step big patient first e s of None \<Rightarrow> None | Some t \<Rightarrow> wire_run big patient first es t)"

section \<open>Queues of connections\<close>

lemma put_queues_nth [simp]:
  "distinct cs \<Longrightarrow> i < length cs \<Longrightarrow> put_queues cs q old (cs ! i) = q i"
  by (simp add: put_queues_def map_of_zip_nth)

lemma put_queues_other [simp]: "c \<notin> set cs \<Longrightarrow> put_queues cs q old c = old c"
  by (auto simp: put_queues_def map_of_eq_None_iff [THEN iffD2] split: option.split dest: map_of_SomeD set_zip_leftD)

text \<open>The channels beyond the last one stay empty, whatever the timing.\<close>

fun pc_ok :: "cpc \<Rightarrow> bool" where
  "pc_ok (Send i) \<longleftrightarrow> i < NUM_CHANNELS"
| "pc_ok (Wait i) \<longleftrightarrow> i < NUM_CHANNELS"
| "pc_ok _ \<longleftrightarrow> True"

definition in_range :: "sys \<Rightarrow> bool" where
  "in_range s \<longleftrightarrow> pc_ok (cpc_of s) \<and> (\<forall>js. spc_of s = Serve js \<longrightarrow> set js \<subseteq> {..<NUM_CHANNELS})
     \<and> (\<forall>i \<ge> NUM_CHANNELS. up s i = [] \<and> down s i = [])"

lemma channel_0 [simp]: "0 < NUM_CHANNELS"
  by (simp add: NUM_CHANNELS_def)

lemma no_channel_0 [simp]: "NUM_CHANNELS \<le> i \<Longrightarrow> 0 < i"
  by (simp add: NUM_CHANNELS_def)

lemma pc_ok_loop [simp]: "pc_ok (loop_head c)"
  by (simp add: loop_head_def)

lemma pc_ok_after [simp]: "pc_ok (after_send big k p)" "pc_ok (after_wait big k c)"
  by (simp_all add: after_send_def after_wait_def)

lemma in_range_init: "in_range (init_sys F)"
  by (simp add: in_range_def init_sys_def)

lemma in_range_client_send: "in_range s \<Longrightarrow> client_send big s = Some t \<Longrightarrow> in_range t"
  by (auto simp: client_send_def in_range_def split: cpc.splits prod.splits)

lemma in_range_client_timeout: "in_range s \<Longrightarrow> client_timeout patient s = Some t \<Longrightarrow> in_range t"
  by (auto simp: client_timeout_def in_range_def split: cpc.splits if_splits)

lemma in_range_client_recv:
  assumes "in_range s" "client_recv big s = Some t"
  shows "in_range t"
proof -
  have range: "j < NUM_CHANNELS" if "after_wait big i c = Send j \<or> after_wait big i c = Wait j" for i c j
    using that pc_ok_after(2) by (metis pc_ok.simps(1,2))
  show ?thesis
    using assms by (auto simp: client_recv_def in_range_def Let_def intro: range [OF disjI1] range [OF disjI2]
        split: cpc.splits list.splits)
qed

lemma in_range_server:
  "in_range s \<Longrightarrow> server_select s = Some t \<or> server_serve big res s = Some t \<or> server_loop s = Some t \<Longrightarrow> in_range t"
  by (auto simp: server_select_def server_serve_def server_loop_def in_range_def Let_def
      split: spc.splits list.splits if_splits prod.splits)

lemma in_range_act: "in_range s \<Longrightarrow> act big patient a s = Some t \<Longrightarrow> in_range t"
  by (cases a) (auto intro: in_range_client_send in_range_client_timeout in_range_client_recv in_range_server)

lemma reachable_range: "reachable big patient F s \<Longrightarrow> in_range s"
  by (induction rule: reachable.induct) (auto intro: in_range_init in_range_act)


section \<open>The invariant\<close>

text \<open>
  The places of the table below \<open>k\<close> hold the sockets of the client, in order, and the others are
  empty; the connections of the client that are missing are first in the backlog.
\<close>

definition filled :: "nat \<Rightarrow> wires \<Rightarrow> bool" where
  "filled k s \<longleftrightarrow> k \<le> length (w_socks s) \<and> length (w_sockfd s) = NUM_CHANNELS
     \<and> (\<forall>i < NUM_CHANNELS. if i < k then 0 < w_sockfd s ! i \<and> w_conn_of s (w_sockfd s ! i) = Some (w_socks s ! i)
          else w_sockfd s ! i = 0)
     \<and> (k < NUM_CHANNELS \<longrightarrow> (\<exists>others. w_backlog s = drop k (w_socks s) @ others
          \<and> (w_phase s \<noteq> Transferring \<longrightarrow> others = [])))"

fun accept_ok :: "nat \<Rightarrow> server_pc \<Rightarrow> bool \<Rightarrow> bool" where
  "accept_ok k Selecting l \<longleftrightarrow> (k = 0 \<or> k = NUM_CHANNELS) \<and> \<not> l"
| "accept_ok k (Accepting i ready) l \<longleftrightarrow> i < NUM_CHANNELS \<and> \<not> l
     \<and> (k = i \<and> ready = [] \<or> k = NUM_CHANNELS \<and> set ready \<subseteq> {..<NUM_CHANNELS})"
| "accept_ok k (At_channels ready) l \<longleftrightarrow> k = NUM_CHANNELS \<and> set ready \<subseteq> {..<NUM_CHANNELS}"
| "accept_ok k _ l \<longleftrightarrow> True"

definition wires_ok :: "wires \<Rightarrow> bool" where
  "wires_ok s \<longleftrightarrow> distinct (w_socks s) \<and> set (w_socks s) \<subseteq> {..<w_conns s}
     \<and> length (w_socks s) \<le> NUM_CHANNELS
     \<and> (w_phase s = Transferring \<longleftrightarrow> length (w_socks s) = NUM_CHANNELS)
     \<and> (\<forall>c \<ge> w_conns s. w_up s c = [] \<and> w_down s c = [])
     \<and> (\<exists>k. filled k s \<and> accept_ok k (w_spc s) (w_is_last s))"

lemma wires_ok_start: "wires_ok (wires_start F)"
  by (auto simp: wires_ok_def wires_start_def filled_def intro!: exI [of _ 0])

lemma wires_okD:
  assumes "wires_ok s"
  shows "distinct (w_socks s)" "set (w_socks s) \<subseteq> {..<w_conns s}" "length (w_socks s) \<le> NUM_CHANNELS"
    "w_phase s = Transferring \<longleftrightarrow> length (w_socks s) = NUM_CHANNELS"
    "c \<ge> w_conns s \<Longrightarrow> w_up s c = [] \<and> w_down s c = []"
  using assms by (auto simp: wires_ok_def)

lemma filled_simps [simp]:
  "filled k (s\<lparr>w_cl := x, w_cpc := pc, w_up := u, w_down := d\<rparr>) = filled k s"
  "filled k (s\<lparr>w_up := u, w_down := d, w_srv := v, w_is_last := l\<rparr>) = filled k s"
  "filled k (s\<lparr>w_spc := q\<rparr>) = filled k s"
  by (simp_all add: filled_def)

lemma connect_channel_ok:
  assumes "wires_ok s" "connect_channel r s = Some t"
  shows "wires_ok t"
proof -
  from assms(1) obtain k where k: "filled k s" "accept_ok k (w_spc s) (w_is_last s)" by (auto simp: wires_ok_def)
  have ph: "w_phase s = Connecting" using assms(2) by (simp add: connect_channel_def split: if_splits)
  then have len: "length (w_socks s) < NUM_CHANNELS" using wires_okD(3,4) [OF assms(1)] by fastforce
  show ?thesis
  proof (cases "r = Success")
    case True
    then have t: "t = s\<lparr>w_phase := (if Suc (length (w_socks s)) < NUM_CHANNELS then Connecting else Transferring),
        w_socks := w_socks s @ [w_conns s], w_backlog := w_backlog s @ [w_conns s], w_conns := Suc (w_conns s)\<rparr>"
      using assms(2) ph by (simp add: connect_channel_def)
    have "filled k t"
      using k(1) len ph by (auto simp: filled_def t nth_append)
    then show ?thesis
      using wires_okD [OF assms(1)] k(2) len by (auto simp: wires_ok_def t)
  next
    case False
    then have t: "t = s\<lparr>w_phase := Gave_up 1\<rparr>" using assms(2) ph by (simp add: connect_channel_def)
    have "filled k t" using k(1) ph by (auto simp: filled_def t)
    then show ?thesis
      using wires_okD [OF assms(1)] k(2) len by (auto simp: wires_ok_def t)
  qed
qed

lemma wires_ok_queues:
  assumes "wires_ok s" "\<And>c. c \<ge> w_conns s \<Longrightarrow> u c = [] \<and> d c = []"
  shows "wires_ok (s\<lparr>w_cl := x, w_cpc := pc, w_up := u, w_down := d\<rparr>)"
  using assms by (auto simp: wires_ok_def)

lemma client_acts_ok:
  assumes "wires_ok s" "client_acts big patient a s = Some t"
  shows "wires_ok t"
proof -
  obtain v where t: "t = client_put v s" using assms(2) by (auto simp: client_acts_def split: if_splits)
  have "c \<notin> set (w_socks s)" if "c \<ge> w_conns s" for c using that wires_okD(2) [OF assms(1)] by auto
  then show ?thesis unfolding t client_put_def
    using wires_okD(5) [OF assms(1)] by (intro wires_ok_queues [OF assms(1)]) auto
qed

lemma others_ok:
  assumes "wires_ok s" "other_connects True s = Some t \<or> other_sends c p s = Some t"
  shows "wires_ok t"
proof -
  from assms(1) obtain k where k: "filled k s" "accept_ok k (w_spc s) (w_is_last s)" by (auto simp: wires_ok_def)
  from assms(2) have "filled k t"
    using k(1) by (auto simp: filled_def other_connects_def other_sends_def split: if_splits)
  then show ?thesis
    using assms wires_okD [OF assms(1)] k(2)
    by (auto simp: wires_ok_def other_connects_def other_sends_def split: if_splits)
qed

lemma server_waits_ok:
  assumes "wires_ok s" "select_wakes s = Some t \<or> accept_fails s = Some t \<or> server_loops s = Some t \<or> server_interrupt s = Some t"
  shows "wires_ok t"
proof -
  from assms(1) obtain k where k: "filled k s" "accept_ok k (w_spc s) (w_is_last s)" by (auto simp: wires_ok_def)
  have "filter (channel_readable s) [0..<NUM_CHANNELS] = []" if "k = 0"
    using k(1) that by (auto simp: filled_def channel_readable_def filter_empty_conv)
  then have ready: "k = 0 \<and> filter (channel_readable s) [0..<NUM_CHANNELS] = [] \<or> k = NUM_CHANNELS" if "w_spc s = Selecting"
    using k(2) that by auto
  obtain q where t: "t = s\<lparr>w_spc := q\<rparr>" "accept_ok k q (w_is_last s)"
    using assms(2) k(2) ready
    by (fastforce simp: select_wakes_def accept_fails_def server_loops_def server_interrupt_def Let_def
        split: if_splits server_pc.splits list.splits)
  then show ?thesis using wires_okD [OF assms(1)] k(1) by (auto simp: wires_ok_def)
qed

lemma server_acceptsE:
  assumes "server_accepts d s = Some t"
  obtains i ready c cs where "w_spc s = Accepting i ready" "w_backlog s = c # cs" "0 < d" "w_conn_of s d = None"
    "t = s\<lparr>w_backlog := cs, w_conn_of := (w_conn_of s)(d \<mapsto> c),
       w_sockfd := (if w_sockfd s ! i = 0 then (w_sockfd s)[i := d] else w_sockfd s),
       w_spc := (if Suc i < NUM_CHANNELS then Accepting (Suc i) ready else At_channels ready)\<rparr>"
  using assms by (auto simp: server_accepts_def split: server_pc.splits list.splits if_splits)

lemma server_accepts_ok:
  assumes "wires_ok s" "server_accepts d s = Some t"
  shows "wires_ok t"
proof -
  from assms(1) obtain k where k: "filled k s" "accept_ok k (w_spc s) (w_is_last s)" by (auto simp: wires_ok_def)
  obtain i ready c cs where s: "w_spc s = Accepting i ready" "w_backlog s = c # cs" "0 < d" "w_conn_of s d = None"
    and t: "t = s\<lparr>w_backlog := cs, w_conn_of := (w_conn_of s)(d \<mapsto> c),
       w_sockfd := (if w_sockfd s ! i = 0 then (w_sockfd s)[i := d] else w_sockfd s),
       w_spc := (if Suc i < NUM_CHANNELS then Accepting (Suc i) ready else At_channels ready)\<rparr>"
    using assms(2) by (rule server_acceptsE)
  have i: "i < NUM_CHANNELS" "\<not> w_is_last s" using k(2) s(1) by auto
  have "\<exists>k. filled k t \<and> accept_ok k (w_spc t) (w_is_last t)"
  proof (cases "k = NUM_CHANNELS")
    case True
    then have "filled k t" using k(1) s i by (auto simp: filled_def t)
    then show ?thesis using True k(2) s i by (auto simp: t intro!: exI [of _ k])
  next
    case False
    then have ki: "k = i" "ready = []" using k(2) s(1) by auto
    obtain others where o: "c # cs = drop i (w_socks s) @ others" "w_phase s \<noteq> Transferring \<longrightarrow> others = []"
      using k(1) ki i s(2) by (auto simp: filled_def)
    have "i < length (w_socks s)"
      using o wires_okD(4) [OF assms(1)] i(1) by (cases "i < length (w_socks s)") auto
    with o have c: "c = w_socks s ! i" "cs = drop (Suc i) (w_socks s) @ others" by (auto simp: Cons_nth_drop_Suc [symmetric])
    have "filled (Suc i) t"
      using k(1) ki s i c o \<open>i < length (w_socks s)\<close> by (auto simp: filled_def t nth_list_update less_Suc_eq)
    moreover have "accept_ok (Suc i) (w_spc t) (w_is_last t)" using ki i by (auto simp: t NUM_CHANNELS_def)
    ultimately show ?thesis by blast
  qed
  then show ?thesis using wires_okD [OF assms(1)] by (auto simp: wires_ok_def t)
qed

lemma server_servesE:
  assumes "server_serves big res s = Some t"
  obtains i js c p ps ack v l where "w_spc s = At_channels (i # js)" "w_conn_of s (w_sockfd s ! i) = Some c"
    "w_up s c = p # ps" "serve_connection big res p (w_srv s) = (ack, v, l)"
    "t = s\<lparr>w_up := (w_up s)(c := ps), w_down := (w_down s)(c := w_down s c @ (case ack of None \<Rightarrow> [] | Some a \<Rightarrow> [a])),
       w_srv := v, w_is_last := (l = 1 \<or> w_is_last s), w_spc := At_channels js\<rparr>"
proof -
  obtain i js where a: "w_spc s = At_channels (i # js)"
    using assms by (auto simp: server_serves_def split: server_pc.splits list.splits)
  obtain c where b: "w_conn_of s (w_sockfd s ! i) = Some c"
    using assms a by (auto simp: server_serves_def split: option.splits)
  obtain p ps where c: "w_up s c = p # ps"
    using assms a b by (auto simp: server_serves_def split: list.splits)
  obtain ack v l where "serve_connection big res p (w_srv s) = (ack, v, l)"
    by (cases "serve_connection big res p (w_srv s)")
  then show thesis using that a b c assms by (simp add: server_serves_def)
qed

lemma server_serves_ok:
  assumes "wires_ok s" "server_serves big res s = Some t"
  shows "wires_ok t"
proof -
  from assms(1) obtain k where k: "filled k s" "accept_ok k (w_spc s) (w_is_last s)" by (auto simp: wires_ok_def)
  from assms(2) show ?thesis
  proof (cases rule: server_servesE)
    case (1 i js c p ps ack v l)
    then have "c = w_socks s ! i" "i < NUM_CHANNELS" "k = NUM_CHANNELS" using k by (auto simp: filled_def)
    moreover have "i < length (w_socks s)" using calculation k(1) by (simp add: filled_def)
    ultimately have "c < w_conns s" using wires_okD(2) [OF assms(1)] nth_mem by fastforce
    then show ?thesis using wires_okD [OF assms(1)] k 1 by (auto simp: wires_ok_def)
  qed
qed

lemma wire_step_ok:
  assumes "wires_ok s" "wire_step big patient True e s = Some t"
  shows "wires_ok t"
  using assms
  by (cases e) (auto intro: connect_channel_ok client_acts_ok others_ok server_waits_ok server_accepts_ok server_serves_ok)

section \<open>The transfer over the connections\<close>

text \<open>
  The server of \<open>Stop_And_Wait\<close> is in \<open>select\<close> while connections are accepted that came alone, and
  serves the reported channels otherwise.
\<close>

fun pc_implements :: "server_pc \<Rightarrow> bool \<Rightarrow> spc \<Rightarrow> bool" where
  "pc_implements Selecting l x \<longleftrightarrow> x = Select"
| "pc_implements (Accepting i ready) l x \<longleftrightarrow> x = (if ready = [] then Select else Serve ready)"
| "pc_implements (At_channels ready) l x \<longleftrightarrow> x = Serve ready \<or> ready = [] \<and> \<not> l \<and> x = Select"
| "pc_implements Gone l x \<longleftrightarrow> x = Closed"
| "pc_implements (Stopped n) l x \<longleftrightarrow> True"

definition wires_implement :: "wires \<Rightarrow> sys \<Rightarrow> bool" where
  "wires_implement s t \<longleftrightarrow> t\<lparr>spc_of := Select\<rparr> = client_side s \<and> pc_implements (w_spc s) (w_is_last s) (spc_of t)"

lemma implements_start: "wires_implement (wires_start F) (init_sys F)"
  by (simp add: wires_implement_def client_side_def wires_start_def init_sys_def)

lemma implement_fields:
  assumes "wires_implement s t"
  shows "cl t = w_cl s" "cpc_of t = w_cpc s" "srv t = w_srv s" "s_is_last t = w_is_last s"
    "up t i = (if i < length (w_socks s) then w_up s (w_socks s ! i) else [])"
    "down t i = (if i < length (w_socks s) then w_down s (w_socks s ! i) else [])"
    "pc_implements (w_spc s) (w_is_last s) (spc_of t)"
proof -
  have "t\<lparr>spc_of := Select\<rparr> = client_side s" using assms by (simp add: wires_implement_def)
  then show "cl t = w_cl s" "cpc_of t = w_cpc s" "srv t = w_srv s" "s_is_last t = w_is_last s"
    "up t i = (if i < length (w_socks s) then w_up s (w_socks s ! i) else [])"
    "down t i = (if i < length (w_socks s) then w_down s (w_socks s ! i) else [])"
    by (auto simp: client_side_def dest: arg_cong [of _ _ cl] arg_cong [of _ _ cpc_of] arg_cong [of _ _ srv]
        arg_cong [of _ _ s_is_last] arg_cong [of _ _ up] arg_cong [of _ _ down])
qed (use assms in \<open>simp add: wires_implement_def\<close>)

lemma implementI:
  assumes "cl t = w_cl s" "cpc_of t = w_cpc s" "srv t = w_srv s" "s_is_last t = w_is_last s"
    "\<And>i. up t i = (if i < length (w_socks s) then w_up s (w_socks s ! i) else [])"
    "\<And>i. down t i = (if i < length (w_socks s) then w_down s (w_socks s ! i) else [])"
    "pc_implements (w_spc s) (w_is_last s) (spc_of t)"
  shows "wires_implement s t"
  using assms unfolding wires_implement_def client_side_def
  by (cases t) (auto simp: fun_eq_iff)

lemma connect_simulated:
  assumes "wires_ok s" "wires_implement s t" "connect_channel r s = Some u"
  shows "wires_implement u t"
proof (rule implementI)
  note f = implement_fields [OF assms(2)]
  have fresh: "w_up s (w_conns s) = []" "w_down s (w_conns s) = []" using wires_okD(5) [OF assms(1)] by auto
  show "up t i = (if i < length (w_socks u) then w_up u (w_socks u ! i) else [])" for i
    using assms(3) fresh by (auto simp: f connect_channel_def nth_append split: if_splits)
  show "down t i = (if i < length (w_socks u) then w_down u (w_socks u ! i) else [])" for i
    using assms(3) fresh by (auto simp: f connect_channel_def nth_append split: if_splits)
qed (use assms(3) implement_fields [OF assms(2)] in \<open>auto simp: connect_channel_def split: if_splits\<close>)

text \<open>A step of the client depends on its own part of the state only.\<close>

lemma client_act_spc:
  "of_client a \<Longrightarrow> act big patient a (t\<lparr>spc_of := x\<rparr>) = map_option (\<lambda>v. v\<lparr>spc_of := x\<rparr>) (act big patient a t)"
  by (cases a) (auto simp: client_send_def client_timeout_def client_recv_def poll_times_out_def Let_def
      split: cpc.split list.split prod.split)

lemma client_act_keeps:
  "of_client a \<Longrightarrow> act big patient a t = Some v \<Longrightarrow> srv v = srv t \<and> s_is_last v = s_is_last t \<and> spc_of v = spc_of t"
  by (cases a) (auto simp: client_send_def client_timeout_def client_recv_def Let_def
      split: cpc.splits list.splits prod.splits if_splits)

lemma client_simulated:
  assumes "wires_ok s" "wires_implement s t" "in_range t" "client_acts big patient a s = Some u"
  obtains v where "act big patient a t = Some v" "wires_implement u v"
proof -
  from assms(4) obtain w where w: "of_client a" "w_phase s = Transferring" "act big patient a (client_side s) = Some w"
    "u = client_put w s"
    by (auto simp: client_acts_def split: if_splits)
  have "client_side s = t\<lparr>spc_of := Select\<rparr>" using assms(2) by (simp add: wires_implement_def)
  with w client_act_spc [where t = t and x = Select] obtain v where v: "act big patient a t = Some v" "w = v\<lparr>spc_of := Select\<rparr>"
    by auto
  have len: "length (w_socks s) = NUM_CHANNELS" using wires_okD(4) [OF assms(1)] w(2) by simp
  have "in_range v" using in_range_act assms(3) v(1) by blast
  then have "wires_implement u v"
    using client_act_keeps [OF w(1) v(1)] implement_fields [OF assms(2)] wires_okD(1) [OF assms(1)] len
    by (intro implementI) (auto simp: w(4) v(2) client_put_def in_range_def)
  with v(1) that show thesis by blast
qed

lemma others_simulated:
  assumes "wires_implement s t" "other_connects True s = Some u \<or> other_sends c p s = Some u"
  shows "wires_implement u t"
  using assms(2) implement_fields [OF assms(1)]
  by (intro implementI) (auto simp: other_connects_def other_sends_def split: if_splits)

lemma stops_simulated:
  assumes "wires_implement s t" "accept_fails s = Some u \<or> server_interrupt s = Some u"
  shows "wires_implement u t"
proof -
  obtain n where "u = s\<lparr>w_spc := Stopped n\<rparr>"
    using assms(2) by (auto simp: accept_fails_def server_interrupt_def split: server_pc.splits if_splits)
  then show ?thesis using implement_fields [OF assms(1)] by (intro implementI) auto
qed

lemma accepts_simulated:
  assumes "wires_implement s t" "wires_ok s" "server_accepts d s = Some u"
  shows "wires_implement u t"
proof -
  note f = implement_fields [OF assms(1)]
  from assms(3) show ?thesis
  proof (cases rule: server_acceptsE)
    case (1 i ready c cs)
    moreover have "\<not> w_is_last s" using assms(2) 1(1) by (auto simp: wires_ok_def)
    ultimately show ?thesis using f by (intro implementI) auto
  qed
qed

lemma select_simulated:
  assumes "reachable big patient F t" "wires_implement s t" "wires_ok s" "select_wakes s = Some u"
  shows "\<exists>v. reachable big patient F v \<and> wires_implement u v"
proof -
  define ready where "ready = filter (channel_readable s) [0..<NUM_CHANNELS]"
  note f = implement_fields [OF assms(2)]
  from assms(4) have s: "w_spc s = Selecting" and u: "u = s\<lparr>w_spc := (if w_backlog s = [] then At_channels ready else Accepting 0 ready)\<rparr>"
    and some: "w_backlog s = [] \<Longrightarrow> ready \<noteq> []"
    by (auto simp: select_wakes_def ready_def Let_def split: if_splits)
  have sel: "spc_of t = Select" using f(7) s by simp
  from assms(3) s obtain k where k: "filled k s" "k = 0 \<or> k = NUM_CHANNELS" by (auto simp: wires_ok_def)
  show ?thesis
  proof (cases "ready = []")
    case True
    then have "wires_implement u t" using f some sel by (intro implementI) (auto simp: u)
    with assms(1) show ?thesis by blast
  next
    case False
    then have "k = NUM_CHANNELS" using k by (auto simp: filled_def ready_def channel_readable_def filter_empty_conv)
    then have "ready = filter (\<lambda>i. up t i \<noteq> []) [0..<NUM_CHANNELS]"
      using k(1) unfolding ready_def by (intro filter_cong) (auto simp: filled_def channel_readable_def f)
    then have "act big patient SSelect t = Some (t\<lparr>spc_of := Serve ready\<rparr>)"
      using False sel by (simp add: server_select_def Let_def)
    then have "reachable big patient F (t\<lparr>spc_of := Serve ready\<rparr>)" by (rule reachable.step [OF assms(1)])
    moreover have "wires_implement u (t\<lparr>spc_of := Serve ready\<rparr>)" using f False by (intro implementI) (auto simp: u)
    ultimately show ?thesis by blast
  qed
qed

lemma loops_simulated:
  assumes "reachable big patient F t" "wires_implement s t" "server_loops s = Some u"
  shows "\<exists>v. reachable big patient F v \<and> wires_implement u v"
proof -
  note f = implement_fields [OF assms(2)]
  from assms(3) have s: "w_spc s = At_channels []" and u: "u = s\<lparr>w_spc := (if w_is_last s then Gone else Selecting)\<rparr>"
    by (auto simp: server_loops_def split: server_pc.splits list.splits)
  show ?thesis
  proof (cases "spc_of t = Serve []")
    case True
    then have "act big patient SLoop t = Some (t\<lparr>spc_of := (if s_is_last t then Closed else Select)\<rparr>)"
      by (simp add: server_loop_def)
    from reachable.step [OF assms(1) this] show ?thesis
      using f by (intro exI [of _ "t\<lparr>spc_of := (if s_is_last t then Closed else Select)\<rparr>"] conjI implementI) (auto simp: u)
  next
    case False
    then have "wires_implement u t" using f s by (intro implementI) (auto simp: u)
    with assms(1) show ?thesis by blast
  qed
qed

lemma serves_simulated:
  assumes "reachable big patient F t" "wires_implement s t" "wires_ok s" "server_serves big res s = Some u"
  shows "\<exists>v. reachable big patient F v \<and> wires_implement u v"
proof -
  note f = implement_fields [OF assms(2)]
  from assms(3) obtain k where k: "filled k s" "accept_ok k (w_spc s) (w_is_last s)" by (auto simp: wires_ok_def)
  from assms(4) show ?thesis
  proof (cases rule: server_servesE)
    case (1 i js c p ps ack v l)
    then have "k = NUM_CHANNELS" "i < NUM_CHANNELS" using k(2) by auto
    moreover from this have i: "c = w_socks s ! i" "i < length (w_socks s)" using k(1) 1(2) by (auto simp: filled_def)
    ultimately have up: "up t i = p # ps" and sel: "spc_of t = Serve (i # js)" using f 1(1,3) by auto
    define w where "w = t\<lparr>up := (up t)(i := ps), down := (down t)(i := down t i @ (case ack of None \<Rightarrow> [] | Some a \<Rightarrow> [a])),
      srv := v, s_is_last := (l = 1 \<or> s_is_last t), spc_of := Serve js\<rparr>"
    have "act big patient (SServe res) t = Some w"
      using up sel 1(4) f(3) by (simp add: server_serve_def w_def)
    then have w: "reachable big patient F w" by (rule reachable.step [OF assms(1)])
    have "wires_implement u w"
      using f i wires_okD(1) [OF assms(3)] by (intro implementI) (auto simp: 1(5) w_def nth_eq_iff_index_eq)
    with w show ?thesis by blast
  qed
qed

lemma wire_step_simulated:
  assumes "reachable big patient F t" "wires_implement s t" "wires_ok s" "wire_step big patient True e s = Some u"
  shows "\<exists>v. reachable big patient F v \<and> wires_implement u v"
proof (cases e)
  case (Client a)
  then obtain v where "act big patient a t = Some v" "wires_implement u v"
    using assms client_simulated reachable_range by (metis wire_step.simps(2))
  then show ?thesis using reachable.step [OF assms(1)] by blast
qed (use assms in \<open>auto intro: connect_simulated others_simulated accepts_simulated stops_simulated
    select_simulated loops_simulated serves_simulated\<close>)

lemma wire_reach_simulated:
  assumes "wire_reach big patient True (wires_start F) s"
  shows "wires_ok s \<and> (\<exists>t. reachable big patient F t \<and> wires_implement s t)"
  using assms
proof (induction rule: wire_reach.induct)
  case here
  then show ?case using wires_ok_start implements_start reachable.start by blast
next
  case (step t e u)
  then show ?case using wire_step_ok wire_step_simulated by blast
qed

lemma wire_run_reach:
  "wire_reach big patient first r s \<Longrightarrow> wire_run big patient first es s = Some t \<Longrightarrow> wire_reach big patient first r t"
  by (induction es arbitrary: s) (auto split: option.splits intro: wire_reach.step)

section \<open>Connections outside the table\<close>

text \<open>The table is full, and connection \<open>c\<close> is not in it.\<close>

definition unserved :: "nat \<Rightarrow> wires \<Rightarrow> bool" where
  "unserved c s \<longleftrightarrow> 0 \<notin> set (w_sockfd s) \<and> length (w_sockfd s) = NUM_CHANNELS \<and> (\<forall>d \<in> set (w_sockfd s). w_conn_of s d \<noteq> None \<and> w_conn_of s d \<noteq> Some c)
     \<and> (\<forall>i ready. w_spc s = Accepting i ready \<longrightarrow> i < NUM_CHANNELS \<and> set ready \<subseteq> {..<NUM_CHANNELS})
     \<and> (\<forall>ready. w_spc s = At_channels ready \<longrightarrow> set ready \<subseteq> {..<NUM_CHANNELS})"

lemma unserved_simps [simp]:
  "unserved c (s\<lparr>w_up := u\<rparr>) = unserved c s" "unserved c (s\<lparr>w_down := u\<rparr>) = unserved c s"
  "unserved c (s\<lparr>w_cl := x\<rparr>) = unserved c s" "unserved c (s\<lparr>w_cpc := y\<rparr>) = unserved c s"
  "unserved c (s\<lparr>w_srv := v\<rparr>) = unserved c s" "unserved c (s\<lparr>w_is_last := l\<rparr>) = unserved c s"
  "unserved c (s\<lparr>w_socks := cs\<rparr>) = unserved c s" "unserved c (s\<lparr>w_conns := n\<rparr>) = unserved c s"
  "unserved c (s\<lparr>w_phase := ph\<rparr>) = unserved c s" "unserved c (s\<lparr>w_backlog := cs\<rparr>) = unserved c s"
  by (simp_all add: unserved_def)

lemma unserved_accepts:
  assumes "unserved c s" "server_accepts d s = Some t"
  shows "unserved c t"
  using assms(2)
proof (cases rule: server_acceptsE)
  case (1 i ready c' cs)
  then have "w_sockfd s ! i \<noteq> 0" using assms(1) nth_mem by (metis unserved_def)
  then show ?thesis using 1 assms(1) by (auto simp: unserved_def)
qed

lemma unserved_clients:
  "unserved c s \<Longrightarrow> connect_channel r s = Some t \<or> client_acts big patient a s = Some t \<or> other_connects first s = Some t
     \<or> other_sends c' p s = Some t \<Longrightarrow> unserved c t"
  by (auto simp: connect_channel_def client_acts_def client_put_def other_connects_def other_sends_def split: if_splits)

lemma unserved_serves:
  assumes "unserved c s" "server_serves big res s = Some t"
  shows "unserved c t"
  using assms(2)
  by (cases rule: server_servesE) (use assms(1) in \<open>auto simp: unserved_def\<close>)

lemma unserved_waits:
  assumes "unserved c s" "select_wakes s = Some t \<or> accept_fails s = Some t \<or> server_loops s = Some t \<or> server_interrupt s = Some t"
  shows "unserved c t"
proof -
  have "unserved c (s\<lparr>w_spc := q\<rparr>)" if "q \<in> {Selecting, Gone, Stopped 0, Stopped 1, At_channels (filter (channel_readable s) [0..<NUM_CHANNELS]),
      Accepting 0 (filter (channel_readable s) [0..<NUM_CHANNELS])}" for q
    using assms(1) that by (auto simp: unserved_def)
  moreover have "\<exists>q \<in> {Selecting, Gone, Stopped 0, Stopped 1, At_channels (filter (channel_readable s) [0..<NUM_CHANNELS]),
      Accepting 0 (filter (channel_readable s) [0..<NUM_CHANNELS])}. t = s\<lparr>w_spc := q\<rparr>"
    using assms(2)
    by (auto simp: select_wakes_def accept_fails_def server_loops_def server_interrupt_def Let_def
        split: if_splits server_pc.splits list.splits)
  ultimately show ?thesis by blast
qed

lemma unserved_step:
  assumes "unserved c s" "wire_step big patient first e s = Some t"
  shows "unserved c t"
  using assms
  by (cases e) (auto intro: unserved_clients unserved_serves unserved_accepts unserved_waits)

text \<open>A step of the client writes to its channels and takes answers from them, never the reverse.\<close>

lemma client_act_queues:
  assumes "of_client a" "act big patient a s = Some t"
  shows "prefix (up s i) (up t i) \<and> suffix (down t i) (down s i)"
  using assms
  by (cases a) (auto simp: client_send_def client_timeout_def client_recv_def Let_def suffix_Cons
      split: cpc.splits list.splits prod.splits if_splits)

lemma put_queues_cases:
  "put_queues cs q old c = old c \<or> (\<exists>i < length cs. cs ! i = c \<and> put_queues cs q old c = q i)"
proof (cases "map_of (zip cs (map q [0..<length cs])) c")
  case (Some x)
  then obtain i where "i < length cs" "cs ! i = c" "q i = x" by (auto dest!: map_of_SomeD simp: in_set_zip)
  with Some show ?thesis by (auto simp: put_queues_def)
qed simp

lemma client_acts_queues:
  assumes "client_acts big patient a s = Some t"
  shows "prefix (w_up s c) (w_up t c) \<and> suffix (w_down t c) (w_down s c)"
proof -
  obtain v where v: "of_client a" "act big patient a (client_side s) = Some v" and t: "t = client_put v s"
    using assms by (auto simp: client_acts_def split: if_splits)
  have "prefix (w_up s (w_socks s ! i)) (up v i) \<and> suffix (down v i) (w_down s (w_socks s ! i))" if "i < length (w_socks s)" for i
    using client_act_queues [OF v, of i] that by (simp add: client_side_def)
  then show ?thesis
    using put_queues_cases [of "w_socks s" "up v" "w_up s" c] put_queues_cases [of "w_socks s" "down v" "w_down s" c]
    by (simp add: t client_put_def) (metis prefix_order.refl suffix_order.refl)
qed

lemma serves_in_table:
  assumes "unserved c s" "server_serves big res s = Some t"
  shows "w_up t c = w_up s c \<and> w_down t c = w_down s c"
  using assms(2)
proof (cases rule: server_servesE)
  case (1 i js c' p ps ack v l)
  then have "w_sockfd s ! i \<in> set (w_sockfd s)" using assms(1) by (auto simp: unserved_def)
  then have "c' \<noteq> c" using assms(1) 1(2) by (auto simp: unserved_def)
  then show ?thesis using 1(5) by simp
qed

lemma unserved_queue_step:
  assumes "unserved c s" "wire_step big patient first e s = Some t"
  shows "prefix (w_up s c) (w_up t c) \<and> suffix (w_down t c) (w_down s c)"
proof (cases e)
  case (Client a)
  with assms(2) show ?thesis by (simp add: client_acts_queues)
next
  case (Serves res)
  with assms serves_in_table show ?thesis by fastforce
next
  case (Accepts d)
  with assms(2) have "server_accepts d s = Some t" by simp
  then show ?thesis by (cases rule: server_acceptsE) simp
qed (use assms(2) in \<open>auto simp: connect_channel_def other_connects_def other_sends_def select_wakes_def accept_fails_def
    server_loops_def server_interrupt_def Let_def split: if_splits server_pc.splits list.splits\<close>)

lemma unserved_reach:
  assumes "wire_reach big patient first s t" "unserved c s"
  shows "unserved c t \<and> prefix (w_up s c) (w_up t c) \<and> suffix (w_down t c) (w_down s c)"
  using assms
proof (induction rule: wire_reach.induct)
  case (step t e u)
  then show ?case
    using unserved_step unserved_queue_step prefix_order.trans suffix_order.trans by blast
qed simp

lemma full_table_unserved:
  assumes "wires_ok s" "0 \<notin> set (w_sockfd s)" "c \<notin> set (w_socks s)"
  shows "unserved c s"
proof -
  from assms(1) obtain k where k: "filled k s" "accept_ok k (w_spc s) (w_is_last s)" by (auto simp: wires_ok_def)
  then have "w_sockfd s ! i \<noteq> 0" if "i < NUM_CHANNELS" for i
    using that assms(2) nth_mem by (metis filled_def)
  then have all: "w_conn_of s (w_sockfd s ! i) = Some (w_socks s ! i) \<and> i < length (w_socks s)" if "i < NUM_CHANNELS" for i
    using k(1) that by (fastforce simp: filled_def split: if_split_asm)
  have "w_conn_of s d \<noteq> None \<and> w_conn_of s d \<noteq> Some c" if "d \<in> set (w_sockfd s)" for d
    using that all assms(3) k(1) nth_mem by (fastforce simp: in_set_conv_nth filled_def)
  then show ?thesis using assms(2) k by (auto simp: unserved_def filled_def)
qed

lemma others_unanswered:
  assumes "wire_reach big patient True (wires_start F) s"
  shows "c \<notin> set (w_socks s) \<longrightarrow> w_down s c = []"
  using assms
proof (induction rule: wire_reach.induct)
  case here
  then show ?case by (simp add: wires_start_def)
next
  case (step s e t)
  have ok: "wires_ok s" using wire_reach_simulated [OF step.hyps(1)] by blast
  show ?case
  proof (cases e)
    case (Serves res)
    from ok obtain k where k: "filled k s" "accept_ok k (w_spc s) (w_is_last s)" by (auto simp: wires_ok_def)
    from step.hyps(2) Serves have "server_serves big res s = Some t" by simp
    then show ?thesis
    proof (cases rule: server_servesE)
      case (1 i js c' p ps ack v l)
      then have "c' \<in> set (w_socks s)" using k by (auto simp: filled_def)
      then show ?thesis using 1(5) step.IH by auto
    qed
  next
    case (Client a)
    with step show ?thesis
      by (auto simp: client_acts_def client_put_def split: if_splits)
  next
    case (Accepts d)
    with step.hyps(2) have "server_accepts d s = Some t" by simp
    then show ?thesis by (cases rule: server_acceptsE) (use step.IH in simp)
  qed (use step in \<open>auto simp: connect_channel_def other_connects_def other_sends_def select_wakes_def accept_fails_def
    server_loops_def server_interrupt_def Let_def split: if_splits server_pc.splits list.splits\<close>)
qed

section \<open>Main results\<close>

text \<open>
  A run in which three other connections follow those of the client, the server fills its table,
  accepts the others, and the file is transferred with one packet dropped.
\<close>

definition setup_events :: "wire_event list" where
  "setup_events = replicate 3 (Connects Success) @ replicate 3 Other_connects
     @ [Wakes, Accepts 4, Accepts 5, Accepts 6, Loops, Other_sends 4 zero_packet]"

definition crowd_events :: "wire_event list" where
  "crowd_events = setup_events @ [Wakes, Accepts 7, Accepts 8, Accepts 9, Loops, Client CSend, Client CSend,
     Wakes, Serves True, Serves False, Loops, Client CTimeout, Wakes, Serves False, Loops,
     Client CRecv, Client CRecv, Wakes, Serves False, Loops, Client CRecv]"

lemma put_queues_three:
  "put_queues [0, Suc 0, Suc (Suc 0)] q old = old(0 := q 0, Suc 0 := q (Suc 0), Suc (Suc 0) := q (Suc (Suc 0)))"
  by (auto simp: put_queues_def fun_eq_iff)

lemmas wire_eval = wires_start_def connect_channel_def client_acts_def client_side_def client_put_def put_queues_three
  other_connects_def other_sends_def channel_readable_def select_wakes_def server_accepts_def server_serves_def
  server_loops_def setup_events_def crowd_events_def

lemma setup_run:
  "\<exists>s. wire_run big True True setup_events (wires_start F) = Some s \<and> w_socks s = [0, 1, 2]
     \<and> w_sockfd s = [4, 5, 6] \<and> w_up s 4 = [zero_packet] \<and> w_spc s = Selecting"
  by (simp add: wire_eval Let_def numeral_3_eq_3 NUM_CHANNELS_def)

lemma crowd_run:
  "\<exists>s. wire_run big True True crowd_events (wires_start ''ab'') = Some s \<and> w_cpc s = Finished \<and> w_spc s = Gone"
  by (simp add: run_eval wire_eval numeral_3_eq_3)

text \<open>
  C10. Whatever other clients do after the client has connected, and wherever the kernel
  schedules the two programs, the client, the server and the connections between them are in a
  state of the transfer of \<open>Stop_And_Wait\<close>: the queues of its channels are those of the sockets
  that the client opened in this order.
\<close>

theorem channel_setup_refines:
  assumes "wire_reach big patient True (wires_start F) s"
  shows "\<exists>t. reachable big patient F t \<and> cl t = w_cl s \<and> cpc_of t = w_cpc s \<and> srv t = w_srv s
    \<and> (\<forall>i < length (w_socks s). up t i = w_up s (w_socks s ! i) \<and> down t i = w_down s (w_socks s ! i))
    \<and> (is_Stopped (w_spc s) \<or> (spc_of t = Closed \<longleftrightarrow> w_spc s = Gone))"
proof -
  obtain t where t: "reachable big patient F t" "wires_implement s t" using wire_reach_simulated [OF assms] by blast
  have "spc_of t = Closed \<longleftrightarrow> w_spc s = Gone" if "\<not> is_Stopped (w_spc s)"
    using implement_fields(7) [OF t(2)] that by (cases "w_spc s") auto
  then show ?thesis using t(1) implement_fields [OF t(2)] by (metis (no_types, lifting))
qed

theorem channel_setup_refines_witness:
  "\<exists>s t. wire_run False True True crowd_events (wires_start ''ab'') = Some s \<and> reachable False True ''ab'' t
     \<and> cpc_of t = Finished \<and> spc_of t = Closed"
proof -
  obtain s where s: "wire_run False True True crowd_events (wires_start ''ab'') = Some s" "w_cpc s = Finished" "w_spc s = Gone"
    using crowd_run by blast
  have "wire_reach False True True (wires_start ''ab'') s" using wire_run_reach [OF wire_reach.here s(1)] .
  from channel_setup_refines [OF this] s show ?thesis by auto
qed

text \<open>
  A client that connects before all others gets its file through, whatever the others do:
  when its connection loop is over and no timeout came early, the server's file has the bytes
  that the chunks of the file carry.
\<close>

theorem first_client_served:
  assumes "wire_reach big True True (wires_start F) s" "length F < 2 ^ 64 - 1" "w_cpc s = Finished"
  shows "s_fp (w_srv s) = expected F"
proof -
  obtain t where t: "reachable big True F t" "wires_implement s t" using wire_reach_simulated [OF assms(1)] by blast
  have "\<not> in_transfer t" using implement_fields(2) [OF t(2)] assms(3) by (simp add: in_transfer_def)
  then show ?thesis
    using inv_done_file [OF reachable_inv [OF t(1) assms(2)]] implement_fields(3) [OF t(2)] by simp
qed

theorem first_client_served_witness:
  "\<exists>s. wire_run False True True crowd_events (wires_start ''ab'') = Some s \<and> s_fp (w_srv s) = expected ''ab''"
proof -
  obtain s where s: "wire_run False True True crowd_events (wires_start ''ab'') = Some s" "w_cpc s = Finished"
    using crowd_run by blast
  have "wire_reach False True True (wires_start ''ab'') s" using wire_run_reach [OF wire_reach.here s(1)] .
  from first_client_served [OF this _ s(2)] s(1) show ?thesis by auto
qed

text \<open>
  C28. Once the table of the server is full, a connection of another client is accepted but never
  served: what is written to it stays unread for ever, and nothing is ever written back.
\<close>

theorem later_client_ignored:
  assumes "wire_reach big patient True (wires_start F) s" "0 \<notin> set (w_sockfd s)" "c \<notin> set (w_socks s)"
    "wire_reach big patient True s t"
  shows "prefix (w_up s c) (w_up t c) \<and> w_down t c = []"
proof -
  have "unserved c s" using wire_reach_simulated [OF assms(1)] full_table_unserved assms(2,3) by blast
  moreover have "w_down s c = []" using others_unanswered [OF assms(1)] assms(3) by blast
  ultimately show ?thesis using unserved_reach [OF assms(4), of c] by simp
qed

theorem later_client_ignored_witness:
  "\<exists>s t. wire_run False True True setup_events (wires_start ''ab'') = Some s
     \<and> wire_run False True True [Wakes, Accepts 7, Accepts 8, Accepts 9, Loops] s = Some t
     \<and> prefix [zero_packet] (w_up t 4) \<and> w_down t 4 = []"
proof -
  obtain s t where s: "wire_run False True True setup_events (wires_start ''ab'') = Some s" "w_socks s = [0, 1, 2]"
      "w_sockfd s = [4, 5, 6]" "w_up s 4 = [zero_packet]"
    and t: "wire_run False True True [Wakes, Accepts 7, Accepts 8, Accepts 9, Loops] s = Some t"
    by (simp add: wire_eval Let_def numeral_3_eq_3 NUM_CHANNELS_def)
  have "wire_reach False True True (wires_start ''ab'') s" "wire_reach False True True s t"
    using wire_run_reach [OF wire_reach.here] s(1) t by blast+
  from later_client_ignored [OF this(1) _ _ this(2), of 4] s t show ?thesis by auto
qed

text \<open>The events that can end the wait of a server in \<open>accept\<close>.\<close>

fun ends_accept :: "wire_event \<Rightarrow> bool" where
  "ends_accept (Connects r) = True"
| "ends_accept Other_connects = True"
| "ends_accept Accept_fails = True"
| "ends_accept Interrupt = True"
| "ends_accept _ = False"

lemma accept_blocks:
  assumes "w_spc s = Accepting i ready" "w_backlog s = []" "wire_step big patient first e s = Some t" "\<not> ends_accept e"
  shows "w_spc t = Accepting i ready \<and> w_backlog t = [] \<and> w_srv t = w_srv s \<and> w_is_last t = w_is_last s"
  using assms
  by (cases e) (auto simp: client_acts_def client_put_def other_sends_def select_wakes_def server_accepts_def
      server_serves_def server_loops_def split: if_splits)

text \<open>
  The server accepts connections in threes. After a single further connection it waits in
  \<open>accept\<close>: until somebody connects again, no packet of the transfer is read and the file does not
  change, however often the client sends again.
\<close>

theorem lone_connection_stalls:
  assumes "w_spc s = Accepting i ready" "w_backlog s = []" "wire_run big patient first es s = Some t"
    "\<forall>e \<in> set es. \<not> ends_accept e"
  shows "w_spc t = Accepting i ready \<and> w_srv t = w_srv s"
  using assms
proof (induction es arbitrary: s)
  case (Cons e es)
  then obtain u where u: "wire_step big patient first e s = Some u" "wire_run big patient first es u = Some t"
    by (auto split: option.splits)
  from accept_blocks [OF Cons.prems(1,2) u(1)] Cons.prems(4)
  have "w_spc u = Accepting i ready" "w_backlog u = []" "w_srv u = w_srv s" by auto
  with Cons.IH [OF this(1,2) u(2)] Cons.prems(4) show ?case by auto
qed simp

definition stall_events :: "wire_event list" where
  "stall_events = replicate 3 (Connects Success) @ [Wakes, Accepts 4, Accepts 5, Accepts 6, Loops, Client CSend,
     Other_connects, Wakes, Accepts 7]"

theorem lone_connection_stalls_witness:
  "\<exists>s t. wire_run False True True stall_events (wires_start ''ab'') = Some s \<and> w_up s 0 \<noteq> []
     \<and> wire_run False True True [Client CSend] s = Some t \<and> w_spc t = Accepting 1 [0] \<and> s_fp (w_srv t) = []"
proof -
  obtain s t where s: "wire_run False True True stall_events (wires_start ''ab'') = Some s" "w_spc s = Accepting 1 [0]"
      "w_backlog s = []" "w_up s 0 \<noteq> []" "s_fp (w_srv s) = []"
    and t: "wire_run False True True [Client CSend] s = Some t"
    by (simp add: run_eval wire_eval stall_events_def numeral_3_eq_3)
  from lone_connection_stalls [OF s(2,3) t] s t show ?thesis by auto
qed

text \<open>
  When another client connects between two connections of the client, its connection takes the
  place in the table; the packets of the last channel are never read.
\<close>

definition mixed_events :: "wire_event list" where
  "mixed_events = [Connects Success, Connects Success, Other_connects, Connects Success,
     Wakes, Accepts 4, Accepts 5, Accepts 6, Loops]"

theorem mixed_connections:
  "\<exists>s. wire_run big patient False mixed_events (wires_start F) = Some s \<and> w_socks s ! 2 = 3
     \<and> (\<forall>t. wire_reach big patient False s t \<longrightarrow> prefix (w_up s 3) (w_up t 3) \<and> w_down t 3 = [])"
proof -
  obtain s where s: "wire_run big patient False mixed_events (wires_start F) = Some s" "w_socks s ! 2 = 3"
    "unserved 3 s" "w_down s 3 = []"
    by (simp add: wire_eval mixed_events_def unserved_def NUM_CHANNELS_def Let_def numeral_3_eq_3)
  have "prefix (w_up s 3) (w_up t 3) \<and> w_down t 3 = []" if "wire_reach big patient False s t" for t
    using unserved_reach [OF that s(3)] s(4) by simp
  with s(1,2) show ?thesis by blast
qed

end
