(* ===== verification/Selective_Repeat.thy ===== *)
theory Selective_Repeat
  imports Wire
begin

text \<open>
  The file transfer over relays of \<open>FileTransfer-Selective-Repeat\<close>: the client's sending
  rounds, the relays that drop or forward packets and pass acknowledgements back, and the
  server that writes the file. The header \<open>utils.h\<close> of this program is not in the repository:
  the byte order conversions, the reading of a chunk, the number of channels and the size of
  a packet's data are parameters, and a packet has the fields the three programs access.
\<close>

section \<open>Packets\<close>

record sr_packet =
  sp_size :: u64
  sp_seq_no :: u64
  sp_is_last :: u8
  sp_type :: u8
  sp_channel_id :: u8
  sp_data :: bytes

type_synonym chunk_reader = "bytes \<Rightarrow> nat \<Rightarrow> bool \<Rightarrow> bytes \<times> bytes \<times> bool \<times> nat"

record codec =
  hton :: "u64 \<Rightarrow> u64"
  ntoh :: "u64 \<Rightarrow> u64"

section \<open>The client\<close>

record sr_client =
  sc_fp :: bytes
  sc_is_eof :: bool
  sc_payload_size :: nat
  sc_seq_no :: u64
  sc_eof_seq_no :: u64
  sc_tmp :: "nat \<Rightarrow> sr_packet"
  sc_last_packet :: int

text \<open>
  One pass of the sending loop for channel \<open>i\<close>: the packet, the state and whether the loop
  breaks because the packet is empty.
\<close>

definition sr_send_chunk ::
  "codec \<Rightarrow> chunk_reader \<Rightarrow> nat \<Rightarrow> nat \<Rightarrow> sr_client \<Rightarrow> sr_packet \<times> sr_client \<times> bool" where
  "sr_send_chunk cd next_chunk psize i c =
     (let (buffer, fp, is_eof, payload) = next_chunk (sc_fp c) psize (sc_is_eof c);
          eof_seq = (if is_eof then sc_seq_no c else sc_eof_seq_no c);
          p = \<lparr>sp_size = hton cd (of_nat payload), sp_seq_no = hton cd (sc_seq_no c), sp_is_last = 0,
               sp_type = 0, sp_channel_id = of_nat i, sp_data = strncpy buffer psize\<rparr>;
          stop = (ntoh cd (sp_size p) = 0)
      in (p, c\<lparr>sc_fp := fp, sc_is_eof := False, sc_payload_size := payload, sc_eof_seq_no := eof_seq,
               sc_tmp := (sc_tmp c)(i := p), sc_seq_no := sc_seq_no c + ntoh cd (sp_size p),
               sc_last_packet := (if stop then int i else sc_last_packet c)\<rparr>, stop))"

text \<open>The loop over the remaining \<open>n\<close> channels from channel \<open>i\<close> on.\<close>

fun sr_send_round :: "codec \<Rightarrow> chunk_reader \<Rightarrow> nat \<Rightarrow> nat \<Rightarrow> nat \<Rightarrow> sr_client \<Rightarrow> sr_packet list \<times> sr_client" where
  "sr_send_round cd nc psize i 0 c = ([], c)"
| "sr_send_round cd nc psize i (Suc n) c =
     (let (p, c', stop) = sr_send_chunk cd nc psize i c in
      if stop then ([p], c')
      else let (ps, c'') = sr_send_round cd nc psize (Suc i) n c' in (p # ps, c''))"

text \<open>The round takes place only while the end of the file has not been read.\<close>

definition sr_maybe_send ::
  "codec \<Rightarrow> chunk_reader \<Rightarrow> nat \<Rightarrow> nat \<Rightarrow> sr_client \<Rightarrow> sr_packet list \<times> sr_client" where
  "sr_maybe_send cd nc psize n c =
     (if sc_eof_seq_no c = -1 then sr_send_round cd nc psize 0 n c else ([], c))"

definition sr_recv_ack :: "codec \<Rightarrow> sr_packet \<Rightarrow> sr_client \<Rightarrow> sr_client" where
  "sr_recv_ack cd p c =
     (if sp_type p = 1 \<and> ntoh cd (sp_seq_no p) = sc_eof_seq_no c then c\<lparr>sc_is_eof := True\<rparr> else c)"

definition sr_fin_packet :: "codec \<Rightarrow> nat \<Rightarrow> sr_client \<Rightarrow> sr_packet" where
  "sr_fin_packet cd psize c =
     \<lparr>sp_size = hton cd (of_nat (sc_payload_size c)), sp_seq_no = hton cd (sc_seq_no c), sp_is_last = 1,
      sp_type = 1, sp_channel_id = 0, sp_data = strncpy ''exit'' psize\<rparr>"

text \<open>What a timeout on channel \<open>i\<close> sends again.\<close>

definition sr_retransmit :: "nat \<Rightarrow> sr_client \<Rightarrow> sr_packet" where
  "sr_retransmit i c = sc_tmp c i"

text \<open>The channels whose acknowledgements the waiting loop reads in one round.\<close>

definition sr_awaited :: "nat \<Rightarrow> sr_client \<Rightarrow> nat list" where
  "sr_awaited n c = filter (\<lambda>i. \<not> (sc_last_packet c \<noteq> -1 \<and> sc_last_packet c < int i)) [0..<n]"

text \<open>
  One round of the client after its sends: the acknowledgements read on the awaited channels,
  and the final packet when the end-of-file packet was acknowledged.
\<close>

definition sr_client_round ::
  "codec \<Rightarrow> nat \<Rightarrow> nat \<Rightarrow> (nat \<Rightarrow> sr_packet) \<Rightarrow> sr_client \<Rightarrow> sr_packet option \<times> sr_client" where
  "sr_client_round cd psize n acks c =
     (let c1 = fold (\<lambda>i c. sr_recv_ack cd (acks i) c) (sr_awaited n c) c in
      if sc_is_eof c1
      then (let p = sr_fin_packet cd psize c1 in
            (Some p, c1\<lparr>sc_seq_no := sc_seq_no c1 + ntoh cd (sp_size p)\<rparr>))
      else (None, c1))"

section \<open>The server\<close>

text \<open>
  The packet flag is stored in a variable declared inside the loop, so the variable that the
  loop tests is never assigned.
\<close>

record sr_server =
  ss_file :: bytes
  ss_last_seq_no :: u64
  ss_is_last :: int

definition sr_init_server :: sr_server where
  "sr_init_server = \<lparr>ss_file = [], ss_last_seq_no = 0, ss_is_last = 0\<rparr>"

text \<open>
  One packet. The length of the sender's address is passed to \<open>recvfrom\<close> and \<open>sendto\<close> without
  having been set; the acknowledgement is modelled for the case that the value found there is
  large enough, in which it goes back to the sender.
\<close>

definition sr_serve :: "codec \<Rightarrow> sr_packet \<Rightarrow> sr_server \<Rightarrow> sr_packet \<times> sr_server" where
  "sr_serve cd p s =
     (let seq = ntoh cd (sp_seq_no p); pkt_size = ntoh cd (sp_size p);
          file = (if sp_is_last p \<noteq> 1 then fwrite_at (unat seq) (take (unat pkt_size) (sp_data p)) (ss_file s)
                  else ss_file s)
      in (p\<lparr>sp_seq_no := hton cd seq, sp_type := 1\<rparr>,
          s\<lparr>ss_file := file, ss_last_seq_no := (if seq > ss_last_seq_no s then seq else ss_last_seq_no s)\<rparr>))"

text \<open>The loop over the packets that arrive: the acknowledgements sent and the packets left unread.\<close>

fun sr_server_loop :: "codec \<Rightarrow> sr_packet list \<Rightarrow> sr_server \<Rightarrow> sr_packet list \<times> sr_packet list \<times> sr_server" where
  "sr_server_loop cd [] s = ([], [], s)"
| "sr_server_loop cd (p # ps) s =
     (if ss_is_last s = 1 then ([], p # ps, s)
      else let (ack, s') = sr_serve cd p s; (acks, rest, s'') = sr_server_loop cd ps s'
           in (ack # acks, rest, s''))"

section \<open>The relays\<close>

record relay =
  rl_is_last :: u8
  rl_last_seq_no :: u64
  rl_cli_addr :: nat
  rl_to_server :: "sr_packet list"
  rl_to_client :: "(nat \<times> nat \<times> sr_packet) list"

definition init_relay :: relay where
  "init_relay = \<lparr>rl_is_last = 0, rl_last_seq_no = 0, rl_cli_addr = 0, rl_to_server = [], rl_to_client = []\<rparr>"

text \<open>
  An acknowledgement from the server leaves through a randomly chosen relay socket to the
  client address seen last.
\<close>

definition relay_ack :: "nat \<Rightarrow> sr_packet \<Rightarrow> relay \<Rightarrow> relay" where
  "relay_ack relay_no p r =
     r\<lparr>rl_is_last := sp_is_last p, rl_to_client := rl_to_client r @ [(relay_no, rl_cli_addr r, p\<lparr>sp_type := 1\<rparr>)]\<rparr>"

text \<open>A packet from the client address \<open>from\<close>, dropped or forwarded.\<close>

definition relay_forward :: "codec \<Rightarrow> nat \<Rightarrow> sr_packet \<Rightarrow> bool \<Rightarrow> relay \<Rightarrow> relay" where
  "relay_forward cd addr p dropped r =
     (let r = r\<lparr>rl_cli_addr := addr\<rparr> in
      if dropped then r
      else let seq = ntoh cd (sp_seq_no p) in
        r\<lparr>rl_is_last := sp_is_last p, rl_to_server := rl_to_server r @ [p],
          rl_last_seq_no := (if seq > rl_last_seq_no r then seq else rl_last_seq_no r)\<rparr>)"

text \<open>
  What \<open>select\<close> reports in one iteration: an acknowledgement with the relay number drawn for
  it, and the packets on the listening sockets in order, each with its sender and whether it
  is dropped.
\<close>

record ready =
  from_server :: "(nat \<times> sr_packet) option"
  from_client :: "(nat \<times> sr_packet \<times> bool) list"

definition relay_iteration :: "codec \<Rightarrow> ready \<Rightarrow> relay \<Rightarrow> relay" where
  "relay_iteration cd e r =
     fold (\<lambda>(addr, p, d) r. relay_forward cd addr p d r) (from_client e)
       (case from_server e of None \<Rightarrow> r | Some (k, p) \<Rightarrow> relay_ack k p r)"

fun relay_loop :: "codec \<Rightarrow> ready list \<Rightarrow> relay \<Rightarrow> relay" where
  "relay_loop cd [] r = r"
| "relay_loop cd (e # es) r = (if rl_is_last r = 1 then r else relay_loop cd es (relay_iteration cd e r))"

section \<open>Sequence numbers of a round\<close>

text \<open>The documented behaviour of the byte order conversions that the client relies on.\<close>

definition lossless :: "codec \<Rightarrow> bool" where
  "lossless cd \<longleftrightarrow> (\<forall>x. ntoh cd (hton cd x) = x)"

lemma sr_send_round_seq:
  "sr_send_round cd nc psize i n c = (ps, c') \<Longrightarrow> lossless cd \<Longrightarrow> k < length ps \<Longrightarrow>
     ntoh cd (sp_seq_no (ps ! k)) = sc_seq_no c + sum_list (map (ntoh cd \<circ> sp_size) (take k ps))
     \<and> sp_channel_id (ps ! k) = of_nat (i + k)"
proof (induction n arbitrary: i c ps k)
  case (Suc n)
  obtain p c1 stop where p: "sr_send_chunk cd nc psize i c = (p, c1, stop)" by (metis prod_cases3)
  have head: "ntoh cd (sp_seq_no p) = sc_seq_no c" "sp_channel_id p = of_nat i"
      "sc_seq_no c1 = sc_seq_no c + ntoh cd (sp_size p)"
    using p Suc.prems(2) by (auto simp: sr_send_chunk_def lossless_def Let_def split: prod.splits)
  show ?case
  proof (cases stop)
    case True
    then have "ps = [p]" using Suc.prems(1) p by simp
    then show ?thesis using Suc.prems(3) head by simp
  next
    case False
    obtain qs where qs: "ps = p # qs" "sr_send_round cd nc psize (Suc i) n c1 = (qs, c')"
      using Suc.prems(1) p False by (auto split: prod.splits)
    show ?thesis
    proof (cases k)
      case 0
      then show ?thesis using head by (simp add: qs)
    next
      case (Suc j)
      then show ?thesis
        using Suc.IH [OF qs(2) Suc.prems(2), of j] Suc.prems(3) head by (simp add: qs algebra_simps)
    qed
  qed
qed simp

lemma length_sr_send_round: "sr_send_round cd nc psize i n c = (ps, c') \<Longrightarrow> length ps \<le> n"
proof (induction n arbitrary: i c ps)
  case (Suc n)
  then show ?case by (fastforce simp: Let_def split: prod.splits if_splits)
qed simp

text \<open>
  In a sending round the client sends at most one packet per channel, on the channels
  in order, and the sequence number of each packet is that of the one before it plus its
  size, whatever the conversions and the chunk reader of the missing header are, as long
  as \<open>ntohll\<close> inverts \<open>htonll\<close>.
\<close>

theorem sr_round_contiguous:
  assumes "lossless cd" and "sr_maybe_send cd nc psize n c = (ps, c')"
  shows "length ps \<le> n \<and> (\<forall>k < length ps. sp_channel_id (ps ! k) = of_nat k
    \<and> ntoh cd (sp_seq_no (ps ! k)) = sc_seq_no c + sum_list (map (ntoh cd \<circ> sp_size) (take k ps)))"
proof (cases "sc_eof_seq_no c = -1")
  case True
  then have "sr_send_round cd nc psize 0 n c = (ps, c')" using assms(2) by (simp add: sr_maybe_send_def)
  then show ?thesis using sr_send_round_seq [OF _ assms(1)] length_sr_send_round by fastforce
qed (use assms(2) in \<open>simp add: sr_maybe_send_def\<close>)

abbreviation example_codec :: codec where
  "example_codec \<equiv> \<lparr>hton = htonll False, ntoh = ntohll False\<rparr>"

abbreviation example_client :: "bytes \<Rightarrow> sr_client" where
  "example_client f \<equiv> \<lparr>sc_fp = f, sc_is_eof = False, sc_payload_size = 0, sc_seq_no = 0, sc_eof_seq_no = -1,
     sc_tmp = (\<lambda>_. \<lparr>sp_size = 0, sp_seq_no = 0, sp_is_last = 0, sp_type = 0, sp_channel_id = 0, sp_data = []\<rparr>),
     sc_last_packet = -1\<rparr>"

theorem sr_round_contiguous_witness:
  "\<exists>ps c'. sr_maybe_send example_codec get_next_chunk 5 3 (example_client ''hello world'') = (ps, c')
     \<and> (\<forall>k < length ps. sp_channel_id (ps ! k) = of_nat k)"
proof -
  obtain ps c' where r: "sr_maybe_send example_codec get_next_chunk 5 3 (example_client ''hello world'') = (ps, c')"
    by (metis surj_pair)
  have "lossless example_codec" by (simp add: lossless_def)
  from sr_round_contiguous [OF this r] r show ?thesis by blast
qed

section \<open>Reassembly at the server\<close>

definition sr_region :: "codec \<Rightarrow> sr_packet \<Rightarrow> nat set" where
  "sr_region cd p = (if sp_is_last p = 1 then {} else
     {unat (ntoh cd (sp_seq_no p))..<unat (ntoh cd (sp_seq_no p)) + unat (ntoh cd (sp_size p))})"

text \<open>A data packet of a file carries the bytes of the file at its sequence number.\<close>

definition sr_packet_of :: "codec \<Rightarrow> bytes \<Rightarrow> sr_packet \<Rightarrow> bool" where
  "sr_packet_of cd F p \<longleftrightarrow> sp_is_last p = 1 \<or>
     (let off = unat (ntoh cd (sp_seq_no p)); n = unat (ntoh cd (sp_size p)) in
      off + n \<le> length F \<and> n \<le> length (sp_data p) \<and> take n (sp_data p) = take n (drop off F))"

definition agrees :: "bytes \<Rightarrow> nat set \<Rightarrow> bytes \<Rightarrow> bool" where
  "agrees F A f \<longleftrightarrow> length f \<le> length F \<and> (\<forall>k \<in> A. k < length f \<and> f ! k = F ! k)"

lemma agrees_write:
  assumes "agrees F A f" and "off + n \<le> length F" and "d = take n (drop off F)"
  shows "agrees F (A \<union> {off..<off + n}) (fwrite_at off d f)"
proof (cases "n = 0")
  case True
  then show ?thesis using assms by simp
next
  case False
  have len: "length d = n" using assms(2,3) by simp
  then have d: "d \<noteq> []" using False by auto
  have "fwrite_at off d f ! k = F ! k" if "k \<in> A \<union> {off..<off + n}" for k
  proof (cases "off \<le> k \<and> k < off + n")
    case True
    then have "d ! (k - off) = F ! k" using assms(2) less_diff_conv2 [of off k n] by (auto simp: assms(3))
    then show ?thesis using True len by (simp add: nth_fwrite_at_in)
  next
    case False
    then have "k < length f" "f ! k = F ! k" using that assms(1) by (auto simp: agrees_def)
    then show ?thesis using False len by (subst nth_fwrite_at_out) auto
  qed
  then show ?thesis
    using assms(1,2) d len by (auto simp: agrees_def length_fwrite_at)
qed

lemma ss_is_last_serve [simp]: "ss_is_last (snd (sr_serve cd p s)) = ss_is_last s"
  by (simp add: sr_serve_def Let_def)

lemma sr_serve_agrees:
  assumes "agrees F A (ss_file s)" and "sr_packet_of cd F p"
  shows "agrees F (A \<union> sr_region cd p) (ss_file (snd (sr_serve cd p s)))"
  using assms agrees_write [OF assms(1)]
  by (auto simp: sr_serve_def sr_region_def sr_packet_of_def Let_def)

lemma sr_server_loop_reads_all:
  assumes "ss_is_last s \<noteq> 1"
  shows "sr_server_loop cd ps s = (map (\<lambda>p. p\<lparr>sp_seq_no := hton cd (ntoh cd (sp_seq_no p)), sp_type := 1\<rparr>) ps, [],
      fold (\<lambda>p s. snd (sr_serve cd p s)) ps s)"
  using assms
proof (induction ps arbitrary: s)
  case (Cons p ps)
  then show ?case
    using Cons.IH [of "snd (sr_serve cd p s)"] by (simp add: sr_serve_def Let_def split: prod.splits)
qed simp

lemma fold_serve_agrees:
  "agrees F A (ss_file s) \<Longrightarrow> \<forall>p \<in> set ps. sr_packet_of cd F p \<Longrightarrow>
     agrees F (A \<union> (\<Union>p \<in> set ps. sr_region cd p)) (ss_file (fold (\<lambda>p s. snd (sr_serve cd p s)) ps s))"
proof (induction ps arbitrary: A s)
  case (Cons p ps)
  then show ?case
    using Cons.IH [of "A \<union> sr_region cd p" "snd (sr_serve cd p s)"] sr_serve_agrees [of F A s cd p]
    by (simp add: Un_assoc)
qed simp

lemma agrees_all:
  assumes "agrees F {..<length F} f"
  shows "f = F"
proof -
  have "length F \<le> length f" using assms by (cases "length F") (auto simp: agrees_def Suc_le_eq)
  then show ?thesis using assms by (intro nth_equalityI) (auto simp: agrees_def)
qed

text \<open>
  The server's file is the file of the client once packets covering all of it have
  arrived, in whatever order and however often each of them arrives, with final packets in
  between.
\<close>

theorem sr_server_reassembles:
  assumes "\<forall>p \<in> set ps. sr_packet_of cd F p" and "{..<length F} \<subseteq> (\<Union>p \<in> set ps. sr_region cd p)"
  shows "ss_file (snd (snd (sr_server_loop cd ps sr_init_server))) = F"
proof -
  have "agrees F ({} \<union> (\<Union>p \<in> set ps. sr_region cd p)) (ss_file (fold (\<lambda>p s. snd (sr_serve cd p s)) ps sr_init_server))"
    using assms(1) by (intro fold_serve_agrees) (simp_all add: agrees_def sr_init_server_def)
  then have "agrees F {..<length F} (ss_file (snd (snd (sr_server_loop cd ps sr_init_server))))"
    using assms(2) sr_server_loop_reads_all [of sr_init_server cd ps]
    by (auto simp: agrees_def sr_init_server_def)
  then show ?thesis by (rule agrees_all)
qed

abbreviation identity_codec :: codec where
  "identity_codec \<equiv> \<lparr>hton = (\<lambda>x. x), ntoh = (\<lambda>x. x)\<rparr>"

abbreviation example_packet :: "nat \<Rightarrow> bytes \<Rightarrow> sr_packet" where
  "example_packet off d \<equiv> \<lparr>sp_size = of_nat (length d), sp_seq_no = of_nat off, sp_is_last = 0, sp_type = 0,
     sp_channel_id = 0, sp_data = d\<rparr>"

theorem sr_server_reassembles_witness:
  "ss_file (snd (snd (sr_server_loop identity_codec
     [example_packet 2 ''cd'', example_packet 0 ''ab'', example_packet 2 ''cd''] sr_init_server))) = ''abcd''"
proof (rule sr_server_reassembles)
  let ?ps = "[example_packet 2 ''cd'', example_packet 0 ''ab'', example_packet 2 ''cd'']"
  show "\<forall>p \<in> set ?ps. sr_packet_of identity_codec ''abcd'' p" by (simp add: sr_packet_of_def)
  show "{..<length ''abcd''} \<subseteq> (\<Union>p \<in> set ?ps. sr_region identity_codec p)" by (auto simp: sr_region_def)
qed

section \<open>Termination of the three programs\<close>

text \<open>
  The server never leaves its loop: it reads and acknowledges every packet that
  arrives, final packets included, because the flag of the packet is stored in a variable
  local to the loop body.
\<close>

theorem sr_server_never_stops:
  "fst (sr_server_loop cd ps sr_init_server)
     = map (\<lambda>p. p\<lparr>sp_seq_no := hton cd (ntoh cd (sp_seq_no p)), sp_type := 1\<rparr>) ps
   \<and> fst (snd (sr_server_loop cd ps sr_init_server)) = []"
  using sr_server_loop_reads_all [of sr_init_server cd ps] by (simp add: sr_init_server_def)

text \<open>
  The relay stops as soon as it has forwarded a final packet: when the last packet of
  an iteration is a final packet that is not dropped, nothing is passed to the client any
  more, so the acknowledgement of the final packet, which the client waits for, never
  arrives.
\<close>

theorem relay_stops_before_fin_ack:
  assumes "sp_is_last fin = 1" and "rl_is_last r \<noteq> 1"
  shows "relay_loop cd (\<lparr>from_server = sv, from_client = cs @ [(addr, fin, False)]\<rparr> # es) r
    = relay_iteration cd \<lparr>from_server = sv, from_client = cs @ [(addr, fin, False)]\<rparr> r
   \<and> last (rl_to_server (relay_iteration cd \<lparr>from_server = sv, from_client = cs @ [(addr, fin, False)]\<rparr> r)) = fin"
proof -
  let ?r = "relay_iteration cd \<lparr>from_server = sv, from_client = cs @ [(addr, fin, False)]\<rparr> r"
  have last: "rl_is_last ?r = 1" "last (rl_to_server ?r) = fin"
    using assms(1) by (simp_all add: relay_iteration_def relay_forward_def Let_def)
  then have "relay_loop cd es ?r = ?r" by (cases es) simp_all
  then show ?thesis using assms(2) last by simp
qed

theorem relay_stops_before_fin_ack_witness:
  "relay_loop identity_codec
     [\<lparr>from_server = None, from_client = [(0, (example_packet 4 [])\<lparr>sp_is_last := 1\<rparr>, False)]\<rparr>,
      \<lparr>from_server = Some (0, (example_packet 4 [])\<lparr>sp_is_last := 1, sp_type := 1\<rparr>), from_client = []\<rparr>] init_relay
    = relay_iteration identity_codec
        \<lparr>from_server = None, from_client = [(0, (example_packet 4 [])\<lparr>sp_is_last := 1\<rparr>, False)]\<rparr> init_relay"
  using relay_stops_before_fin_ack [of "(example_packet 4 [])\<lparr>sp_is_last := 1\<rparr>" init_relay identity_codec None "[]" 0
      "[\<lparr>from_server = Some (0, (example_packet 4 [])\<lparr>sp_is_last := 1, sp_type := 1\<rparr>), from_client = []\<rparr>]"]
  by (simp add: init_relay_def)

end
