(* ===== verification/Relay_Transfer.thy ===== *)
theory Relay_Transfer
  imports Selective_Repeat
begin

text \<open>
  The three programs of \<open>FileTransfer-Selective-Repeat\<close> together: the client with one socket per
  channel, the relay process with one listening socket per relay, and the server. Datagrams are
  queues; only the relay drops, as its code does. An acknowledgement goes to the client socket that
  the relay heard from last, and the client takes whatever arrives on a channel for the
  acknowledgement of that channel, and its sender for the relay of that channel.
  The history variables \<open>rt_sent\<close> and \<open>rt_got\<close> hold the data packets sent for the first time and
  the packets the server has read.
\<close>

section \<open>The system\<close>

datatype rt_pc = RSend nat | RWait nat | RFinWait sr_packet | RDone

record rt_sys =
  rt_cl :: sr_client
  rt_pc_of :: rt_pc
  relay_addr :: "nat \<Rightarrow> nat"
  at_relay :: "nat \<Rightarrow> (nat \<times> sr_packet) list"
  rt_relay :: relay
  rt_srv :: sr_server
  rt_acks :: "sr_packet list"
  rt_sent :: "sr_packet list"
  rt_got :: "sr_packet list"

text \<open>The parameters: conversions, reader of chunks, size of the data of a packet and number of channels.\<close>

record rt_net =
  net_codec :: codec
  net_chunk :: chunk_reader
  net_psize :: nat
  net_channels :: nat

definition rt_zero_packet :: sr_packet where
  "rt_zero_packet = \<lparr>sp_size = 0, sp_seq_no = 0, sp_is_last = 0, sp_type = 0, sp_channel_id = 0, sp_data = []\<rparr>"

definition rt_init_client :: "bytes \<Rightarrow> sr_client" where
  "rt_init_client f = \<lparr>sc_fp = f, sc_is_eof = False, sc_payload_size = 0, sc_seq_no = 0, sc_eof_seq_no = -1,
     sc_tmp = (\<lambda>_. rt_zero_packet), sc_last_packet = -1\<rparr>"

definition rt_init :: "bytes \<Rightarrow> rt_sys" where
  "rt_init f = \<lparr>rt_cl = rt_init_client f, rt_pc_of = RSend 0, relay_addr = (\<lambda>i. i), at_relay = (\<lambda>_. []),
     rt_relay = init_relay, rt_srv = sr_init_server, rt_acks = [], rt_sent = [], rt_got = []\<rparr>"

text \<open>A datagram from client socket \<open>i\<close> to the relay its channel uses at the moment.\<close>

definition rt_sendto :: "nat \<Rightarrow> sr_packet \<Rightarrow> rt_sys \<Rightarrow> rt_sys" where
  "rt_sendto i p s = s\<lparr>at_relay := (at_relay s)(relay_addr s i := at_relay s (relay_addr s i) @ [(i, p)])\<rparr>"

definition rt_loop_head :: "sr_client \<Rightarrow> rt_pc" where
  "rt_loop_head c = (if sc_is_eof c then RDone else if sc_eof_seq_no c = -1 then RSend 0 else RWait 0)"

definition rt_client_send :: "rt_net \<Rightarrow> rt_sys \<Rightarrow> rt_sys option" where
  "rt_client_send net s = (case rt_pc_of s of
       RSend i \<Rightarrow>
         let (p, c, stop) = sr_send_chunk (net_codec net) (net_chunk net) (net_psize net) i (rt_cl s) in
         Some ((rt_sendto i p s)\<lparr>rt_cl := c, rt_sent := rt_sent s @ [p],
           rt_pc_of := (if stop \<or> \<not> Suc i < net_channels net then RWait 0 else RSend (Suc i))\<rparr>)
     | _ \<Rightarrow> None)"

text \<open>The datagrams that wait at client socket \<open>i\<close>.\<close>

definition rt_inbox :: "nat \<Rightarrow> rt_sys \<Rightarrow> (nat \<times> nat \<times> sr_packet) list" where
  "rt_inbox i s = filter (\<lambda>(k, addr, p). addr = i) (rl_to_client (rt_relay s))"

definition rt_client_timeout :: "rt_sys \<Rightarrow> rt_sys option" where
  "rt_client_timeout s = (case rt_pc_of s of
       RWait i \<Rightarrow> if rt_inbox i s = [] then Some (rt_sendto i (sr_retransmit i (rt_cl s)) s) else None
     | RFinWait p \<Rightarrow> if rt_inbox 0 s = [] then Some (rt_sendto 0 p s) else None
     | _ \<Rightarrow> None)"

text \<open>Behind the waiting loop: the final packet when the end of the file was acknowledged.\<close>

definition rt_round_end :: "rt_net \<Rightarrow> rt_sys \<Rightarrow> rt_sys" where
  "rt_round_end net s =
     (let c = rt_cl s in
      if sc_is_eof c
      then (let p = sr_fin_packet (net_codec net) (net_psize net) c in
            (rt_sendto 0 p s)\<lparr>rt_cl := c\<lparr>sc_seq_no := sc_seq_no c + ntoh (net_codec net) (sp_size p)\<rparr>, rt_pc_of := RFinWait p\<rparr>)
      else s\<lparr>rt_pc_of := rt_loop_head c\<rparr>)"

text \<open>The first datagram at socket \<open>i\<close> is taken, and its sender is the relay of the channel from now on.\<close>

definition rt_take :: "rt_net \<Rightarrow> nat \<Rightarrow> rt_sys \<Rightarrow> rt_sys option" where
  "rt_take net i s = (case rt_inbox i s of
       [] \<Rightarrow> None
     | (k, addr, p) # _ \<Rightarrow> Some (s\<lparr>rt_relay := (rt_relay s)\<lparr>rl_to_client := remove1 (k, addr, p) (rl_to_client (rt_relay s))\<rparr>,
         relay_addr := (relay_addr s)(i := k), rt_cl := sr_recv_ack (net_codec net) p (rt_cl s)\<rparr>))"

definition rt_client_recv :: "rt_net \<Rightarrow> rt_sys \<Rightarrow> rt_sys option" where
  "rt_client_recv net s = (case rt_pc_of s of
       RWait i \<Rightarrow> (case rt_take net i s of
           None \<Rightarrow> None
         | Some t \<Rightarrow>
             if Suc i \<in> set (sr_awaited (net_channels net) (rt_cl t))
             then Some (t\<lparr>rt_pc_of := RWait (Suc i)\<rparr>) else Some (rt_round_end net t))
     | RFinWait p \<Rightarrow> (case rt_take net 0 s of
           None \<Rightarrow> None
         | Some t \<Rightarrow> Some (t\<lparr>rt_pc_of := rt_loop_head (rt_cl t)\<rparr>))
     | _ \<Rightarrow> None)"

text \<open>
  One iteration of the relay: \<open>k\<close> is the relay number drawn for an acknowledgement, and \<open>res j\<close> says
  whether the packet at listening socket \<open>j\<close> is dropped.
\<close>

definition rt_ready :: "nat \<Rightarrow> nat \<Rightarrow> (nat \<Rightarrow> bool) \<Rightarrow> rt_sys \<Rightarrow> ready" where
  "rt_ready n k res s =
     \<lparr>from_server = (case rt_acks s of [] \<Rightarrow> None | p # _ \<Rightarrow> Some (k, p)),
      from_client = map (\<lambda>j. case hd (at_relay s j) of (i, p) \<Rightarrow> (i, p, res j)) (filter (\<lambda>j. at_relay s j \<noteq> []) [0..<n])\<rparr>"

definition rt_relay_step :: "rt_net \<Rightarrow> nat \<Rightarrow> (nat \<Rightarrow> bool) \<Rightarrow> rt_sys \<Rightarrow> rt_sys option" where
  "rt_relay_step net k res s =
     (let e = rt_ready (net_channels net) k res s in
      if rl_is_last (rt_relay s) = 1 \<or> from_server e = None \<and> from_client e = [] then None
      else Some (s\<lparr>rt_relay := relay_iteration (net_codec net) e (rt_relay s), rt_acks := tl (rt_acks s),
                   at_relay := (\<lambda>j. if j < net_channels net then tl (at_relay s j) else at_relay s j)\<rparr>))"

definition rt_serve :: "rt_net \<Rightarrow> rt_sys \<Rightarrow> rt_sys option" where
  "rt_serve net s = (case rl_to_server (rt_relay s) of
       [] \<Rightarrow> None
     | p # ps \<Rightarrow>
         if ss_is_last (rt_srv s) = 1 then None
         else let (ack, sv) = sr_serve (net_codec net) p (rt_srv s) in
           Some (s\<lparr>rt_srv := sv, rt_acks := rt_acks s @ [ack], rt_relay := (rt_relay s)\<lparr>rl_to_server := ps\<rparr>,
                   rt_got := rt_got s @ [p]\<rparr>))"

datatype rt_action = RT_Send | RT_Timeout | RT_Recv | RT_Relay nat "nat \<Rightarrow> bool" | RT_Serve

fun rt_act :: "rt_net \<Rightarrow> rt_action \<Rightarrow> rt_sys \<Rightarrow> rt_sys option" where
  "rt_act net RT_Send s = rt_client_send net s"
| "rt_act net RT_Timeout s = rt_client_timeout s"
| "rt_act net RT_Recv s = rt_client_recv net s"
| "rt_act net (RT_Relay k res) s = (if k < net_channels net then rt_relay_step net k res s else None)"
| "rt_act net RT_Serve s = rt_serve net s"

inductive rt_reach :: "rt_net \<Rightarrow> bytes \<Rightarrow> rt_sys \<Rightarrow> bool" for net F where
  start: "rt_reach net F (rt_init F)"
| step: "rt_reach net F s \<Longrightarrow> rt_act net a s = Some t \<Longrightarrow> rt_reach net F t"

inductive_cases rt_reach_cases: "rt_reach net F s"

fun rt_run :: "rt_net \<Rightarrow> rt_action list \<Rightarrow> rt_sys \<Rightarrow> rt_sys option" where
  "rt_run net [] s = Some s"
| "rt_run net (a # as) s = (case rt_act net a s of None \<Rightarrow> None | Some t \<Rightarrow> rt_run net as t)"

lemma rt_run_reach: "rt_reach net F s \<Longrightarrow> rt_run net as s = Some t \<Longrightarrow> rt_reach net F t"
  by (induction as arbitrary: s) (auto split: option.splits intro: rt_reach.step)

section \<open>Nothing wrong is written\<close>

definition sr_payload :: "codec \<Rightarrow> sr_packet \<Rightarrow> bytes" where
  "sr_payload cd p = take (unat (ntoh cd (sp_size p))) (sp_data p)"

text \<open>The bytes the client has taken from its file so far.\<close>

definition rt_stream :: "rt_net \<Rightarrow> rt_sys \<Rightarrow> bytes" where
  "rt_stream net s = concat (map (sr_payload (net_codec net)) (rt_sent s))"

text \<open>
  What the client relies on in the header that is not in the repository: the conversions are
  inverse and keep zero, and a chunk is not longer than asked for.
\<close>

definition net_ok :: "rt_net \<Rightarrow> bool" where
  "net_ok net \<longleftrightarrow> lossless (net_codec net) \<and> ntoh (net_codec net) 0 = 0 \<and> net_psize net < 2 ^ 64
     \<and> (\<forall>f e. snd (snd (snd (net_chunk net f (net_psize net) e))) \<le> net_psize net)"

definition rt_client_ok :: "codec \<Rightarrow> bytes \<Rightarrow> rt_pc \<Rightarrow> sr_client \<Rightarrow> bool" where
  "rt_client_ok cd F pc c \<longleftrightarrow> (\<forall>i. sr_packet_of cd F (sc_tmp c i)) \<and> (case pc of
       RFinWait p \<Rightarrow> sp_is_last p = 1 \<and> sc_is_eof c
     | RDone \<Rightarrow> True
     | _ \<Rightarrow> sc_seq_no c = of_nat (length F))"

definition rt_ok :: "rt_net \<Rightarrow> rt_sys \<Rightarrow> bool" where
  "rt_ok net s \<longleftrightarrow> rt_client_ok (net_codec net) (rt_stream net s) (rt_pc_of s) (rt_cl s)
     \<and> (\<forall>j. \<forall>x \<in> set (at_relay s j). sr_packet_of (net_codec net) (rt_stream net s) (snd x))
     \<and> (\<forall>p \<in> set (rl_to_server (rt_relay s)). sr_packet_of (net_codec net) (rt_stream net s) p)
     \<and> agrees (rt_stream net s) (\<Union>p \<in> set (rt_got s). sr_region (net_codec net) p) (ss_file (rt_srv s))"

lemma fin_packet_of [simp]: "sp_is_last p = 1 \<Longrightarrow> sr_packet_of cd F p"
  by (simp add: sr_packet_of_def)

lemma sr_packet_of_append: "sr_packet_of cd F p \<Longrightarrow> sr_packet_of cd (F @ G) p"
  by (auto simp: sr_packet_of_def Let_def)

lemma agrees_append: "agrees F A f \<Longrightarrow> agrees (F @ G) A f"
  by (auto simp: agrees_def nth_append)

lemma rt_ok_init: "net_ok net \<Longrightarrow> rt_ok net (rt_init F)"
  by (simp add: rt_ok_def rt_client_ok_def rt_init_def init_relay_def rt_stream_def sr_packet_of_def rt_init_client_def
      rt_zero_packet_def net_ok_def agrees_def sr_init_server_def)

text \<open>Steps that leave the client's stream alone.\<close>

lemma rt_stream_cong: "rt_sent t = rt_sent s \<Longrightarrow> rt_stream net t = rt_stream net s"
  by (simp add: rt_stream_def)

lemma rt_sendto_simps [simp]:
  "rt_cl (rt_sendto i p s) = rt_cl s" "rt_pc_of (rt_sendto i p s) = rt_pc_of s" "rt_relay (rt_sendto i p s) = rt_relay s"
  "rt_srv (rt_sendto i p s) = rt_srv s" "rt_sent (rt_sendto i p s) = rt_sent s" "rt_got (rt_sendto i p s) = rt_got s"
  "relay_addr (rt_sendto i p s) = relay_addr s" "rt_acks (rt_sendto i p s) = rt_acks s"
  "rt_stream net (rt_sendto i p s) = rt_stream net s"
  by (simp_all add: rt_sendto_def rt_stream_def)

lemma at_relay_sendto:
  "\<forall>j. \<forall>x \<in> set (at_relay s j). P (snd x) \<Longrightarrow> P p \<Longrightarrow> \<forall>j. \<forall>x \<in> set (at_relay (rt_sendto i p s) j). P (snd x)"
  by (auto simp: rt_sendto_def)

lemma rt_ok_sendto: "rt_ok net s \<Longrightarrow> sr_packet_of (net_codec net) (rt_stream net s) p \<Longrightarrow> rt_ok net (rt_sendto i p s)"
  using at_relay_sendto [of s "sr_packet_of (net_codec net) (rt_stream net s)" p i] by (simp add: rt_ok_def)

lemma rt_ok_timeout: "rt_ok net s \<Longrightarrow> rt_client_timeout s = Some t \<Longrightarrow> rt_ok net t"
  by (auto simp: rt_client_timeout_def sr_retransmit_def intro!: rt_ok_sendto split: rt_pc.splits if_splits)
     (auto simp: rt_ok_def rt_client_ok_def)

lemma sc_recv_ack [simp]:
  "sc_tmp (sr_recv_ack cd p c) = sc_tmp c" "sc_seq_no (sr_recv_ack cd p c) = sc_seq_no c"
  "sc_is_eof c \<Longrightarrow> sc_is_eof (sr_recv_ack cd p c)"
  by (simp_all add: sr_recv_ack_def)

lemma rt_take_fields:
  assumes "rt_take net i s = Some t"
  shows "rt_sent t = rt_sent s" "at_relay t = at_relay s" "rl_to_server (rt_relay t) = rl_to_server (rt_relay s)"
    "rt_got t = rt_got s" "rt_srv t = rt_srv s" "rt_pc_of t = rt_pc_of s" "sc_tmp (rt_cl t) = sc_tmp (rt_cl s)"
    "sc_seq_no (rt_cl t) = sc_seq_no (rt_cl s)" "sc_is_eof (rt_cl s) \<Longrightarrow> sc_is_eof (rt_cl t)"
  using assms by (auto simp: rt_take_def split: list.splits)

lemma rt_ok_take:
  assumes "rt_ok net s" and "rt_take net i s = Some t"
  shows "rt_ok net t"
  using assms(1) rt_take_fields [OF assms(2)] rt_stream_cong [OF rt_take_fields(1) [OF assms(2)], of net]
  by (auto simp: rt_ok_def rt_client_ok_def split: rt_pc.splits)

lemma rt_ok_pc:
  assumes "rt_ok net s" and "sc_seq_no (rt_cl s) = of_nat (length (rt_stream net s)) \<or> q = RDone" and "\<And>p. q \<noteq> RFinWait p"
  shows "rt_ok net (s\<lparr>rt_pc_of := q\<rparr>)"
proof -
  have "rt_stream net (s\<lparr>rt_pc_of := q\<rparr>) = rt_stream net s" by (simp add: rt_stream_def)
  then show ?thesis using assms by (auto simp: rt_ok_def rt_client_ok_def split: rt_pc.splits)
qed

lemma rt_ok_round_end:
  assumes "rt_ok net s" and "sc_seq_no (rt_cl s) = of_nat (length (rt_stream net s))"
  shows "rt_ok net (rt_round_end net s)"
proof (cases "sc_is_eof (rt_cl s)")
  case True
  let ?p = "sr_fin_packet (net_codec net) (net_psize net) (rt_cl s)"
  let ?c = "(rt_cl s)\<lparr>sc_seq_no := sc_seq_no (rt_cl s) + ntoh (net_codec net) (sp_size ?p)\<rparr>"
  have p: "sp_is_last ?p = 1" by (simp add: sr_fin_packet_def)
  then have "rt_ok net (rt_sendto 0 ?p s)" using assms(1) by (intro rt_ok_sendto) simp_all
  moreover have "rt_round_end net s = (rt_sendto 0 ?p s)\<lparr>rt_cl := ?c, rt_pc_of := RFinWait ?p\<rparr>"
    using True by (simp add: rt_round_end_def Let_def)
  moreover from this have "rt_stream net (rt_round_end net s) = rt_stream net s" by (simp add: rt_stream_def)
  ultimately show ?thesis using True p by (simp add: rt_ok_def rt_client_ok_def)
next
  case False
  then show ?thesis using rt_ok_pc [OF assms(1)] assms(2) by (simp add: rt_round_end_def Let_def rt_loop_head_def)
qed

lemma rt_ok_recv:
  assumes "rt_ok net s" and "rt_client_recv net s = Some t"
  shows "rt_ok net t"
proof (cases "rt_pc_of s")
  case (RWait i)
  then obtain u where u: "rt_take net i s = Some u" using assms(2) by (auto simp: rt_client_recv_def split: option.splits)
  note ok = rt_ok_take [OF assms(1) u]
  have seq: "sc_seq_no (rt_cl u) = of_nat (length (rt_stream net u))"
    using ok RWait rt_take_fields(6) [OF u] by (simp add: rt_ok_def rt_client_ok_def)
  show ?thesis
    using assms(2) RWait u rt_ok_pc [OF ok] rt_ok_round_end [OF ok seq] seq
    by (auto simp: rt_client_recv_def split: if_splits)
next
  case (RFinWait p)
  then obtain u where u: "rt_take net 0 s = Some u" "t = u\<lparr>rt_pc_of := rt_loop_head (rt_cl u)\<rparr>"
    using assms(2) by (auto simp: rt_client_recv_def split: option.splits)
  have "sc_is_eof (rt_cl u)" using assms(1) RFinWait rt_take_fields(9) [OF u(1)] by (simp add: rt_ok_def rt_client_ok_def)
  then show ?thesis using rt_ok_pc [OF rt_ok_take [OF assms(1) u(1)]] u(2) by (simp add: rt_loop_head_def)
qed (use assms(2) in \<open>simp_all add: rt_client_recv_def\<close>)

lemma relay_iteration_to_server:
  "set (rl_to_server (relay_iteration cd e r)) \<subseteq> set (rl_to_server r) \<union> {p. \<exists>a d. (a, p, d) \<in> set (from_client e)}"
proof -
  have forwarded: "set (rl_to_server (fold (\<lambda>(addr, p, d) r. relay_forward cd addr p d r) xs r))
      \<subseteq> set (rl_to_server r) \<union> {p. \<exists>a d. (a, p, d) \<in> set xs}" for xs r
  proof (induction xs arbitrary: r)
    case (Cons x xs)
    obtain a p d where x: "x = (a, p, d)" using prod_cases3 by blast
    have "set (rl_to_server (relay_forward cd a p d r)) \<subseteq> insert p (set (rl_to_server r))"
      by (auto simp: relay_forward_def Let_def)
    then have "set (rl_to_server (relay_forward cd a p d r)) \<union> {q. \<exists>a d. (a, q, d) \<in> set xs}
        \<subseteq> set (rl_to_server r) \<union> {q. \<exists>a d. (a, q, d) \<in> set (x # xs)}" using x by auto
    with Cons.IH [of "relay_forward cd a p d r"] show ?case using x by (simp add: subset_trans)
  qed simp
  let ?r = "case from_server e of None \<Rightarrow> r | Some (k, p) \<Rightarrow> relay_ack k p r"
  have "rl_to_server ?r = rl_to_server r" by (simp add: relay_ack_def split: option.split)
  then show ?thesis using forwarded [of "from_client e" ?r] by (simp add: relay_iteration_def)
qed

lemma rt_ok_relay:
  assumes "rt_ok net s" and "rt_relay_step net k res s = Some t"
  shows "rt_ok net t"
proof -
  let ?e = "rt_ready (net_channels net) k res s" and ?P = "sr_packet_of (net_codec net) (rt_stream net s)"
  have t: "t = s\<lparr>rt_relay := relay_iteration (net_codec net) ?e (rt_relay s), rt_acks := tl (rt_acks s),
      at_relay := (\<lambda>j. if j < net_channels net then tl (at_relay s j) else at_relay s j)\<rparr>"
    using assms(2) by (auto simp: rt_relay_step_def Let_def split: if_splits)
  have at: "?P (snd x)" if "x \<in> set (at_relay s j)" for x j using assms(1) that by (auto simp: rt_ok_def)
  have "?P p" if "(a, p, d) \<in> set (from_client ?e)" for a p d
  proof -
    from that obtain j where "hd (at_relay s j) = (a, p)" "at_relay s j \<noteq> []" by (auto simp: rt_ready_def split: prod.splits)
    then have "(a, p) \<in> set (at_relay s j)" by (metis hd_in_set)
    then show ?thesis using at [of "(a, p)" j] by simp
  qed
  then have "\<forall>p \<in> set (rl_to_server (relay_iteration (net_codec net) ?e (rt_relay s))). ?P p"
    using relay_iteration_to_server [of "net_codec net" ?e "rt_relay s"] assms(1) by (auto simp: rt_ok_def)
  moreover have "set (at_relay t j) \<subseteq> set (at_relay s j)" for j by (cases "at_relay s j") (auto simp: t)
  then have "\<forall>j. \<forall>x \<in> set (at_relay t j). ?P (snd x)" using at by blast
  moreover have "rt_stream net t = rt_stream net s" by (simp add: t rt_stream_def)
  ultimately show ?thesis using assms(1) by (simp add: rt_ok_def t)
qed

lemma rt_ok_serve:
  assumes "rt_ok net s" and "rt_serve net s = Some t"
  shows "rt_ok net t"
proof -
  obtain p ps where q: "rl_to_server (rt_relay s) = p # ps" using assms(2) by (auto simp: rt_serve_def split: list.splits)
  have p: "sr_packet_of (net_codec net) (rt_stream net s) p" using assms(1) q by (simp add: rt_ok_def)
  have t: "t = s\<lparr>rt_srv := snd (sr_serve (net_codec net) p (rt_srv s)), rt_acks := rt_acks s @ [fst (sr_serve (net_codec net) p (rt_srv s))],
      rt_relay := (rt_relay s)\<lparr>rl_to_server := ps\<rparr>, rt_got := rt_got s @ [p]\<rparr>"
    using assms(2) q by (auto simp: rt_serve_def split: if_splits prod.splits)
  moreover from this have "rt_stream net t = rt_stream net s" by (simp add: rt_stream_def)
  ultimately show ?thesis
    using assms(1) q sr_serve_agrees [OF _ p, of "\<Union>p \<in> set (rt_got s). sr_region (net_codec net) p" "rt_srv s"]
    by (simp add: rt_ok_def Un_commute)
qed

text \<open>A new packet continues the stream.\<close>

lemma rt_ok_send:
  assumes "rt_ok net s" and "net_ok net" and "rt_client_send net s = Some t" and "length (rt_stream net t) < 2 ^ 64"
  shows "rt_ok net t"
proof -
  let ?cd = "net_codec net" and ?F = "rt_stream net s"
  obtain i where pc: "rt_pc_of s = RSend i" using assms(3) by (auto simp: rt_client_send_def split: rt_pc.splits)
  obtain p c stop where p: "sr_send_chunk ?cd (net_chunk net) (net_psize net) i (rt_cl s) = (p, c, stop)" using prod_cases3 by blast
  define q where "q = (if stop \<or> \<not> Suc i < net_channels net then RWait 0 else RSend (Suc i))"
  have t: "t = (rt_sendto i p s)\<lparr>rt_cl := c, rt_sent := rt_sent s @ [p], rt_pc_of := q\<rparr>"
    using assms(3) pc p by (simp add: rt_client_send_def q_def)
  have F: "rt_stream net t = ?F @ sr_payload ?cd p" by (simp add: t rt_stream_def)
  have seq: "sc_seq_no (rt_cl s) = of_nat (length ?F)" and tmp: "\<And>i. sr_packet_of ?cd ?F (sc_tmp (rt_cl s) i)"
    using assms(1) pc by (simp_all add: rt_ok_def rt_client_ok_def)
  obtain buffer fp eof payload where chunk: "net_chunk net (sc_fp (rt_cl s)) (net_psize net) (sc_is_eof (rt_cl s)) = (buffer, fp, eof, payload)"
    using prod_cases4 by blast
  have "payload \<le> net_psize net" using assms(2) chunk unfolding net_ok_def by (metis snd_conv)
  then have pl: "payload \<le> net_psize net" "ntoh ?cd (sp_size p) = of_nat payload" "ntoh ?cd (sp_seq_no p) = of_nat (length ?F)"
      "length (sp_data p) = net_psize net" "sc_tmp c = (sc_tmp (rt_cl s))(i := p)" "sc_seq_no c = of_nat (length ?F) + of_nat payload"
    using p assms(2) seq by (auto simp: sr_send_chunk_def net_ok_def lossless_def Let_def chunk)
  have n: "unat (ntoh ?cd (sp_size p)) = payload" using pl(1,2) assms(2) by (simp add: net_ok_def unat_of_nat)
  have len: "length (sr_payload ?cd p) = payload" using pl(1,4) by (simp add: sr_payload_def n)
  have off: "unat (ntoh ?cd (sp_seq_no p)) = length ?F" using assms(4) by (simp add: pl(3) F unat_of_nat)
  have "sr_packet_of ?cd (rt_stream net t) p" using pl(1,4) len by (simp add: sr_packet_of_def n off F) (simp add: sr_payload_def n)
  moreover have "sc_seq_no c = of_nat (length (rt_stream net t))" by (simp add: pl(6) F len)
  moreover have "at_relay t = at_relay (rt_sendto i p s)" by (simp add: t)
  then have "\<forall>j. \<forall>x \<in> set (at_relay t j). sr_packet_of ?cd (rt_stream net t) (snd x)"
    using at_relay_sendto [of s "sr_packet_of ?cd (rt_stream net t)" p i] calculation(1) assms(1)
    by (simp add: rt_ok_def F sr_packet_of_append)
  moreover have "agrees (rt_stream net t) (\<Union>p \<in> set (rt_got t). sr_region ?cd p) (ss_file (rt_srv t))"
    using assms(1) agrees_append [of ?F _ "ss_file (rt_srv s)"] by (simp add: rt_ok_def F) (simp add: t)
  moreover have "rt_client_ok ?cd (rt_stream net t) q c"
    using calculation(1,2) tmp by (simp add: rt_client_ok_def pl(5) q_def F sr_packet_of_append)
  moreover have "\<forall>p \<in> set (rl_to_server (rt_relay s)). sr_packet_of ?cd (rt_stream net t) p"
    using assms(1) by (simp add: rt_ok_def F sr_packet_of_append)
  moreover have "rt_cl t = c" "rt_pc_of t = q" "rt_relay t = rt_relay s" by (simp_all add: t)
  ultimately show ?thesis by (simp add: rt_ok_def)
qed

text \<open>The stream only grows.\<close>

lemma rt_sent_recv:
  assumes "rt_client_recv net s = Some t"
  shows "rt_sent t = rt_sent s"
proof -
  have "rt_sent (rt_round_end net u) = rt_sent u" for u by (simp add: rt_round_end_def Let_def)
  then show ?thesis using assms
    by (auto simp: rt_client_recv_def dest: rt_take_fields(1) split: rt_pc.splits option.splits if_splits)
qed

lemma rt_sent_serve: "rt_serve net s = Some t \<Longrightarrow> rt_sent t = rt_sent s"
  by (cases "rl_to_server (rt_relay s)") (auto simp: rt_serve_def split: if_splits prod.splits)

lemma rt_stream_grows:
  assumes "rt_act net a s = Some t"
  shows "length (rt_stream net s) \<le> length (rt_stream net t)"
proof (cases a)
  case RT_Send
  then show ?thesis using assms
    by (auto simp: rt_client_send_def rt_stream_def split: rt_pc.splits prod.splits)
next
  case RT_Recv
  then show ?thesis using assms rt_sent_recv [of net s t] by (simp add: rt_stream_def)
next
  case RT_Serve
  then show ?thesis using assms rt_sent_serve [of net s t] by (simp add: rt_stream_def)
next
  case RT_Timeout
  then show ?thesis using assms by (auto simp: rt_client_timeout_def split: rt_pc.splits if_splits)
next
  case (RT_Relay k res)
  then show ?thesis using assms by (auto simp: rt_relay_step_def rt_stream_def Let_def split: if_splits)
qed

lemma rt_ok_act:
  assumes "rt_ok net s" and "net_ok net" and "rt_act net a s = Some t" and "length (rt_stream net t) < 2 ^ 64"
  shows "rt_ok net t"
proof (cases a)
  case RT_Send
  then show ?thesis using rt_ok_send [OF assms(1,2) _ assms(4)] assms(3) by simp
next
  case RT_Timeout
  then show ?thesis using rt_ok_timeout [OF assms(1)] assms(3) by simp
next
  case RT_Recv
  then show ?thesis using rt_ok_recv [OF assms(1)] assms(3) by simp
next
  case (RT_Relay k res)
  then show ?thesis using rt_ok_relay [OF assms(1), of k res t] assms(3) by (simp split: if_splits)
next
  case RT_Serve
  then show ?thesis using rt_ok_serve [OF assms(1)] assms(3) by simp
qed

lemma rt_reach_ok:
  assumes "rt_reach net F s" and "net_ok net" and "length (rt_stream net s) < 2 ^ 64"
  shows "rt_ok net s"
  using assms(1,3)
proof (induction rule: rt_reach.induct)
  case start
  then show ?case using rt_ok_init [OF assms(2)] by simp
next
  case (step s a t)
  then show ?case using rt_ok_act [OF _ assms(2)] rt_stream_grows [of net a s t] by simp
qed

text \<open>
  C5. Whatever the relays drop, wherever the acknowledgements go and however the three
  programs interleave, the server's output file is never wrong: it is not longer than what
  the client has taken from its file, and every byte that a packet read by the server covers
  is the byte the client sent. Once every packet has been read, the file is complete.
\<close>

theorem relay_transfer_safe:
  assumes "rt_reach net F s" and "net_ok net" and "length (rt_stream net s) < 2 ^ 64"
  shows "length (ss_file (rt_srv s)) \<le> length (rt_stream net s)
    \<and> (\<forall>p \<in> set (rt_got s). \<forall>k \<in> sr_region (net_codec net) p. k < length (ss_file (rt_srv s))
         \<and> ss_file (rt_srv s) ! k = rt_stream net s ! k)
    \<and> ({..<length (rt_stream net s)} \<subseteq> (\<Union>p \<in> set (rt_got s). sr_region (net_codec net) p)
         \<longrightarrow> ss_file (rt_srv s) = rt_stream net s)"
proof -
  have a: "agrees (rt_stream net s) (\<Union>p \<in> set (rt_got s). sr_region (net_codec net) p) (ss_file (rt_srv s))"
    using rt_reach_ok [OF assms] by (simp add: rt_ok_def)
  moreover have "ss_file (rt_srv s) = rt_stream net s"
    if "{..<length (rt_stream net s)} \<subseteq> (\<Union>p \<in> set (rt_got s). sr_region (net_codec net) p)"
    using agrees_all [of "rt_stream net s" "ss_file (rt_srv s)"] a that by (auto simp: agrees_def)
  ultimately show ?thesis by (auto simp: agrees_def)
qed

text \<open>A network of two relays, with the conversions and the reader of the other transfer program.\<close>

definition example_net :: rt_net where
  "example_net = \<lparr>net_codec = identity_codec, net_chunk = get_next_chunk, net_psize = 5, net_channels = 2\<rparr>"

lemma example_net_ok: "net_ok example_net"
proof -
  have "snd (snd (snd (get_next_chunk f 5 e))) \<le> 5" for f e
    by (cases "5 \<le> length f") (simp_all add: get_next_chunk_full get_next_chunk_short)
  then show ?thesis by (simp add: net_ok_def example_net_def lossless_def)
qed

abbreviation forwards :: rt_action where "forwards \<equiv> RT_Relay 0 (\<lambda>_. False)"
abbreviation drops :: rt_action where "drops \<equiv> RT_Relay 0 (\<lambda>_. True)"

text \<open>
  The first packet is dropped twice; the second drop makes the relay remember the first client
  socket, so the acknowledgement of the second packet goes there.
\<close>

definition misled_run :: "rt_action list" where
  "misled_run = [RT_Send, drops, RT_Send, forwards, RT_Timeout, drops, RT_Serve, forwards, RT_Recv,
     RT_Timeout, forwards, RT_Serve, forwards, RT_Recv,
     RT_Send, RT_Timeout, forwards, forwards, RT_Serve, RT_Serve, forwards, forwards, RT_Recv, RT_Recv]"

lemmas rt_eval = rt_client_send_def rt_client_timeout_def rt_client_recv_def rt_relay_step_def rt_serve_def rt_ready_def
  rt_sendto_def rt_inbox_def rt_take_def rt_round_end_def rt_loop_head_def sr_send_chunk_def sr_recv_ack_def sr_fin_packet_def
  sr_retransmit_def sr_awaited_def sr_serve_def relay_iteration_def relay_forward_def relay_ack_def init_relay_def
  rt_init_def rt_init_client_def sr_init_server_def get_next_chunk_def fread_def strncpy_def fwrite_at_def Let_def upt_rec

lemma misled_run_end:
  "\<exists>s. rt_run example_net misled_run (rt_init ''abcdefghij'') = Some s \<and> rt_pc_of s = RDone
     \<and> ss_file (rt_srv s) = replicate 5 NUL @ ''fghij'' \<and> rt_stream example_net s = ''abcdefghij'' \<and> rt_got s \<noteq> []"
  by (simp add: misled_run_def example_net_def rt_eval rt_stream_def sr_payload_def)

theorem relay_transfer_safe_witness:
  "\<exists>s. rt_run example_net misled_run (rt_init ''abcdefghij'') = Some s \<and> rt_got s \<noteq> []
     \<and> length (ss_file (rt_srv s)) \<le> 10 \<and> (\<forall>p \<in> set (rt_got s). \<forall>k \<in> sr_region identity_codec p. ss_file (rt_srv s) ! k = ''abcdefghij'' ! k)"
proof -
  obtain s where s: "rt_run example_net misled_run (rt_init ''abcdefghij'') = Some s" "rt_stream example_net s = ''abcdefghij''"
      "ss_file (rt_srv s) = replicate 5 NUL @ ''fghij''" "rt_got s \<noteq> []"
    using misled_run_end by blast
  have "rt_reach example_net ''abcdefghij'' s" using s(1) by (rule rt_run_reach [OF rt_reach.start])
  moreover have "net_codec example_net = identity_codec" by (simp add: example_net_def)
  ultimately show ?thesis using relay_transfer_safe [OF _ example_net_ok, of "''abcdefghij''" s] s by auto
qed

text \<open>
  The client can end without an error although a part of the file never reached the
  server: a packet was dropped, but the acknowledgement of another packet arrived on its channel,
  and the client takes any acknowledgement for that of the channel. The server's file then has
  a gap, which it fills with NUL characters.
\<close>

theorem relay_transfer_loses_data:
  "\<exists>as s. rt_run example_net as (rt_init ''abcdefghij'') = Some s \<and> rt_pc_of s = RDone
     \<and> rt_stream example_net s = ''abcdefghij'' \<and> ss_file (rt_srv s) = replicate 5 NUL @ ''fghij''"
  using misled_run_end by blast

section \<open>The end of the transfer\<close>

text \<open>
  C29. Once the relay has left its loop, which it does when it has forwarded a final packet, a
  client that waits for the acknowledgement of the final packet, and has nothing in its socket,
  waits for ever: whatever happens, it sends the packet again and again and never ends.
\<close>

theorem client_waits_for_ever:
  assumes "rl_is_last (rt_relay s) = 1" and "rt_pc_of s = RFinWait p" and "rt_inbox 0 s = []"
    and "rt_run net as s = Some t"
  shows "rt_pc_of t = RFinWait p \<and> rt_inbox 0 t = []"
  using assms
proof (induction as arbitrary: s)
  case (Cons a as)
  then obtain u where u: "rt_act net a s = Some u" "rt_run net as u = Some t" by (auto split: option.splits)
  have "rl_is_last (rt_relay u) = 1 \<and> rt_pc_of u = RFinWait p \<and> rt_inbox 0 u = []"
  proof (cases a)
    case RT_Serve
    then obtain q qs where "rl_to_server (rt_relay s) = q # qs" using u(1) by (auto simp: rt_serve_def split: list.splits)
    then show ?thesis using RT_Serve u(1) Cons.prems(1-3)
      by (auto simp: rt_serve_def rt_inbox_def split: if_splits prod.splits)
  next
    case RT_Timeout
    then show ?thesis using u(1) Cons.prems(1-3) by (auto simp: rt_client_timeout_def rt_inbox_def)
  qed (use u(1) Cons.prems(1-3) in \<open>auto simp: rt_client_send_def rt_client_recv_def rt_take_def rt_relay_step_def split: if_splits\<close>)
  then show ?case using Cons.IH u(2) by blast
qed simp

theorem client_waits_for_ever_witness:
  "\<exists>s t p. rt_run example_net [RT_Send, forwards, RT_Serve, forwards, RT_Recv, forwards] (rt_init []) = Some s
     \<and> rt_run example_net [RT_Timeout, RT_Serve, RT_Timeout] s = Some t \<and> rt_pc_of t = RFinWait p"
proof -
  have "\<exists>s t p. rt_run example_net [RT_Send, forwards, RT_Serve, forwards, RT_Recv, forwards] (rt_init []) = Some s
     \<and> rl_is_last (rt_relay s) = 1 \<and> rt_pc_of s = RFinWait p \<and> rt_inbox 0 s = []
     \<and> rt_run example_net [RT_Timeout, RT_Serve, RT_Timeout] s = Some t"
    by (simp add: example_net_def rt_eval)
  then obtain s t p where s: "rt_run example_net [RT_Send, forwards, RT_Serve, forwards, RT_Recv, forwards] (rt_init []) = Some s"
     "rl_is_last (rt_relay s) = 1" "rt_pc_of s = RFinWait p" "rt_inbox 0 s = []"
     "rt_run example_net [RT_Timeout, RT_Serve, RT_Timeout] s = Some t" by blast
  show ?thesis using client_waits_for_ever [OF s(2-5)] s(1,5) by blast
qed

end
