(* ===== verification/Linked_Lists.thy ===== *)
theory Linked_Lists
  imports NP_Prelude
begin

text \<open>
  The packet lists of \<open>N-Channel-StopNWait/linked_list.c\<close> (data and an acknowledgement flag)
  and of \<open>FileTransfer-Selective-Repeat/linked_list.c\<close> (also the sending time and a timeout
  flag). A list is reached only through its head, so it is modelled by the list of its
  nodes; NULL is the empty list, and the \<open>prev\<close> pointers of the second version are the
  positions in that list. The locale \<open>fifo\<close> states what the two promise to a client of
  either, and is interpreted on both.
\<close>

section \<open>The interface\<close>

locale fifo =
  fixes contents :: "'q \<Rightarrow> 'a list"
    and enqueue :: "'q \<Rightarrow> 'a \<Rightarrow> 'q"
    and dequeue :: "'q \<Rightarrow> 'q"
    and nothing :: 'q
  assumes contents_nothing: "contents nothing = []"
    and contents_enqueue: "contents (enqueue q x) = contents q @ [x]"
    and contents_dequeue: "contents (dequeue q) = tl (contents q)"
begin

lemma contents_enqueue_all: "contents (foldl enqueue q xs) = contents q @ xs"
  by (induction xs arbitrary: q) (simp_all add: contents_enqueue)

lemma contents_dequeue_n: "contents ((dequeue ^^ n) q) = drop n (contents q)"
  by (induction n) (simp_all add: contents_dequeue drop_Suc tl_drop)

lemma first_in_first_out:
  "n < length xs \<Longrightarrow> hd (contents ((dequeue ^^ n) (foldl enqueue nothing xs))) = xs ! n"
  by (simp add: contents_dequeue_n contents_enqueue_all contents_nothing hd_drop_conv_nth)

end

section \<open>The list of the N-channel transfer\<close>

record LinkedList =
  acked :: bool
  ll_data :: int

definition allocate_list :: "int \<Rightarrow> LinkedList" where
  "allocate_list d = \<lparr>acked = False, ll_data = d\<rparr>"

text \<open>The walk to the last node.\<close>

fun append_last :: "'n list \<Rightarrow> 'n \<Rightarrow> 'n list" where
  "append_last [] node = [node]"
| "append_last [x] node = [x, node]"
| "append_last (x # y # xs) node = x # append_last (y # xs) node"

definition linkedlist_insert :: "LinkedList list \<Rightarrow> int \<Rightarrow> LinkedList list" where
  "linkedlist_insert list item = (case list of
       [] \<Rightarrow> [allocate_list item]
     | [x] \<Rightarrow> [x, allocate_list item]
     | _ \<Rightarrow> append_last list (allocate_list item))"

definition linkedlist_remove :: "LinkedList list \<Rightarrow> LinkedList list" where
  "linkedlist_remove list = (case list of [] \<Rightarrow> [] | [x] \<Rightarrow> [] | x # y # xs \<Rightarrow> y # xs)"

fun print_linkedlist :: "LinkedList list \<Rightarrow> string" where
  "print_linkedlist [] = [NL]"
| "print_linkedlist (n # ns) = string_of_int (ll_data n) @ '' -> '' @ print_linkedlist ns"

section \<open>The list of the selective-repeat transfer\<close>

record SRList =
  sr_acked :: bool
  sr_data :: int
  sent_time :: int
  timed_out :: bool

definition sr_allocate_list :: "int \<Rightarrow> int \<Rightarrow> SRList" where
  "sr_allocate_list d t = \<lparr>sr_acked = False, sr_data = d, sent_time = t, timed_out = False\<rparr>"

definition sr_linkedlist_insert :: "SRList list \<Rightarrow> int \<times> int \<Rightarrow> SRList list" where
  "sr_linkedlist_insert list = (\<lambda>(item, time). (case list of
       [] \<Rightarrow> [sr_allocate_list item time]
     | [x] \<Rightarrow> [x, sr_allocate_list item time]
     | _ \<Rightarrow> append_last list (sr_allocate_list item time)))"

definition sr_linkedlist_remove :: "SRList list \<Rightarrow> SRList list" where
  "sr_linkedlist_remove list = (case list of [] \<Rightarrow> [] | [x] \<Rightarrow> [] | x # y # xs \<Rightarrow> y # xs)"

section \<open>Both are first-in first-out queues\<close>

lemma append_last_snoc [simp]: "append_last xs n = xs @ [n]"
  by (induction xs n rule: append_last.induct) simp_all

lemma linkedlist_insert_snoc: "linkedlist_insert l i = l @ [allocate_list i]"
  by (auto simp: linkedlist_insert_def split: list.split)

lemma linkedlist_remove_tl: "linkedlist_remove l = tl l"
  by (auto simp: linkedlist_remove_def split: list.split)

lemma sr_linkedlist_insert_snoc: "sr_linkedlist_insert l x = l @ [sr_allocate_list (fst x) (snd x)]"
  by (auto simp: sr_linkedlist_insert_def split: list.split prod.split)

lemma sr_linkedlist_remove_tl: "sr_linkedlist_remove l = tl l"
  by (auto simp: sr_linkedlist_remove_def split: list.split)

interpretation nc: fifo "map ll_data" linkedlist_insert linkedlist_remove "[]"
  by unfold_locales
     (simp_all add: linkedlist_insert_snoc linkedlist_remove_tl allocate_list_def map_tl)

interpretation sr: fifo "map (\<lambda>n. (sr_data n, sent_time n))" sr_linkedlist_insert sr_linkedlist_remove "[]"
  by unfold_locales
     (simp_all add: sr_linkedlist_insert_snoc sr_linkedlist_remove_tl sr_allocate_list_def map_tl)

text \<open>
  The packet lists of both transfer programs are first-in first-out: after inserting
  the items of a list in order and removing \<open>n\<close> heads, the next one is the \<open>n\<close>-th item
  inserted, with its sending time where the list records it.
\<close>

theorem packet_lists_fifo:
  assumes "n < length xs" and "n < length ys"
  shows "hd (map ll_data ((linkedlist_remove ^^ n) (foldl linkedlist_insert [] xs))) = xs ! n
    \<and> hd (map (\<lambda>p. (sr_data p, sent_time p))
          ((sr_linkedlist_remove ^^ n) (foldl sr_linkedlist_insert [] ys))) = ys ! n"
  using nc.first_in_first_out [OF assms(1)] sr.first_in_first_out [OF assms(2)] by simp

theorem packet_lists_fifo_witness:
  "hd (map ll_data ((linkedlist_remove ^^ 1) (foldl linkedlist_insert [] [100, 200, 300]))) = 200"
  using packet_lists_fifo [of 1 "[100, 200, 300]" "[(1, 7), (2, 8)]"] by simp

end
