(* ===== verification/Linked_Heap.thy ===== *)
theory Linked_Heap
  imports Linked_Lists
begin

text \<open>
  The list of \<open>N-Channel-StopNWait/linked_list.c\<close> on an explicit memory: nodes with their \<open>next\<close>
  pointers, allocation and release, and the loops that follow the pointers, which do not end
  on a cyclic list and are partial functions. Main results: on a list in memory the operations
  end without a fault and implement the operations on lists of nodes, touching no other node;
  releasing a list releases exactly its nodes; and removing the only node of a list loses it.
\<close>

section \<open>Memory\<close>

record lnode =
  ln_node :: LinkedList
  ln_next :: "nat option"

record lmem =
  cells :: "nat \<rightharpoonup> lnode"
  fresh :: nat

definition lload :: "lmem \<Rightarrow> nat \<Rightarrow> cerror + lnode" where
  "lload h a = (case cells h a of None \<Rightarrow> Inl Segfault | Some n \<Rightarrow> Inr n)"

definition set_next :: "nat \<Rightarrow> nat option \<Rightarrow> lmem \<Rightarrow> cerror + lmem" where
  "set_next a p h = rbind (lload h a) (\<lambda>n. Inr (h\<lparr>cells := (cells h)(a \<mapsto> n\<lparr>ln_next := p\<rparr>)\<rparr>))"

definition lfree :: "nat \<Rightarrow> lmem \<Rightarrow> cerror + lmem" where
  "lfree a h = rbind (lload h a) (\<lambda>_. Inr (h\<lparr>cells := (cells h)(a := None)\<rparr>))"

section \<open>The operations\<close>

definition heap_allocate :: "int \<Rightarrow> lmem \<Rightarrow> nat \<times> lmem" where
  "heap_allocate d h = (fresh h, h\<lparr>cells := (cells h)(fresh h \<mapsto> \<lparr>ln_node = allocate_list d, ln_next = None\<rparr>),
     fresh := Suc (fresh h)\<rparr>)"

partial_function (option) heap_last :: "lmem \<Rightarrow> nat \<Rightarrow> (cerror + nat) option" where
  "heap_last h temp = (case lload h temp of
      Inl e \<Rightarrow> Some (Inl e)
    | Inr n \<Rightarrow> (case ln_next n of None \<Rightarrow> Some (Inr temp) | Some b \<Rightarrow> heap_last h b))"

definition heap_insert :: "lmem \<Rightarrow> nat option \<Rightarrow> int \<Rightarrow> (cerror + nat option \<times> lmem) option" where
  "heap_insert h list item = (case list of
      None \<Rightarrow> (let (b, h) = heap_allocate item h in Some (Inr (Some b, h)))
    | Some a \<Rightarrow> (case heap_last h a of
          None \<Rightarrow> None
        | Some r \<Rightarrow> Some (rbind r (\<lambda>temp.
            let (b, h) = heap_allocate item h in
            rbind (set_next temp (Some b) h) (\<lambda>h. Inr (Some a, h))))))"

definition heap_remove :: "lmem \<Rightarrow> nat option \<Rightarrow> cerror + nat option \<times> lmem" where
  "heap_remove h list = (case list of
      None \<Rightarrow> Inr (None, h)
    | Some a \<Rightarrow> rbind (lload h a) (\<lambda>n. case ln_next n of
          None \<Rightarrow> Inr (None, h)
        | Some b \<Rightarrow> rbind (set_next a None h) (\<lambda>h. rbind (lfree a h) (\<lambda>h. Inr (Some b, h)))))"

partial_function (option) heap_free :: "lmem \<Rightarrow> nat option \<Rightarrow> (cerror + lmem) option" where
  "heap_free h list = (case list of
      None \<Rightarrow> Some (Inr h)
    | Some a \<Rightarrow> (case lload h a of
          Inl e \<Rightarrow> Some (Inl e)
        | Inr n \<Rightarrow> (case lfree a h of Inl e \<Rightarrow> Some (Inl e) | Inr h \<Rightarrow> heap_free h (ln_next n))))"

partial_function (option) heap_print :: "lmem \<Rightarrow> nat option \<Rightarrow> string \<Rightarrow> (cerror + string) option" where
  "heap_print h node out = (case node of
      None \<Rightarrow> Some (Inr (out @ [NL]))
    | Some a \<Rightarrow> (case lload h a of
          Inl e \<Rightarrow> Some (Inl e)
        | Inr n \<Rightarrow> heap_print h (ln_next n) (out @ string_of_int (ll_data (ln_node n)) @ '' -> '')))"

section \<open>Lists in memory\<close>

text \<open>The list that starts at a pointer, with the addresses and the contents of its nodes.\<close>

fun holds :: "lmem \<Rightarrow> nat option \<Rightarrow> nat list \<Rightarrow> LinkedList list \<Rightarrow> bool" where
  "holds h p [] l \<longleftrightarrow> p = None \<and> l = []"
| "holds h p (a # as) l \<longleftrightarrow> p = Some a \<and> a \<notin> set as \<and>
     (\<exists>n k. cells h a = Some n \<and> l = ln_node n # k \<and> holds h (ln_next n) as k)"

definition wf_mem :: "lmem \<Rightarrow> bool" where
  "wf_mem h \<longleftrightarrow> (\<forall>a. fresh h \<le> a \<longrightarrow> cells h a = None)"

lemma lload_simps [simp]: "cells h a = Some n \<Longrightarrow> lload h a = Inr n"
  by (simp add: lload_def)

lemma holds_cong: "holds h p as l \<Longrightarrow> \<forall>a \<in> set as. cells h' a = cells h a \<Longrightarrow> holds h' p as l"
  by (induction as arbitrary: p l) auto

lemma holds_dom: "holds h p as l \<Longrightarrow> set as \<subseteq> dom (cells h)"
  by (induction as arbitrary: p l) auto

lemma holds_None [simp]: "holds h None as l \<longleftrightarrow> as = [] \<and> l = []"
  by (cases as) auto

lemma holds_length: "holds h p as l \<Longrightarrow> length l = length as"
  by (induction as arbitrary: p l) auto

lemma holds_last:
  assumes "holds h (Some a) as l"
  shows "heap_last h a = Some (Inr (last as)) \<and> last as \<in> set as"
  using assms
proof (induction as arbitrary: a l)
  case Nil
  then show ?case by simp
next
  case (Cons b as)
  then obtain n k where n: "b = a" "cells h a = Some n" "holds h (ln_next n) as k" by auto
  show ?case
  proof (cases "ln_next n")
    case None
    then show ?thesis using n by (subst heap_last.simps) simp
  next
    case (Some c)
    then have "as \<noteq> []" "heap_last h c = Some (Inr (last as)) \<and> last as \<in> set as" using n Cons.IH [of c k] by auto
    then show ?thesis using n Some by (subst heap_last.simps) simp
  qed
qed

lemma holds_append:
  assumes "holds h p as l" and "as \<noteq> []" and "cells h' b = Some \<lparr>ln_node = x, ln_next = None\<rparr>" and "b \<notin> set as"
    and "\<forall>a \<in> set (butlast as). cells h' a = cells h a"
    and "cells h' (last as) = map_option (\<lambda>n. n\<lparr>ln_next := Some b\<rparr>) (cells h (last as))"
  shows "holds h' p (as @ [b]) (l @ [x])"
  using assms
proof (induction as arbitrary: p l)
  case (Cons a as)
  show ?case
  proof (cases "as = []")
    case True
    then show ?thesis using Cons.prems by auto
  next
    case False
    then obtain n k where "cells h' a = Some n" "l = ln_node n # k" "holds h' (ln_next n) (as @ [b]) (k @ [x])"
      using Cons.prems Cons.IH by auto
    then show ?thesis using Cons.prems False by auto
  qed
qed simp

lemma heap_insert_holds:
  assumes "holds h p as l" and "wf_mem h"
  obtains q g where "heap_insert h p item = Some (Inr (q, g))" "wf_mem g"
    "holds g q (as @ [fresh h]) (linkedlist_insert l item)" "\<forall>a. a \<notin> set (as @ [fresh h]) \<longrightarrow> cells g a = cells h a"
proof (cases p)
  case None
  let ?g = "snd (heap_allocate item h)"
  have "heap_insert h p item = Some (Inr (Some (fresh h), ?g))" using None by (simp add: heap_insert_def heap_allocate_def)
  moreover have "wf_mem ?g" using assms(2) by (simp add: wf_mem_def heap_allocate_def)
  ultimately show ?thesis using None assms(1)
    by (intro that) (auto simp: heap_allocate_def linkedlist_insert_snoc)
next
  case (Some a)
  let ?b = "fresh h" and ?z = "last as"
  have z: "heap_last h a = Some (Inr ?z)" "?z \<in> set as" using holds_last assms(1) Some by blast+
  then obtain n where n: "cells h ?z = Some n" using holds_dom [OF assms(1)] by blast
  have b: "?b \<notin> set as" using assms holds_dom [OF assms(1)] by (auto simp: wf_mem_def)
  then have ne: "?z \<noteq> ?b" using z(2) by metis
  let ?new = "\<lparr>ln_node = allocate_list item, ln_next = None\<rparr>"
  let ?g = "h\<lparr>cells := (cells h)(?b \<mapsto> ?new, ?z \<mapsto> n\<lparr>ln_next := Some ?b\<rparr>), fresh := Suc ?b\<rparr>"
  have "heap_insert h p item = Some (Inr (p, ?g))"
    using Some z(1) n ne by (simp add: heap_insert_def heap_allocate_def set_next_def fun_upd_twist)
  moreover have "wf_mem ?g" using assms(2) n ne by (auto simp: wf_mem_def)
  moreover have "holds ?g p (as @ [?b]) (l @ [allocate_list item])"
  proof (rule holds_append [OF assms(1)])
    have d: "distinct as" using assms(1)
    proof (induction as arbitrary: p l)
      case (Cons a as)
      then show ?case by auto
    qed simp
    show "\<forall>a \<in> set (butlast as). cells ?g a = cells h a"
    proof
      fix a assume "a \<in> set (butlast as)"
      then have "a \<noteq> ?z" "a \<noteq> ?b"
        using d b z(2) by (metis append_butlast_last_id distinct_butlast empty_iff empty_set not_distinct_conv_prefix, metis in_set_butlastD)
      then show "cells ?g a = cells h a" by simp
    qed
  qed (use b z n ne in auto)
  moreover have "\<forall>a. a \<notin> set (as @ [?b]) \<longrightarrow> cells ?g a = cells h a" using z(2) by auto
  ultimately show ?thesis by (intro that) (auto simp: linkedlist_insert_snoc)
qed

lemma heap_remove_holds:
  assumes "holds h p as l"
  obtains q g where "heap_remove h p = Inr (q, g)" "holds g q (tl as) (linkedlist_remove l)"
    "cells g = (if 2 \<le> length as then (cells h)(hd as := None) else cells h)" "fresh g = fresh h"
proof (cases as)
  case Nil
  then show ?thesis using assms by (intro that [of None h]) (auto simp: heap_remove_def linkedlist_remove_tl)
next
  case (Cons a bs)
  then obtain n k where n: "p = Some a" "cells h a = Some n" "l = ln_node n # k" "holds h (ln_next n) bs k" "a \<notin> set bs"
    using assms by auto
  show ?thesis
  proof (cases "ln_next n")
    case None
    then show ?thesis using n Cons by (intro that [of None h]) (auto simp: heap_remove_def linkedlist_remove_tl)
  next
    case (Some b)
    let ?g = "h\<lparr>cells := (cells h)(a := None)\<rparr>"
    have "holds ?g (Some b) bs k" using holds_cong [OF n(4), of ?g] n(5) Some by auto
    moreover have "heap_remove h p = Inr (Some b, ?g)"
      using n Some by (simp add: heap_remove_def set_next_def lfree_def)
    moreover have "bs \<noteq> []" using n(4) Some by auto
    then have "2 \<le> length as" using Cons by (cases bs) auto
    ultimately show ?thesis using Cons n(3) by (intro that [of "Some b" ?g]) (auto simp: linkedlist_remove_tl)
  qed
qed

lemma heap_free_holds:
  "holds h p as l \<Longrightarrow> \<exists>g. heap_free h p = Some (Inr g) \<and> cells g = cells h |` (- set as) \<and> fresh g = fresh h"
proof (induction as arbitrary: h p l)
  case Nil
  then show ?case by (subst heap_free.simps) (simp add: restrict_map_def)
next
  case (Cons a as)
  then obtain n k where n: "p = Some a" "cells h a = Some n" "holds h (ln_next n) as k" "a \<notin> set as" by auto
  let ?h = "h\<lparr>cells := (cells h)(a := None)\<rparr>"
  have "holds ?h (ln_next n) as k" using holds_cong [OF n(3), of ?h] n(4) by auto
  then obtain g where g: "heap_free ?h (ln_next n) = Some (Inr g)" "cells g = cells ?h |` (- set as)" "fresh g = fresh ?h"
    using Cons.IH by blast
  have "cells g = cells h |` (- set (a # as))" using g(2) by (auto simp: restrict_map_def fun_eq_iff)
  then show ?case using n g(1,3) by (subst heap_free.simps) (simp add: lfree_def)
qed

lemma heap_print_holds: "holds h p as l \<Longrightarrow> heap_print h p out = Some (Inr (out @ print_linkedlist l))"
proof (induction as arbitrary: p l out)
  case Nil
  then show ?case by (subst heap_print.simps) simp
next
  case (Cons a as)
  then show ?case by (subst heap_print.simps) auto
qed

section \<open>Properties\<close>

text \<open>A use of a list: inserting an item at its end, or removing its head.\<close>

datatype list_op = Insert int | Remove

fun abstract_op :: "LinkedList list \<Rightarrow> list_op \<Rightarrow> LinkedList list" where
  "abstract_op l (Insert i) = linkedlist_insert l i"
| "abstract_op l Remove = linkedlist_remove l"

fun heap_op :: "(nat option \<times> lmem) \<Rightarrow> list_op \<Rightarrow> (cerror + nat option \<times> lmem) option" where
  "heap_op (p, h) (Insert i) = heap_insert h p i"
| "heap_op (p, h) Remove = Some (heap_remove h p)"

fun heap_ops :: "(nat option \<times> lmem) \<Rightarrow> list_op list \<Rightarrow> (cerror + nat option \<times> lmem) option" where
  "heap_ops s [] = Some (Inr s)"
| "heap_ops s (x # xs) = (case heap_op s x of Some (Inr t) \<Rightarrow> heap_ops t xs | r \<Rightarrow> r)"

lemma heap_op_refines:
  assumes "holds h p as l" and "wf_mem h"
  shows "\<exists>q g bs. heap_op (p, h) x = Some (Inr (q, g)) \<and> wf_mem g \<and> holds g q bs (abstract_op l x)"
proof (cases x)
  case (Insert i)
  obtain q g where "heap_insert h p i = Some (Inr (q, g))" "wf_mem g" "holds g q (as @ [fresh h]) (linkedlist_insert l i)"
    by (rule heap_insert_holds [OF assms])
  then show ?thesis using Insert by auto
next
  case Remove
  obtain q g where g: "heap_remove h p = Inr (q, g)" "holds g q (tl as) (linkedlist_remove l)"
    "cells g = (if 2 \<le> length as then (cells h)(hd as := None) else cells h)" "fresh g = fresh h"
    by (rule heap_remove_holds [OF assms(1)])
  then have "wf_mem g" using assms(2) by (simp add: wf_mem_def)
  then show ?thesis using Remove g(1,2) by auto
qed

text \<open>
  C32. The list on the heap implements the abstract list. Starting with a list in memory, any
  sequence of insertions and removals ends without a fault, and the list it leaves in memory
  has the contents that the operations on lists of nodes compute; printing it shows them, and
  releasing it ends and removes exactly its nodes from the memory.
\<close>

theorem heap_list_refines:
  assumes "holds h p as l" and "wf_mem h"
  shows "\<exists>q g bs. heap_ops (p, h) xs = Some (Inr (q, g)) \<and> holds g q bs (foldl abstract_op l xs)
    \<and> heap_print g q [] = Some (Inr (print_linkedlist (foldl abstract_op l xs)))
    \<and> (\<exists>f. heap_free g q = Some (Inr f) \<and> cells f = cells g |` (- set bs))"
  using assms
proof (induction xs arbitrary: h p as l)
  case Nil
  then show ?case using heap_print_holds [of h p as l "[]"] heap_free_holds [of h p as l] by auto
next
  case (Cons x xs)
  obtain q g bs where g: "heap_op (p, h) x = Some (Inr (q, g))" "wf_mem g" "holds g q bs (abstract_op l x)"
    using heap_op_refines [OF Cons.prems] by blast
  from Cons.IH [OF g(3,2)] show ?case using g(1) by simp
qed

definition no_cells :: lmem where
  "no_cells = \<lparr>cells = Map.empty, fresh = 0\<rparr>"

theorem heap_list_refines_witness:
  "\<exists>q g. heap_ops (None, no_cells) [Insert 7, Insert 8, Remove] = Some (Inr (q, g))
     \<and> heap_print g q [] = Some (Inr (string_of_int 8 @ '' -> '' @ [NL]))"
proof -
  have "print_linkedlist (foldl abstract_op [] [Insert 7, Insert 8, Remove]) = string_of_int 8 @ '' -> '' @ [NL]"
    by (simp add: linkedlist_insert_snoc linkedlist_remove_tl allocate_list_def)
  then show ?thesis
    using heap_list_refines [of no_cells None "[]" "[]" "[Insert 7, Insert 8, Remove]"]
    by (auto simp: no_cells_def wf_mem_def)
qed

text \<open>
  Removing the only node of a list returns the empty list and leaves the node in memory, where
  nothing refers to it any more; from a longer list the node is released.
\<close>

theorem last_removal_leaks:
  assumes "holds h (Some a) as l"
  shows "\<exists>q g. heap_remove h (Some a) = Inr (q, g) \<and> (cells g a \<noteq> None \<longleftrightarrow> q = None)"
proof -
  obtain q g where g: "heap_remove h (Some a) = Inr (q, g)" "holds g q (tl as) (linkedlist_remove l)"
    "cells g = (if 2 \<le> length as then (cells h)(hd as := None) else cells h)"
    by (rule heap_remove_holds [OF assms])
  obtain bs where as: "as = a # bs" "cells h a \<noteq> None" using assms by (cases as) auto
  show ?thesis using g as by (cases bs) auto
qed

theorem last_removal_leaks_witness:
  "\<exists>q g. heap_remove \<lparr>cells = [0 \<mapsto> \<lparr>ln_node = allocate_list 5, ln_next = None\<rparr>], fresh = 1\<rparr> (Some 0) = Inr (q, g) \<and> q = None"
  using last_removal_leaks [of "\<lparr>cells = [0 \<mapsto> \<lparr>ln_node = allocate_list 5, ln_next = None\<rparr>], fresh = 1\<rparr>" 0 "[0]" "[allocate_list 5]"]
  by (auto simp: heap_remove_def)

end
