(* ===== verification/Load_Balancer.thy ===== *)
theory Load_Balancer
  imports NP_Prelude
begin

text \<open>
  The process queue of \<open>Load Balancer/load_balancer.h\<close> and the dispatch loop of
  \<open>load_balancer.c\<close>. The queue is a doubly linked list whose nodes carry their own
  \<open>front\<close> and \<open>rear\<close> pointers, so aliasing decides what the program does: the model keeps
  an explicit heap of nodes, NULL is \<open>None\<close>, and following NULL or a freed node is a
  segmentation fault. Main results: the queue that \<open>main\<close> builds is well formed, one
  \<open>shift_queue\<close> on it rotates the chain, but the new head's own \<open>front\<close> pointer is stale,
  so dispatching is not round robin; with one child the first shift dereferences NULL.
\<close>

section \<open>The heap of queue nodes\<close>

type_synonym ptr = "nat option"

record qnode =
  pid :: int
  rear :: ptr
  front :: ptr
  prev :: ptr
  next_node :: ptr

record qheap =
  mem :: "nat \<rightharpoonup> qnode"
  brk :: nat

definition empty_heap :: qheap where
  "empty_heap = \<lparr>mem = Map.empty, brk = 0\<rparr>"

definition load :: "qheap \<Rightarrow> ptr \<Rightarrow> cerror + qnode" where
  "load h p = (case p of None \<Rightarrow> Inl Segfault
     | Some a \<Rightarrow> (case mem h a of None \<Rightarrow> Inl Segfault | Some n \<Rightarrow> Inr n))"

text \<open>Assigning to fields of the node a pointer refers to.\<close>

definition store :: "qheap \<Rightarrow> ptr \<Rightarrow> (qnode \<Rightarrow> qnode) \<Rightarrow> cerror + qheap" where
  "store h p f = rbind (load h p) (\<lambda>n. Inr (h\<lparr>mem := (mem h)(the p \<mapsto> f n)\<rparr>))"

definition malloc :: "qheap \<Rightarrow> qnode \<Rightarrow> nat \<times> qheap" where
  "malloc h n = (brk h, h\<lparr>mem := (mem h)(brk h \<mapsto> n), brk := Suc (brk h)\<rparr>)"

definition free_node :: "qheap \<Rightarrow> ptr \<Rightarrow> qheap" where
  "free_node h p = (case p of None \<Rightarrow> h | Some a \<Rightarrow> h\<lparr>mem := (mem h)(a := None)\<rparr>)"

section \<open>The queue operations\<close>

definition create_queue :: "qheap \<Rightarrow> int \<Rightarrow> ptr \<times> qheap" where
  "create_queue h d =
     (let a = brk h in
      map_prod Some id (malloc h \<lparr>pid = d, rear = Some a, front = Some a, prev = None, next_node = None\<rparr>))"

definition push :: "qheap \<Rightarrow> ptr \<Rightarrow> int \<Rightarrow> cerror + (ptr \<times> qheap)" where
  "push h head d =
     (if head = None then Inr (create_queue h d)
      else rbind (load h head) (\<lambda>hn.
        let a = brk h;
            (_, h1) = malloc h \<lparr>pid = d, rear = Some a, front = front hn, prev = None, next_node = head\<rparr>
        in rbind (store h1 head (\<lambda>n. n\<lparr>prev := Some a\<rparr>)) (\<lambda>h2. Inr (Some a, h2))))"

definition pop :: "qheap \<Rightarrow> ptr \<Rightarrow> cerror + qheap" where
  "pop h head =
     rbind (load h head) (\<lambda>hn.
     rbind (load h (front hn)) (\<lambda>tn.
       if prev tn \<noteq> None then
         rbind (store h (prev tn) (\<lambda>n. n\<lparr>next_node := None\<rparr>)) (\<lambda>h1.
         rbind (store h1 (front hn) (\<lambda>n. n\<lparr>prev := None\<rparr>)) (\<lambda>h2.
         rbind (store h2 head (\<lambda>n. n\<lparr>front := prev tn\<rparr>)) (\<lambda>h3.
           Inr (free_node h3 (front hn)))))
       else Inr (free_node h (front hn))))"

definition shift_queue :: "qheap \<Rightarrow> ptr \<Rightarrow> cerror + (ptr \<times> qheap)" where
  "shift_queue h head =
     rbind (load h head) (\<lambda>hn.
     let temp = front hn; temp2 = rear hn in
     rbind (load h temp) (\<lambda>tn.
     let previous = prev tn in
     rbind (store h previous (\<lambda>n. n\<lparr>next_node := None\<rparr>)) (\<lambda>h1.
     rbind (store h1 head (\<lambda>n. n\<lparr>front := previous\<rparr>)) (\<lambda>h2.
     rbind (store h2 temp (\<lambda>n. n\<lparr>next_node := temp2\<rparr>)) (\<lambda>h3.
     rbind (store h3 temp2 (\<lambda>n. n\<lparr>prev := temp\<rparr>)) (\<lambda>h4.
     rbind (store h4 head (\<lambda>n. n\<lparr>rear := temp\<rparr>)) (\<lambda>h5.
       Inr (temp, h5))))))))"

text \<open>
  \<open>print_queue\<close> follows the \<open>next\<close> pointers; on a cyclic chain it does not return, which
  is the value \<open>None\<close>.
\<close>

partial_function (option) print_queue :: "qheap \<Rightarrow> ptr \<Rightarrow> string \<Rightarrow> (cerror + string) option" where
  "print_queue h temp out =
     (if temp = None then Some (Inr out)
      else (case load h temp of
          Inl e \<Rightarrow> Some (Inl e)
        | Inr n \<Rightarrow> print_queue h (next_node n)
            (out @ ''PID: '' @ string_of_int (pid n) @ (if next_node n = None then [NL] else '' -> ''))))"

section \<open>The dispatcher\<close>

text \<open>Building the queue of the children's process identifiers, oldest first.\<close>

fun push_all :: "qheap \<Rightarrow> ptr \<Rightarrow> int list \<Rightarrow> cerror + (ptr \<times> qheap)" where
  "push_all h head [] = Inr (head, h)"
| "push_all h head (c # cs) = rbind (push h head c) (\<lambda>(head', h'). push_all h' head' cs)"

definition build_queue :: "int list \<Rightarrow> cerror + (ptr \<times> qheap)" where
  "build_queue cpid = (case cpid of
       [] \<Rightarrow> Inr (None, empty_heap)
     | c # cs \<Rightarrow> (let (head, h) = create_queue empty_heap c in push_all h head cs))"

text \<open>
  \<open>k\<close> rounds of the endless loop of \<open>main\<close>: the children that were signalled, in order.
\<close>

fun dispatch :: "nat \<Rightarrow> qheap \<Rightarrow> ptr \<Rightarrow> cerror + int list" where
  "dispatch 0 h head = Inr []"
| "dispatch (Suc k) h head =
     rbind (load h head) (\<lambda>hn.
     rbind (load h (front hn)) (\<lambda>fn.
     rbind (shift_queue h head) (\<lambda>(head', h').
     rbind (dispatch k h' head') (\<lambda>ps. Inr (pid fn # ps)))))"

definition load_balancer :: "int list \<Rightarrow> nat \<Rightarrow> cerror + int list" where
  "load_balancer cpid k = rbind (build_queue cpid) (\<lambda>(head, h). dispatch k h head)"

section \<open>Well-formed queues\<close>

definition dll :: "qheap \<Rightarrow> nat list \<Rightarrow> bool" where
  "dll h as \<longleftrightarrow> distinct as \<and> (\<forall>a \<in> set as. a < brk h) \<and>
     (\<forall>i < length as. \<exists>n. mem h (as ! i) = Some n \<and> rear n = Some (as ! i) \<and> front n = Some (last as)
        \<and> prev n = (if i = 0 then None else Some (as ! (i - 1)))
        \<and> next_node n = (if Suc i < length as then Some (as ! Suc i) else None))"

definition pids_of :: "qheap \<Rightarrow> nat list \<Rightarrow> int list" where
  "pids_of h as = map (\<lambda>a. pid (the (mem h a))) as"

lemma load_simps [simp]:
  "load h None = Inl Segfault" "load h (Some a) = (case mem h a of None \<Rightarrow> Inl Segfault | Some n \<Rightarrow> Inr n)"
  by (simp_all add: load_def)

lemma dll_nth:
  assumes "dll h as" "i < length as"
  obtains n where "mem h (as ! i) = Some n" "rear n = Some (as ! i)" "front n = Some (last as)"
    "prev n = (if i = 0 then None else Some (as ! (i - 1)))"
    "next_node n = (if Suc i < length as then Some (as ! Suc i) else None)"
  using assms by (auto simp: dll_def)

lemma create_queue_dll:
  "\<exists>h. create_queue empty_heap c = (Some 0, h) \<and> dll h [0] \<and> pids_of h [0] = [c]"
  by (simp add: create_queue_def malloc_def empty_heap_def dll_def pids_of_def)

lemma push_dll:
  assumes wf: "dll h (a # as)"
  shows "\<exists>h'. push h (Some a) d = Inr (Some (brk h), h') \<and> dll h' (brk h # a # as)
     \<and> pids_of h' (brk h # a # as) = d # pids_of h (a # as)"
proof -
  obtain n where n: "mem h a = Some n" "front n = Some (last (a # as))" "prev n = None"
    using dll_nth [OF wf, of 0] by (metis length_greater_0_conv list.distinct(1) nth_Cons_0)
  let ?b = "brk h"
  let ?new = "\<lparr>pid = d, rear = Some ?b, front = front n, prev = None, next_node = Some a\<rparr>"
  let ?h = "h\<lparr>mem := (mem h)(?b \<mapsto> ?new, a \<mapsto> n\<lparr>prev := Some ?b\<rparr>), brk := Suc ?b\<rparr>"
  have fresh: "?b \<notin> set (a # as)" and lt: "\<forall>x \<in> set (a # as). x < ?b"
    using wf by (auto simp: dll_def)
  then have ne: "?b \<noteq> a" "a \<noteq> ?b" by auto
  have "push h (Some a) d = Inr (Some ?b, ?h)"
    using n ne by (simp add: push_def store_def malloc_def Let_def fun_upd_twist)
  moreover have "dll ?h (?b # a # as)"
    unfolding dll_def
  proof (intro conjI ballI allI impI)
    show "distinct (?b # a # as)" using wf fresh by (simp add: dll_def)
    show "x < brk ?h" if "x \<in> set (?b # a # as)" for x using that lt by auto
    fix i assume i: "i < length (?b # a # as)"
    show "\<exists>m. mem ?h ((?b # a # as) ! i) = Some m \<and> rear m = Some ((?b # a # as) ! i)
        \<and> front m = Some (last (?b # a # as))
        \<and> prev m = (if i = 0 then None else Some ((?b # a # as) ! (i - 1)))
        \<and> next_node m = (if Suc i < length (?b # a # as) then Some ((?b # a # as) ! Suc i) else None)"
    proof (cases i)
      case 0
      then show ?thesis using n ne by simp
    next
      case (Suc j)
      then have j: "j < length (a # as)" using i by simp
      obtain m where m: "mem h ((a # as) ! j) = Some m" "rear m = Some ((a # as) ! j)"
        "front m = Some (last (a # as))" "prev m = (if j = 0 then None else Some ((a # as) ! (j - 1)))"
        "next_node m = (if Suc j < length (a # as) then Some ((a # as) ! Suc j) else None)"
        using dll_nth [OF wf j] by blast
      have inb: "(a # as) ! j \<noteq> ?b" using fresh j nth_mem by metis
      show ?thesis
      proof (cases "j = 0")
        case True
        then show ?thesis using Suc m n ne by auto
      next
        case False
        then have "(a # as) ! j \<noteq> a"
          using wf j by (auto simp: dll_def nth_Cons')
        then show ?thesis using Suc m inb False by (auto simp: nth_Cons')
      qed
    qed
  qed
  moreover have "pids_of ?h (?b # a # as) = d # pids_of h (a # as)"
    using n ne fresh by (auto simp: pids_of_def)
  ultimately show ?thesis by blast
qed

lemma push_all_dll:
  assumes "dll h (a # as)"
  shows "\<exists>h' b bs. push_all h (Some a) cs = Inr (Some b, h') \<and> dll h' (b # bs)
     \<and> pids_of h' (b # bs) = rev cs @ pids_of h (a # as)"
  using assms
proof (induction cs arbitrary: h a as)
  case Nil
  then show ?case by auto
next
  case (Cons c cs)
  obtain h' where h': "push h (Some a) c = Inr (Some (brk h), h')" "dll h' (brk h # a # as)"
    "pids_of h' (brk h # a # as) = c # pids_of h (a # as)"
    using push_dll [OF Cons.prems] by blast
  from Cons.IH [OF h'(2)] h'(1,3) show ?case by auto
qed

lemma build_queue_dll:
  assumes "cpid \<noteq> []"
  shows "\<exists>h b bs. build_queue cpid = Inr (Some b, h) \<and> dll h (b # bs) \<and> pids_of h (b # bs) = rev cpid"
proof -
  obtain c cs where c: "cpid = c # cs" using assms by (cases cpid) auto
  obtain h where h: "create_queue empty_heap c = (Some 0, h)" "dll h [0]" "pids_of h [0] = [c]"
    using create_queue_dll by blast
  show ?thesis using push_all_dll [OF h(2), of cs] h(1,3) by (auto simp: build_queue_def c)
qed

fun chain :: "qheap \<Rightarrow> ptr \<Rightarrow> nat list \<Rightarrow> bool" where
  "chain h p [] \<longleftrightarrow> p = None"
| "chain h p (a # as) \<longleftrightarrow> p = Some a \<and> (\<exists>n. mem h a = Some n \<and> chain h (next_node n) as)"

lemma chain_iff_nth:
  "chain h p as \<longleftrightarrow> p = (if as = [] then None else Some (hd as)) \<and>
     (\<forall>i < length as. \<exists>n. mem h (as ! i) = Some n
        \<and> next_node n = (if Suc i < length as then Some (as ! Suc i) else None))"
proof (induction as arbitrary: p)
  case Nil
  then show ?case by simp
next
  case (Cons a as)
  show ?case
    using Cons.IH by (auto simp: All_less_Suc2 hd_conv_nth split: if_splits)
qed

lemma dll_chain: "dll h (a # as) \<Longrightarrow> chain h (Some a) (a # as)"
  unfolding chain_iff_nth dll_def by fastforce

text \<open>Cutting the list before its last node: the node before it gets no successor.\<close>

lemma chain_butlast:
  assumes wf: "dll h as" and two: "2 \<le> length as"
    and cut: "\<And>i n. Suc i < length as \<Longrightarrow> mem h (as ! i) = Some n \<Longrightarrow>
      \<exists>n'. mem h' (as ! i) = Some n' \<and> next_node n' = (if Suc (Suc i) = length as then None else next_node n)"
  shows "chain h' (Some (hd as)) (butlast as)"
  unfolding chain_iff_nth
proof (intro conjI allI impI)
  show "Some (hd as) = (if butlast as = [] then None else Some (hd (butlast as)))" using two by (cases as) auto
  fix i assume "i < length (butlast as)"
  then have i: "Suc i < length as" by simp
  obtain n where n: "mem h (as ! i) = Some n" "next_node n = Some (as ! Suc i)"
    by (rule dll_nth [OF wf Suc_lessD [OF i]]) (use i in auto)
  show "\<exists>n. mem h' (butlast as ! i) = Some n \<and>
      next_node n = (if Suc i < length (butlast as) then Some (butlast as ! Suc i) else None)"
    using cut [OF i n(1)] n(2) i by (auto simp: nth_butlast)
qed

lemma shift_queue_dll:
  assumes wf: "dll h as" and two: "2 \<le> length as"
  obtains h' tn where "shift_queue h (Some (hd as)) = Inr (Some (last as), h')"
    "chain h' (Some (last as)) (last as # butlast as)"
    "mem h' (last as) = Some tn" "front tn = Some (last as)" "rear tn = Some (last as)"
    "\<exists>y. prev tn = Some y \<and> mem h' y \<noteq> None \<and> y \<noteq> last as" "pids_of h' as = pids_of h as"
proof -
  let ?k = "length as - 1"
  let ?a = "hd as" and ?z = "last as" and ?y = "as ! (?k - 1)"
  have "as \<noteq> []" using two by auto
  then have a: "?a = as ! 0" and z: "?z = as ! ?k" by (auto simp: hd_conv_nth last_conv_nth)
  have k: "0 < ?k" "?k < length as" "0 < length as" "?k - 1 < length as" "?k - 1 \<noteq> ?k"
    using two by auto
  have dist: "distinct as" using wf by (simp add: dll_def)
  have ne: "?a \<noteq> ?z" "?y \<noteq> ?z"
    unfolding a z using dist k nth_eq_iff_index_eq [OF dist] by (metis less_irrefl)+
  obtain hn where hn: "mem h ?a = Some hn" "rear hn = Some ?a" "front hn = Some ?z"
    by (rule dll_nth [OF wf k(3)]) (auto simp flip: a)
  obtain tn where tn: "mem h ?z = Some tn" "front tn = Some ?z" "prev tn = Some ?y" "rear tn = Some ?z"
    by (rule dll_nth [OF wf k(2)]) (use k z in \<open>auto simp flip: z\<close>)
  obtain yn where yn: "mem h ?y = Some yn"
    using dll_nth [OF wf, of "?k - 1"] k by (metis less_imp_diff_less)
  let ?hn' = "(if ?y = ?a then hn\<lparr>next_node := None\<rparr> else hn)\<lparr>front := Some ?y, prev := Some ?z, rear := Some ?z\<rparr>"
  let ?m = "(mem h)(?y \<mapsto> yn\<lparr>next_node := None\<rparr>, ?z \<mapsto> tn\<lparr>next_node := Some ?a\<rparr>, ?a \<mapsto> ?hn')"
  let ?h = "h\<lparr>mem := ?m\<rparr>"
  have "shift_queue h (Some ?a) = Inr (Some ?z, ?h)"
  proof (cases "?y = ?a")
    case True
    then show ?thesis
      using hn tn yn ne by (simp add: shift_queue_def store_def Let_def fun_upd_twist)
  next
    case False
    then show ?thesis
      using hn tn yn ne by (simp add: shift_queue_def store_def Let_def fun_upd_twist)
  qed
  moreover have "mem ?h ?z = Some (tn\<lparr>next_node := Some ?a\<rparr>)" using ne by simp
  moreover have "pids_of ?h as = pids_of h as"
    using hn(1) tn(1) yn by (auto simp: pids_of_def)
  moreover have "chain ?h (Some ?a) (butlast as)"
  proof (rule chain_butlast [OF wf two])
    fix i n assume i: "Suc i < length as" and n: "mem h (as ! i) = Some n"
    have "as ! i \<noteq> ?z" "as ! i = ?a \<longleftrightarrow> i = 0" "as ! i = ?y \<longleftrightarrow> Suc (Suc i) = length as"
      unfolding a z using i k nth_eq_iff_index_eq [OF dist, of i] by auto
    then show "\<exists>n'. mem ?h (as ! i) = Some n' \<and> next_node n' = (if Suc (Suc i) = length as then None else next_node n)"
      using n hn(1) yn by auto
  qed
  then have "chain ?h (Some ?z) (?z # butlast as)" using ne by simp
  ultimately show ?thesis using tn(2-4) yn ne by (intro that [of ?h "tn\<lparr>next_node := Some ?a\<rparr>"]) auto
qed

section \<open>Properties\<close>

text \<open>
  C31. The queue \<open>main\<close> builds from the process identifiers of its children (at least one)
  is built without a fault and is a well-formed doubly linked list: youngest child first,
  every node's \<open>front\<close> pointing to the oldest child, following \<open>next\<close> from the head visits
  every child once.
\<close>

theorem build_queue_well_formed:
  assumes "cpid \<noteq> []"
  shows "\<exists>h as. build_queue cpid = Inr (Some (hd as), h) \<and> as \<noteq> [] \<and> dll h as
    \<and> chain h (Some (hd as)) as \<and> pids_of h as = rev cpid"
proof -
  obtain h b bs where "build_queue cpid = Inr (Some b, h)" "dll h (b # bs)" "pids_of h (b # bs) = rev cpid"
    using build_queue_dll [OF assms] by blast
  then show ?thesis by (intro exI [of _ h] exI [of _ "b # bs"]) (simp add: dll_chain del: chain.simps)
qed

theorem build_queue_well_formed_witness:
  "\<exists>h as. build_queue [11, 12] = Inr (Some (hd as), h) \<and> pids_of h as = [12, 11]"
  using build_queue_well_formed [of "[11, 12]"] by auto

text \<open>
  On a well-formed queue of at least two children \<open>shift_queue\<close> rotates the chain: it
  returns the front (the oldest entry) as the new head, and following \<open>next\<close> from there
  visits that entry and then the others in their old order; process identifiers are kept.
\<close>

theorem shift_queue_rotates:
  assumes "dll h as" and "2 \<le> length as"
  shows "\<exists>h'. shift_queue h (Some (hd as)) = Inr (Some (last as), h')
    \<and> chain h' (Some (last as)) (last as # butlast as) \<and> pids_of h' as = pids_of h as"
  using shift_queue_dll [OF assms] by metis

theorem shift_queue_rotates_witness:
  "\<exists>h as. build_queue [11, 12] = Inr (Some (hd as), h) \<and>
     (\<exists>h'. shift_queue h (Some (hd as)) = Inr (Some (last as), h') \<and> pids_of h' as = [12, 11])"
proof -
  obtain h b bs where q: "build_queue [11, 12] = Inr (Some b, h)" "dll h (b # bs)"
      "pids_of h (b # bs) = rev [11, 12]"
    using build_queue_dll [of "[11, 12]"] by blast
  then have "length (pids_of h (b # bs)) = 2" by simp
  then have "2 \<le> length (b # bs)" by (simp add: pids_of_def)
  then show ?thesis
    using shift_queue_rotates [OF q(2)] q by (intro exI [of _ h] exI [of _ "b # bs"]) auto
qed

text \<open>
  Dispatching is not round robin: for any two or more children the first two signals of
  the dispatch loop both go to the first child, because \<open>shift_queue\<close> updates the \<open>front\<close>
  pointer of the old head while the loop goes on to read the one of the new head.
\<close>

theorem dispatch_not_round_robin:
  assumes "2 \<le> length cpid"
  shows "load_balancer cpid 2 = Inr [hd cpid, hd cpid]"
proof -
  have "cpid \<noteq> []" using assms by auto
  then obtain h as where q: "build_queue cpid = Inr (Some (hd as), h)" "dll h as" "pids_of h as = rev cpid"
    using build_queue_dll by (metis list.sel(1))
  have two: "2 \<le> length as" using q(3) assms by (metis length_map length_rev pids_of_def)
  then have "as \<noteq> []" by auto
  then have "0 < length as" "length as - 1 < length as" by auto
  then obtain n zn where n: "mem h (hd as) = Some n" "front n = Some (last as)" and zn: "mem h (last as) = Some zn"
    using dll_nth [OF q(2)] \<open>as \<noteq> []\<close> by (metis hd_conv_nth last_conv_nth)
  obtain h' tn where s: "shift_queue h (Some (hd as)) = Inr (Some (last as), h')"
      "mem h' (last as) = Some tn" "front tn = Some (last as)" "rear tn = Some (last as)"
      "\<exists>y. prev tn = Some y \<and> mem h' y \<noteq> None \<and> y \<noteq> last as" "pids_of h' as = pids_of h as"
    using shift_queue_dll [OF q(2) two] by metis
  have last_pid: "last (pids_of g as) = pid (the (mem g (last as)))" for g
    using \<open>as \<noteq> []\<close> by (simp add: pids_of_def last_map)
  have p: "pid (the (mem h (last as))) = hd cpid" "pid tn = hd cpid"
    using last_pid [of h] last_pid [of h'] s(2,6) q(3) \<open>cpid \<noteq> []\<close> by (auto simp: last_rev)
  have "\<exists>r. shift_queue h' (Some (last as)) = Inr r"
    using s(2-5) by (auto simp: shift_queue_def store_def Let_def)
  then show ?thesis
    using q(1) n zn s(1-3) p
    by (auto simp: load_balancer_def numeral_2_eq_2 split: prod.splits)
qed

theorem dispatch_not_round_robin_witness:
  "load_balancer [10, 20, 30] 2 = Inr [10, 10]"
  using dispatch_not_round_robin [of "[10, 20, 30]"] by simp

text \<open>
  With a single child the load balancer crashes after the first signal: the front node
  has no predecessor and \<open>shift_queue\<close> writes through the NULL pointer.
\<close>

theorem single_child_segfault: "load_balancer [c] (Suc k) = Inl Segfault"
  by (simp add: load_balancer_def build_queue_def create_queue_def malloc_def empty_heap_def
      shift_queue_def store_def Let_def)

end
