(* ===== verification/Load_Rotor.thy ===== *)
theory Load_Rotor
  imports Load_Balancer
begin

text \<open>
  What the dispatch loop of \<open>load_balancer.c\<close> does in the long run. The nodes of the queue keep
  a \<open>front\<close> pointer each, and a shift advances only the one of the old head; the loop is a
  rotor walk on the children: from a child the walk goes to the one its rotor points to, and
  the rotor moves on by one. The theory shows that the pointer operations on the heap
  implement this walk for at least two children, and computes its period: not a round robin,
  but a cycle in which every child is signalled equally often.
\<close>

section \<open>The rotor walk\<close>

text \<open>One step: the child that is signalled, and the new position and rotors.\<close>

definition next_child :: "nat \<Rightarrow> nat \<Rightarrow> nat" where
  "next_child n i = Suc i mod n"

definition rotor_step :: "nat \<Rightarrow> nat \<times> (nat \<Rightarrow> nat) \<Rightarrow> nat \<times> (nat \<Rightarrow> nat)" where
  "rotor_step n = (\<lambda>(a, F). (F a, F(a := next_child n (F a))))"

primrec rotor_walk :: "nat \<Rightarrow> nat \<Rightarrow> nat \<times> (nat \<Rightarrow> nat) \<Rightarrow> nat list \<times> nat \<times> (nat \<Rightarrow> nat)" where
  "rotor_walk n 0 s = ([], s)"
| "rotor_walk n (Suc k) s =
     (let s' = rotor_step n s; (visited, t) = rotor_walk n k s' in (fst s' # visited, t))"

lemma fst_rotor_walk_Suc [simp]:
  "fst (rotor_walk n (Suc k) s) = fst (rotor_step n s) # fst (rotor_walk n k (rotor_step n s))"
  by (simp add: Let_def split: prod.split)

text \<open>One period of the walk, block by block.\<close>

definition block :: "nat \<Rightarrow> nat \<Rightarrow> nat list" where
  "block n k = k # concat (map (\<lambda>j. [k, j]) [Suc k..<n])"

definition cycle :: "nat \<Rightarrow> nat list" where
  "cycle n = concat (map (block n) [0..<n])"

section \<open>The heap implements the walk\<close>

text \<open>
  The pointer fields of the nodes as functions of their addresses; the node of the child with
  index \<open>i\<close> has address \<open>i\<close>.
\<close>

definition qrep :: "int list \<Rightarrow> qheap \<Rightarrow> (nat \<Rightarrow> nat) \<Rightarrow> (nat \<Rightarrow> nat) \<Rightarrow> (nat \<Rightarrow> ptr) \<Rightarrow> bool" where
  "qrep cpid h F R Q \<longleftrightarrow> (\<forall>i < length cpid. \<exists>nd. mem h i = Some nd \<and> pid nd = cpid ! i
     \<and> front nd = Some (F i) \<and> rear nd = Some (R i) \<and> prev nd = Q i)"

lemma qrep_nth:
  assumes "qrep cpid h F R Q" and "i < length cpid"
  obtains nd where "mem h i = Some nd" "pid nd = cpid ! i" "front nd = Some (F i)"
    "rear nd = Some (R i)" "prev nd = Q i"
  using assms by (auto simp: qrep_def)

lemma qrep_store:
  assumes q: "qrep cpid h F R Q" and i: "i < length cpid"
    and f: "\<And>nd. pid (f nd) = pid nd"
    and nd: "\<And>nd. front nd = Some (F i) \<Longrightarrow> rear nd = Some (R i) \<Longrightarrow> prev nd = Q i \<Longrightarrow>
      front (f nd) = Some x \<and> rear (f nd) = Some y \<and> prev (f nd) = z"
  shows "\<exists>h'. store h (Some i) f = Inr h' \<and> qrep cpid h' (F(i := x)) (R(i := y)) (Q(i := z))"
proof -
  obtain m where m: "mem h i = Some m" "pid m = cpid ! i" "front m = Some (F i)" "rear m = Some (R i)" "prev m = Q i"
    by (rule qrep_nth [OF q i])
  have "qrep cpid (h\<lparr>mem := (mem h)(i \<mapsto> f m)\<rparr>) (F(i := x)) (R(i := y)) (Q(i := z))"
    using q nd [OF m(3-5)] m(2) by (simp add: qrep_def f)
  then show ?thesis using m(1) by (simp add: store_def)
qed

lemma qrep_next:
  assumes "qrep cpid h F R Q" and "i < length cpid"
  shows "\<exists>h'. store h (Some i) (\<lambda>n. n\<lparr>next_node := p\<rparr>) = Inr h' \<and> qrep cpid h' F R Q"
  using qrep_store [OF assms, of "\<lambda>n. n\<lparr>next_node := p\<rparr>" "F i" "R i" "Q i"] by simp

lemma qrep_front:
  assumes "qrep cpid h F R Q" and "i < length cpid"
  shows "\<exists>h'. store h (Some i) (\<lambda>n. n\<lparr>front := Some p\<rparr>) = Inr h' \<and> qrep cpid h' (F(i := p)) R Q"
  using qrep_store [OF assms, of "\<lambda>n. n\<lparr>front := Some p\<rparr>" p "R i" "Q i"] by simp

lemma qrep_rear:
  assumes "qrep cpid h F R Q" and "i < length cpid"
  shows "\<exists>h'. store h (Some i) (\<lambda>n. n\<lparr>rear := Some p\<rparr>) = Inr h' \<and> qrep cpid h' F (R(i := p)) Q"
  using qrep_store [OF assms, of "\<lambda>n. n\<lparr>rear := Some p\<rparr>" "F i" p "Q i"] by simp

lemma qrep_prev:
  assumes "qrep cpid h F R Q" and "i < length cpid"
  shows "\<exists>h'. store h (Some i) (\<lambda>n. n\<lparr>prev := p\<rparr>) = Inr h' \<and> qrep cpid h' F R (Q(i := p))"
  using qrep_store [OF assms, of "\<lambda>n. n\<lparr>prev := p\<rparr>" "F i" "R i" p] by simp

lemma shift_queue_qrep:
  assumes q: "qrep cpid h F R Q" and a: "a < length cpid" and Fa: "F a < length cpid" and Ra: "R a < length cpid"
    and p: "Q (F a) = Some p" "p < length cpid"
  shows "\<exists>h'. shift_queue h (Some a) = Inr (Some (F a), h')
    \<and> qrep cpid h' (F(a := p)) (R(a := F a)) (Q(R a := Some (F a)))"
proof -
  obtain hn where hn: "mem h a = Some hn" "front hn = Some (F a)" "rear hn = Some (R a)"
    by (rule qrep_nth [OF q a])
  obtain tn where tn: "mem h (F a) = Some tn" "prev tn = Q (F a)"
    by (rule qrep_nth [OF q Fa])
  obtain h1 where h1: "store h (Some p) (\<lambda>n. n\<lparr>next_node := None\<rparr>) = Inr h1" "qrep cpid h1 F R Q"
    using qrep_next [OF q p(2)] by blast
  obtain h2 where h2: "store h1 (Some a) (\<lambda>n. n\<lparr>front := Some p\<rparr>) = Inr h2" "qrep cpid h2 (F(a := p)) R Q"
    using qrep_front [OF h1(2) a] by blast
  obtain h3 where h3: "store h2 (Some (F a)) (\<lambda>n. n\<lparr>next_node := Some (R a)\<rparr>) = Inr h3" "qrep cpid h3 (F(a := p)) R Q"
    using qrep_next [OF h2(2) Fa] by blast
  obtain h4 where h4: "store h3 (Some (R a)) (\<lambda>n. n\<lparr>prev := Some (F a)\<rparr>) = Inr h4"
      "qrep cpid h4 (F(a := p)) R (Q(R a := Some (F a)))"
    using qrep_prev [OF h3(2) Ra] by blast
  obtain h5 where h5: "store h4 (Some a) (\<lambda>n. n\<lparr>rear := Some (F a)\<rparr>) = Inr h5"
      "qrep cpid h5 (F(a := p)) (R(a := F a)) (Q(R a := Some (F a)))"
    using qrep_rear [OF h4(2) a] by blast
  show ?thesis
    using hn tn p(1) h1(1) h2(1) h3(1) h4(1) h5 by (simp add: shift_queue_def Let_def)
qed

text \<open>
  The pointers before each shift: the queue as it was built, the two states in which the
  oldest child introduces the child \<open>k\<close>, and the regular states afterwards. The \<open>prev\<close> pointer
  of a child is wrong for one step, and the shift of that step does not read it.
\<close>

definition q_start :: "nat \<Rightarrow> nat \<Rightarrow> (nat \<Rightarrow> nat) \<Rightarrow> (nat \<Rightarrow> nat) \<Rightarrow> (nat \<Rightarrow> ptr) \<Rightarrow> bool" where
  "q_start n a F R Q \<longleftrightarrow> Suc a = n \<and>
     (\<forall>i < n. F i = 0 \<and> R i = i \<and> Q i = (if Suc i = n then None else Some (Suc i)))"

definition q_first :: "nat \<Rightarrow> nat \<Rightarrow> (nat \<Rightarrow> nat) \<Rightarrow> (nat \<Rightarrow> nat) \<Rightarrow> (nat \<Rightarrow> ptr) \<Rightarrow> bool" where
  "q_first n k F R Q \<longleftrightarrow> Suc k < n \<and>
     (\<forall>i < n. F i = (if i = 0 then (if k = 0 then 0 else Suc k) else if k \<le> i \<and> Suc i < n then 0 else 1)
        \<and> R i = (if i = 0 then k else if k \<le> i \<and> Suc i < n then i else 0)
        \<and> Q i = Some (next_child n i))"

definition q_second :: "nat \<Rightarrow> nat \<Rightarrow> (nat \<Rightarrow> nat) \<Rightarrow> (nat \<Rightarrow> nat) \<Rightarrow> (nat \<Rightarrow> ptr) \<Rightarrow> bool" where
  "q_second n k F R Q \<longleftrightarrow> Suc k < n \<and>
     (\<forall>i < n. F i = (if i = 0 then Suc k else if k < i \<and> Suc i < n then 0 else 1)
        \<and> R i = (if i = 0 then k else if k < i \<and> Suc i < n then i else 0)
        \<and> Q i = Some (if i = k then 0 else next_child n i))"

definition q_full :: "nat \<Rightarrow> nat \<Rightarrow> (nat \<Rightarrow> nat) \<Rightarrow> (nat \<Rightarrow> nat) \<Rightarrow> (nat \<Rightarrow> ptr) \<Rightarrow> bool" where
  "q_full n a F R Q \<longleftrightarrow> a < n \<and> (\<forall>i < n. R i < n \<and> F i = next_child n (R i)) \<and>
     (\<forall>i < n. Q i = Some (next_child n i))"

definition q_inv :: "nat \<Rightarrow> nat \<Rightarrow> (nat \<Rightarrow> nat) \<Rightarrow> (nat \<Rightarrow> nat) \<Rightarrow> (nat \<Rightarrow> ptr) \<Rightarrow> bool" where
  "q_inv n a F R Q \<longleftrightarrow> q_start n a F R Q \<or> q_first n a F R Q \<or>
     (a = 0 \<and> (\<exists>k. q_second n k F R Q)) \<or> q_full n a F R Q"

lemma next_child_less [simp]: "0 < n \<Longrightarrow> next_child n i < n"
  by (simp add: next_child_def)

lemma next_child_Suc [simp]: "Suc i < n \<Longrightarrow> next_child n i = Suc i" "Suc i = n \<Longrightarrow> next_child n i = 0"
  by (auto simp: next_child_def)

lemma q_start_step:
  assumes "2 \<le> n" and "q_start n a F R Q"
  shows "Q (F a) = Some (next_child n (F a))"
    and "q_first n (F a) (F(a := next_child n (F a))) (R(a := F a)) (Q(R a := Some (F a)))"
  using assms by (auto simp: q_start_def q_first_def)

lemma q_first_step:
  assumes "2 \<le> n" and "q_first n a F R Q"
  shows "F a = 0" and "Q (F a) = Some (next_child n (F a))"
    and "q_second n a (F(a := next_child n (F a))) (R(a := F a)) (Q(R a := Some (F a)))"
proof -
  have a: "Suc a < n" using assms by (simp add: q_first_def)
  show z: "F a = 0" using assms(2) a by (simp add: q_first_def)
  have r: "R a = a" using assms(2) a by (simp add: q_first_def)
  show "Q (F a) = Some (next_child n (F a))" using z assms by (simp add: q_first_def)
  show "q_second n a (F(a := next_child n (F a))) (R(a := F a)) (Q(R a := Some (F a)))"
    unfolding q_second_def z r using assms a by (simp add: q_first_def)
qed

lemma q_second_step:
  assumes "2 \<le> n" and "q_second n k F R Q"
  shows "Q (F 0) = Some (next_child n (F 0))"
    and "q_inv n (F 0) (F(0 := next_child n (F 0))) (R(0 := F 0)) (Q(R 0 := Some (F 0)))"
proof -
  have k: "F 0 = Suc k" "R 0 = k" "Suc k < n" using assms by (simp_all add: q_second_def)
  show "Q (F 0) = Some (next_child n (F 0))" using assms k by (simp add: q_second_def)
  show "q_inv n (F 0) (F(0 := next_child n (F 0))) (R(0 := F 0)) (Q(R 0 := Some (F 0)))"
  proof (cases "Suc (Suc k) < n")
    case True
    then have "q_first n (Suc k) (F(0 := next_child n (Suc k))) (R(0 := Suc k)) (Q(k := Some (Suc k)))"
      using assms by (simp add: q_second_def q_first_def)
    then show ?thesis using k by (simp add: q_inv_def)
  next
    case False
    then have n: "n = Suc (Suc k)" using k(3) by simp
    have "q_full n (Suc k) (F(0 := next_child n (Suc k))) (R(0 := Suc k)) (Q(k := Some (Suc k)))"
      using assms by (simp add: q_second_def q_full_def n)
    then show ?thesis using k by (simp add: q_inv_def)
  qed
qed

lemma q_full_step:
  assumes "q_full n a F R Q"
  shows "Q (F a) = Some (next_child n (F a))"
    and "q_full n (F a) (F(a := next_child n (F a))) (R(a := F a)) (Q(R a := Some (F a)))"
  using assms by (simp_all add: q_full_def)

lemma q_inv_bounds:
  assumes "2 \<le> n" and "q_inv n a F R Q"
  shows "a < n" "F a < n" "R a < n"
  using assms(2) unfolding q_inv_def
  by (elim disjE conjE exE; use assms(1) in \<open>simp add: q_start_def q_first_def q_second_def q_full_def\<close>)+

lemma q_inv_step:
  assumes "2 \<le> n" and "q_inv n a F R Q"
  shows "Q (F a) = Some (next_child n (F a)) \<and>
    q_inv n (F a) (F(a := next_child n (F a))) (R(a := F a)) (Q(R a := Some (F a)))"
  using assms(2) unfolding q_inv_def [of n a]
proof (elim disjE conjE exE)
  assume "q_start n a F R Q"
  then show ?thesis using q_start_step [OF assms(1)] by (auto simp: q_inv_def)
next
  assume "q_first n a F R Q"
  note st = q_first_step [OF assms(1) this]
  then show ?thesis using st(2) unfolding q_inv_def by auto
next
  fix k assume "a = 0" "q_second n k F R Q"
  then show ?thesis using q_second_step [OF assms(1)] by blast
next
  assume "q_full n a F R Q"
  then show ?thesis using q_full_step unfolding q_inv_def by blast
qed

lemma dispatch_rotor:
  assumes "2 \<le> length cpid" and "qrep cpid h F R Q" and "q_inv (length cpid) a F R Q"
  shows "dispatch k h (Some a) = Inr (map ((!) cpid) (fst (rotor_walk (length cpid) k (a, F))))"
  using assms(2,3)
proof (induction k arbitrary: h a F R Q)
  case 0
  then show ?case by simp
next
  case (Suc k)
  let ?n = "length cpid" and ?p = "next_child (length cpid) (F a)"
  note b = q_inv_bounds [OF assms(1) Suc.prems(2)] and st = q_inv_step [OF assms(1) Suc.prems(2)]
  have "?p < ?n" by (rule next_child_less) (use assms(1) in linarith)
  then obtain h' where h': "shift_queue h (Some a) = Inr (Some (F a), h')"
      "qrep cpid h' (F(a := ?p)) (R(a := F a)) (Q(R a := Some (F a)))"
    using shift_queue_qrep [OF Suc.prems(1) b] st by blast
  obtain hn where "mem h a = Some hn" "front hn = Some (F a)" by (rule qrep_nth [OF Suc.prems(1) b(1)])
  moreover obtain tn where "mem h (F a) = Some tn" "pid tn = cpid ! F a" by (rule qrep_nth [OF Suc.prems(1) b(2)])
  moreover have "dispatch k h' (Some (F a)) = Inr (map ((!) cpid) (fst (rotor_walk ?n k (F a, F(a := ?p)))))"
    by (rule Suc.IH [OF h'(2) conjunct2 [OF st]])
  ultimately show ?case
    using h'(1) by (simp add: rotor_step_def del: rotor_walk.simps(2))
qed

text \<open>The queue of \<open>main\<close> lies at the addresses \<open>0\<close>, \<open>1\<close>, ... in the order of the children.\<close>

definition built :: "int list \<Rightarrow> qheap \<Rightarrow> bool" where
  "built cs h \<longleftrightarrow> brk h = length cs \<and> (\<forall>i < length cs. \<exists>nx. mem h i = Some \<lparr>pid = cs ! i, rear = Some i,
     front = Some 0, prev = (if Suc i = length cs then None else Some (Suc i)), next_node = nx\<rparr>)"

lemma push_built:
  assumes "built cs h" and "length cs = Suc m"
  shows "\<exists>h'. push h (Some m) d = Inr (Some (Suc m), h') \<and> built (cs @ [d]) h'"
proof -
  obtain nx where nx: "mem h m = Some \<lparr>pid = cs ! m, rear = Some m, front = Some 0, prev = None, next_node = nx\<rparr>"
    using assms by (auto simp: built_def)
  have b: "brk h = Suc m" using assms by (simp add: built_def)
  let ?new = "\<lparr>pid = d, rear = Some (Suc m), front = Some 0, prev = None, next_node = Some m\<rparr>"
  let ?old = "\<lparr>pid = cs ! m, rear = Some m, front = Some 0, prev = Some (Suc m), next_node = nx\<rparr>"
  let ?h = "h\<lparr>mem := (mem h)(Suc m \<mapsto> ?new, m \<mapsto> ?old), brk := Suc (Suc m)\<rparr>"
  have "push h (Some m) d = Inr (Some (Suc m), ?h)"
    using nx b by (simp add: push_def store_def malloc_def Let_def)
  moreover have "built (cs @ [d]) ?h"
    using assms by (auto simp: built_def nth_append less_Suc_eq)
  ultimately show ?thesis by blast
qed

lemma push_all_built:
  assumes "built cs h" and "length cs = Suc m"
  shows "\<exists>h'. push_all h (Some m) ds = Inr (Some (m + length ds), h') \<and> built (cs @ ds) h'"
  using assms
proof (induction ds arbitrary: cs h m)
  case Nil
  then show ?case by simp
next
  case (Cons d ds)
  obtain h' where h': "push h (Some m) d = Inr (Some (Suc m), h')" "built (cs @ [d]) h'"
    using push_built [OF Cons.prems] by blast
  show ?case using Cons.IH [OF h'(2), of "Suc m"] Cons.prems(2) h'(1) by auto
qed

lemma build_queue_built:
  assumes "length cpid = Suc m"
  shows "\<exists>h. build_queue cpid = Inr (Some m, h) \<and> built cpid h"
proof -
  obtain c cs where c: "cpid = c # cs" "length cs = m" using assms by (cases cpid) auto
  let ?h = "snd (create_queue empty_heap c)"
  have "create_queue empty_heap c = (Some 0, ?h)" "built [c] ?h"
    by (simp_all add: create_queue_def malloc_def empty_heap_def built_def)
  then show ?thesis using push_all_built [of "[c]" ?h 0 cs] c
    by (auto simp: build_queue_def split: prod.splits)
qed

lemma built_start:
  assumes "built cpid h" and "length cpid = Suc m"
  obtains Q where "qrep cpid h (\<lambda>_. 0) (\<lambda>i. i) Q" "q_start (length cpid) m (\<lambda>_. 0) (\<lambda>i. i) Q"
proof -
  let ?Q = "\<lambda>i. if Suc i = length cpid then None else Some (Suc i)"
  have "\<exists>nd. mem h i = Some nd \<and> pid nd = cpid ! i \<and> front nd = Some 0 \<and> rear nd = Some i \<and> prev nd = ?Q i"
    if i: "i < length cpid" for i
  proof -
    obtain nx where "mem h i = Some \<lparr>pid = cpid ! i, rear = Some i, front = Some 0, prev = ?Q i, next_node = nx\<rparr>"
      using assms(1) i by (auto simp: built_def)
    then show ?thesis by simp
  qed
  then have "qrep cpid h (\<lambda>_. 0) (\<lambda>i. i) ?Q" by (simp add: qrep_def)
  then show ?thesis by (rule that) (simp add: q_start_def assms(2))
qed

lemma load_balancer_rotor:
  assumes "2 \<le> length cpid"
  shows "load_balancer cpid k
    = Inr (map ((!) cpid) (fst (rotor_walk (length cpid) k (length cpid - 1, \<lambda>_. 0))))"
proof -
  obtain m where m: "length cpid = Suc m" using assms by (cases cpid) auto
  obtain h where h: "build_queue cpid = Inr (Some m, h)" "built cpid h" using build_queue_built [OF m] by blast
  obtain Q where "qrep cpid h (\<lambda>_. 0) (\<lambda>i. i) Q" "q_start (length cpid) m (\<lambda>_. 0) (\<lambda>i. i) Q"
    by (rule built_start [OF h(2) m])
  then show ?thesis using dispatch_rotor [OF assms, of h "\<lambda>_. 0" "\<lambda>i. i" Q m k] h(1) m
    by (simp add: load_balancer_def q_inv_def)
qed

section \<open>The period of the walk\<close>

definition walks :: "nat \<Rightarrow> nat \<times> (nat \<Rightarrow> nat) \<Rightarrow> nat list \<Rightarrow> nat \<times> (nat \<Rightarrow> nat) \<Rightarrow> bool" where
  "walks n s v t \<longleftrightarrow> rotor_walk n (length v) s = (v, t)"

lemma walks_Nil [simp]: "walks n s [] t \<longleftrightarrow> s = t"
  by (simp add: walks_def)

lemma walks_Cons [simp]: "walks n s (a # v) t \<longleftrightarrow> a = fst (rotor_step n s) \<and> walks n (rotor_step n s) v t"
  by (auto simp: walks_def Let_def split: prod.split)

lemma walks_append: "walks n s v t \<Longrightarrow> walks n t w u \<Longrightarrow> walks n s (v @ w) u"
  by (induction v arbitrary: s) auto

lemma walks_prefix: "walks n s v t \<Longrightarrow> k \<le> length v \<Longrightarrow> fst (rotor_walk n k s) = take k v"
proof (induction v arbitrary: s k)
  case Nil
  then show ?case by simp
next
  case (Cons a v)
  then show ?case by (cases k) (simp_all del: rotor_walk.simps(2))
qed

text \<open>The rotors before block \<open>k\<close>, and inside it before the child \<open>j\<close> is signalled.\<close>

definition rotors :: "nat \<Rightarrow> nat \<Rightarrow> nat \<Rightarrow> nat" where
  "rotors n k a = (if a < k \<or> n \<le> a then 0 else k)"

definition mid_rotors :: "nat \<Rightarrow> nat \<Rightarrow> nat \<Rightarrow> nat \<Rightarrow> nat" where
  "mid_rotors n k j a = (if a < k \<or> n \<le> a then 0
     else if a = k then (if j = Suc k then k else j mod n)
     else if Suc a < j \<or> Suc a = n then Suc k else k)"

lemma walks_pair:
  assumes "k < j" and "j < n"
  shows "walks n (j - 1, mid_rotors n k j) [k, j] (j, mid_rotors n k (Suc j))"
proof (cases "j = Suc k")
  case True
  then show ?thesis using assms
    by (auto simp: rotor_step_def mid_rotors_def next_child_def fun_eq_iff)
next
  case False
  then show ?thesis using assms
    by (auto simp: rotor_step_def mid_rotors_def next_child_def fun_eq_iff)
qed

lemma walks_pairs:
  assumes "k < n"
  shows "m \<le> n - Suc k \<Longrightarrow> walks n (k, mid_rotors n k (Suc k))
    (concat (map (\<lambda>j. [k, j]) [Suc k..<Suc k + m])) (k + m, mid_rotors n k (Suc k + m))"
proof (induction m)
  case 0
  then show ?case by simp
next
  case (Suc m)
  have "walks n (k + m, mid_rotors n k (Suc k + m)) [k, Suc k + m] (Suc k + m, mid_rotors n k (Suc k + Suc m))"
    using walks_pair [of k "Suc k + m" n] Suc.prems by simp
  from walks_append [OF Suc.IH this] Suc.prems show ?case by simp
qed

lemma walks_block:
  assumes "k < n"
  shows "walks n (n - 1, rotors n k) (block n k) (n - 1, rotors n (Suc k))"
proof (cases "Suc k = n")
  case True
  then show ?thesis
    by (auto simp: block_def rotor_step_def rotors_def next_child_def fun_eq_iff)
next
  case False
  have "rotor_step n (n - 1, rotors n k) = (k, mid_rotors n k (Suc k))"
    using assms False by (auto simp: rotor_step_def rotors_def mid_rotors_def next_child_def fun_eq_iff)
  moreover have "mid_rotors n k n = rotors n (Suc k)"
    using assms False by (auto simp: rotors_def mid_rotors_def fun_eq_iff)
  ultimately show ?thesis
    using walks_pairs [OF assms, of "n - Suc k"] assms by (simp add: block_def)
qed

lemma walks_blocks: "k \<le> n \<Longrightarrow> walks n (n - 1, \<lambda>_. 0) (concat (map (block n) [0..<k])) (n - 1, rotors n k)"
proof (induction k)
  case 0
  then show ?case by (simp add: rotors_def fun_eq_iff)
next
  case (Suc k)
  then show ?case using walks_append [OF Suc.IH walks_block [of k n]] by simp
qed

lemma walks_cycle: "walks n (n - 1, \<lambda>_. 0) (cycle n) (n - 1, \<lambda>_. 0)"
proof -
  have "rotors n n = (\<lambda>_. 0)" by (auto simp: rotors_def)
  then show ?thesis using walks_blocks [of n n] by (simp add: cycle_def)
qed

lemma walks_cycles: "walks n (n - 1, \<lambda>_. 0) (concat (replicate m (cycle n))) (n - 1, \<lambda>_. 0)"
proof (induction m)
  case 0
  then show ?case by simp
next
  case (Suc m)
  then show ?case using walks_append [OF walks_cycle Suc.IH] by simp
qed

lemma length_block: "k < n \<Longrightarrow> Suc (length (block n k)) = 2 * (n - k)"
  by (simp add: block_def length_concat comp_def sum_list_triv)

lemma length_blocks: "k \<le> n \<Longrightarrow> length (concat (map (block n) [0..<k])) + k * k = 2 * n * k"
proof (induction k)
  case 0
  then show ?case by simp
next
  case (Suc k)
  have "length (block n k) + 2 * k + 1 = 2 * n" using length_block [of k n] Suc.prems by simp
  with Suc show ?case by (simp add: algebra_simps)
qed

lemma length_cycle [simp]: "length (cycle n) = n * n"
  using length_blocks [of n n] by (simp add: cycle_def)

lemma count_pairs: "count_list (concat (map (\<lambda>j. [k, j]) [Suc k..<n])) i
    = (if i = k then n - Suc k else if k < i \<and> i < n then 1 else 0)"
  by (induction n) auto

lemma count_block: "k < n \<Longrightarrow> count_list (block n k) i = (if i = k then n - k else if k < i \<and> i < n then 1 else 0)"
  by (auto simp: block_def count_pairs)

lemma count_blocks:
  "k \<le> n \<Longrightarrow> i < n \<Longrightarrow> count_list (concat (map (block n) [0..<k])) i = (if i < k then n else k)"
  by (induction k) (auto simp: count_block less_Suc_eq)

lemma nth_concat_replicate:
  "i < m * length xs \<Longrightarrow> concat (replicate m xs) ! i = xs ! (i mod length xs)"
proof (induction m arbitrary: i)
  case 0
  then show ?case by simp
next
  case (Suc m)
  then show ?case
    by (cases "i < length xs") (auto simp: nth_append le_mod_geq not_less)
qed

lemma rotor_period:
  assumes "0 < n"
  shows "fst (rotor_walk n k (n - 1, \<lambda>_. 0)) = map (\<lambda>i. cycle n ! (i mod (n * n))) [0..<k]"
proof -
  let ?w = "concat (replicate k (cycle n))"
  have le: "k \<le> k * (n * n)" using assms by simp
  then have k: "k \<le> length ?w" by (simp add: length_concat sum_list_replicate)
  have "take k ?w = map (\<lambda>i. cycle n ! (i mod (n * n))) [0..<k]"
  proof (rule nth_equalityI)
    show "length (take k ?w) = length (map (\<lambda>i. cycle n ! (i mod (n * n))) [0..<k])" using k by simp
    fix i assume "i < length (take k ?w)"
    then have i: "i < k" by simp
    then have "i < k * length (cycle n)" unfolding length_cycle using le by linarith
    then show "take k ?w ! i = map (\<lambda>i. cycle n ! (i mod (n * n))) [0..<k] ! i"
      using nth_concat_replicate [of i k "cycle n"] i by simp
  qed
  then show ?thesis using walks_prefix [OF walks_cycles k] by simp
qed

lemma count_cycle: "j < n \<Longrightarrow> count_list (cycle n) j = n"
  using count_blocks [of n n j] by (simp add: cycle_def)

section \<open>Properties\<close>

text \<open>
  C30. The signals of the dispatch loop. With at least two children the loop never fails, and the
  child it signals in round \<open>i\<close> is the entry \<open>i\<close> of a sequence of period \<open>n * n\<close>, for \<open>n\<close> children:
  block after block, the child \<open>k\<close> alone and then before every later child. In a period every
  child is signalled \<open>n\<close> times, so the dispatch is not the round robin it is meant to be, but
  no child gets more than its share.
\<close>

theorem dispatch_period:
  assumes "2 \<le> length cpid" and "length cpid = n"
  shows "load_balancer cpid k = Inr (map (\<lambda>i. cpid ! (cycle n ! (i mod (n * n)))) [0..<k])
    \<and> (\<forall>j < n. count_list (cycle n) j = n)"
proof -
  have "0 < n" using assms by auto
  then show ?thesis
    using load_balancer_rotor [OF assms(1), of k] assms(2) rotor_period [of n k] count_cycle [of _ n]
    by (simp add: comp_def)
qed

theorem dispatch_period_witness:
  "load_balancer [10, 20, 30] 10 = Inr [10, 10, 20, 10, 30, 20, 20, 30, 30, 10] \<and> count_list (cycle 3) 1 = 3"
  using dispatch_period [of "[10, 20, 30]" 3 10]
  by (simp add: cycle_def block_def upt_rec)

end
