(* ===== verification/Load_Processes.thy ===== *)
theory Load_Processes
  imports Load_Rotor
begin

text \<open>
  The processes of \<open>Load Balancer/load_balancer.c\<close>: the start of \<open>main\<close> with its arguments and
  the printed queue, the parent that signals the front of the queue for ever, the children
  with their handler \<open>sig_usr1\<close>, and the parent's handler \<open>sig_usr2\<close>, interleaved in any order.

  A child is described by what a signal does to it: before its call of \<open>signal\<close> the default
  action ends it; in \<open>pause\<close> its handler is invoked; a handler that was invoked and has not yet
  run keeps the signal blocked, and its first statement discards what is pending; while it
  ignores the signal, POSIX leaves open whether a blocked and ignored signal is discarded or
  stays pending, which is a choice of the environment.

  The handler opens the file at every reading and never closes it. The contents of the file do
  not change, but a child can open it only \<open>limit\<close> times, the number of descriptors it has.
\<close>

section \<open>The children\<close>

datatype worker = Starting | Pausing | Invoked | Handling "string option" bool | Killed | Faulted cerror

text \<open>
  The reading loop of the handler over a buffer of 255 bytes. The file is \<open>None\<close> when \<open>open\<close>
  fails: \<open>read\<close> then returns -1, which the loop takes for a character, the initial \<open>'a'\<close>. The
  result is \<open>None\<close> when the end of the file is reached, where the buffer is not terminated.
\<close>

function sig_usr1_read :: "string option \<Rightarrow> string \<Rightarrow> cerror + string option" where
  "sig_usr1_read f op = (case f of
      None \<Rightarrow> if length op < 255 then sig_usr1_read None (op @ ''a'') else Inl Overflow
    | Some [] \<Rightarrow> Inr None
    | Some (c # cs) \<Rightarrow> if length op < 255
        then (if c = NL then Inr (Some op) else sig_usr1_read (Some cs) (op @ [c])) else Inl Overflow)"
  by pat_completeness auto
termination
  by (relation "measure (\<lambda>(f, op). 255 - length op)") auto

declare sig_usr1_read.simps [simp del]

text \<open>A signal \<open>SIGUSR1\<close> for a child.\<close>

fun deliver :: "bool \<Rightarrow> worker \<Rightarrow> worker" where
  "deliver keep Starting = Killed"
| "deliver keep Pausing = Invoked"
| "deliver keep Invoked = Invoked"
| "deliver keep (Handling r b) = Handling r (b \<or> keep)"
| "deliver keep Killed = Killed"
| "deliver keep (Faulted e) = Faulted e"

section \<open>The system\<close>

datatype lb_print = Reading_now int | Output int string | Sending int | Child_free int

text \<open>The signals sent so far are recorded for the statements about them.\<close>

record lb_sys =
  lb_head :: ptr
  lb_heap :: qheap
  lb_workers :: "int \<rightharpoonup> worker"
  lb_usr2 :: "int option"
  lb_child_pid :: int
  lb_printed :: "lb_print list"
  lb_signals :: "int list"

text \<open>One round of the parent.\<close>

definition lb_round :: "bool \<Rightarrow> lb_sys \<Rightarrow> cerror + lb_sys" where
  "lb_round keep s =
     rbind (load (lb_heap s) (lb_head s)) (\<lambda>hn.
     rbind (load (lb_heap s) (front hn)) (\<lambda>fn.
     rbind (shift_queue (lb_heap s) (lb_head s)) (\<lambda>(head', h').
       Inr (s\<lparr>lb_workers := (lb_workers s)(pid fn := map_option (deliver keep) (lb_workers s (pid fn))),
              lb_head := head', lb_heap := h', lb_signals := lb_signals s @ [pid fn]\<rparr>))))"

text \<open>A child reaches its call of \<open>pause\<close>.\<close>

definition child_install :: "int \<Rightarrow> lb_sys \<Rightarrow> lb_sys option" where
  "child_install p s = (case lb_workers s p of
      Some Starting \<Rightarrow> Some (s\<lparr>lb_workers := (lb_workers s)(p \<mapsto> Pausing)\<rparr>)
    | _ \<Rightarrow> None)"

text \<open>The readings a child has begun, each of which has taken a descriptor.\<close>

definition readings :: "int \<Rightarrow> lb_sys \<Rightarrow> nat" where
  "readings p s = count_list (lb_printed s) (Reading_now p)"

text \<open>
  The handler up to its \<open>sleep\<close>, and from there to its end. The call of \<open>open\<close> fails when the
  descriptors are used up.
\<close>

definition sig_usr1_begin :: "nat \<Rightarrow> string option \<Rightarrow> int \<Rightarrow> lb_sys \<Rightarrow> lb_sys option" where
  "sig_usr1_begin limit f p s = (case lb_workers s p of
      Some Invoked \<Rightarrow> Some (s\<lparr>lb_workers := (lb_workers s)(p \<mapsto>
          (case sig_usr1_read (if readings p s < limit then f else None) [] of
             Inl e \<Rightarrow> Faulted e | Inr r \<Rightarrow> Handling r False)),
        lb_printed := lb_printed s @ [Reading_now p]\<rparr>)
    | _ \<Rightarrow> None)"

definition sig_usr1_end :: "int \<Rightarrow> lb_sys \<Rightarrow> lb_sys option" where
  "sig_usr1_end p s = (case lb_workers s p of
      Some (Handling None b) \<Rightarrow> Some (s\<lparr>lb_workers := (lb_workers s)(p \<mapsto> Faulted Uninitialised)\<rparr>)
    | Some (Handling (Some op) b) \<Rightarrow> Some (s\<lparr>
        lb_workers := (lb_workers s)(p \<mapsto> (if b then Invoked else Pausing)),
        lb_usr2 := (case lb_usr2 s of None \<Rightarrow> Some p | Some q \<Rightarrow> Some q),
        lb_printed := lb_printed s @ [Output p (cstr op), Sending p]\<rparr>)
    | _ \<Rightarrow> None)"

definition sig_usr2 :: "lb_sys \<Rightarrow> lb_sys option" where
  "sig_usr2 s = (case lb_usr2 s of
      None \<Rightarrow> None
    | Some p \<Rightarrow> Some (s\<lparr>lb_usr2 := None, lb_child_pid := p, lb_printed := lb_printed s @ [Child_free p]\<rparr>))"

inductive lb_step :: "nat \<Rightarrow> string option \<Rightarrow> lb_sys \<Rightarrow> lb_sys \<Rightarrow> bool" for limit f where
  round: "lb_round keep s = Inr t \<Longrightarrow> lb_step limit f s t"
| install: "child_install p s = Some t \<Longrightarrow> lb_step limit f s t"
| begins: "sig_usr1_begin limit f p s = Some t \<Longrightarrow> lb_step limit f s t"
| ends: "sig_usr1_end p s = Some t \<Longrightarrow> lb_step limit f s t"
| freed: "sig_usr2 s = Some t \<Longrightarrow> lb_step limit f s t"

inductive lb_reach :: "nat \<Rightarrow> string option \<Rightarrow> lb_sys \<Rightarrow> lb_sys \<Rightarrow> bool" for limit f where
  here: "lb_reach limit f s s"
| step: "lb_reach limit f s t \<Longrightarrow> lb_step limit f t u \<Longrightarrow> lb_reach limit f s u"

section \<open>The main program\<close>

text \<open>
  The start of \<open>main\<close>: the arguments, the children (the results of \<open>fork\<close> are given), the queue
  and its printing. The first error text is printed without a newline, as in the source.
\<close>

datatype lb_result = Exited string | Running string lb_sys

definition lb_init :: "int list \<Rightarrow> ptr \<Rightarrow> qheap \<Rightarrow> lb_sys" where
  "lb_init cpid head h = \<lparr>lb_head = head, lb_heap = h,
     lb_workers = (\<lambda>p. if p \<in> set cpid then Some Starting else None), lb_usr2 = None, lb_child_pid = -1,
     lb_printed = [], lb_signals = []\<rparr>"

definition lb_main :: "string list \<Rightarrow> (nat \<Rightarrow> int) \<Rightarrow> (cerror + lb_result) option" where
  "lb_main argv forks =
     (if length argv < 3 then Some (Inr (Exited ''Error : Must specify 2 arguments.''))
      else let no_of_children = atoi (argv ! 2) in
        if no_of_children < 1
        then Some (Inr (Exited ''Error : Number of Child Processes must be a positive integer.''))
        else let cpid = map forks [0..<nat no_of_children] in
          (case build_queue cpid of
             Inl e \<Rightarrow> Some (Inl e)
           | Inr (head, h) \<Rightarrow> (case print_queue h head [] of
                 None \<Rightarrow> None
               | Some (Inl e) \<Rightarrow> Some (Inl e)
               | Some (Inr text) \<Rightarrow> Some (Inr (Running text (lb_init cpid head h))))))"

section \<open>The reading loop\<close>

lemma sig_usr1_read_line:
  assumes "NL \<notin> set cs" and "length op + length cs < 255"
  shows "sig_usr1_read (Some (cs @ NL # rest)) op = Inr (Some (op @ cs))"
  using assms by (induction cs arbitrary: op) (auto simp: sig_usr1_read.simps)

lemma sig_usr1_read_eof:
  "NL \<notin> set cs \<Longrightarrow> length op + length cs \<le> 255 \<Longrightarrow> sig_usr1_read (Some cs) op = Inr None"
  by (induction cs arbitrary: op) (auto simp: sig_usr1_read.simps)

lemma sig_usr1_read_long:
  "NL \<notin> set cs \<Longrightarrow> length op \<le> 255 \<Longrightarrow> 255 < length op + length (cs @ ds) \<Longrightarrow> 255 \<le> length op + length cs \<Longrightarrow>
    sig_usr1_read (Some (cs @ ds)) op = Inl Overflow"
proof (induction cs arbitrary: op)
  case Nil
  then show ?case by (cases ds) (auto simp: sig_usr1_read.simps)
next
  case (Cons c cs)
  then show ?case by (auto simp: sig_usr1_read.simps [of "Some _"])
qed

lemma sig_usr1_read_unopened: "length op \<le> 255 \<Longrightarrow> sig_usr1_read None op = Inl Overflow"
  by (induction "255 - length op" arbitrary: op) (subst sig_usr1_read.simps; simp)+

section \<open>The parent follows the rotor walk\<close>

definition lb_wf :: "int list \<Rightarrow> lb_sys \<Rightarrow> bool" where
  "lb_wf cpid s \<longleftrightarrow> (\<exists>a F R Q idx. lb_head s = Some a \<and> qrep cpid (lb_heap s) F R Q
     \<and> q_inv (length cpid) a F R Q \<and> walks (length cpid) (length cpid - 1, \<lambda>_. 0) idx (a, F)
     \<and> lb_signals s = map ((!) cpid) idx)"

lemma lb_wf_cong:
  "lb_head t = lb_head s \<Longrightarrow> lb_heap t = lb_heap s \<Longrightarrow> lb_signals t = lb_signals s \<Longrightarrow>
    lb_wf cpid t \<longleftrightarrow> lb_wf cpid s"
  by (simp add: lb_wf_def)

lemma lb_wf_signals:
  assumes "lb_wf cpid s" and "length cpid = n" and "0 < n"
  shows "lb_signals s = map (\<lambda>i. cpid ! (cycle n ! (i mod (n * n)))) [0..<length (lb_signals s)]"
proof -
  obtain a F idx where w: "walks n (n - 1, \<lambda>_. 0) idx (a, F)" and sig: "lb_signals s = map ((!) cpid) idx"
    using assms(1,2) by (auto simp: lb_wf_def)
  have "idx = map (\<lambda>i. cycle n ! (i mod (n * n))) [0..<length idx]"
    using w rotor_period [OF assms(3), of "length idx"] by (simp add: walks_def)
  then have "map ((!) cpid) idx = map (\<lambda>i. cpid ! (cycle n ! (i mod (n * n)))) [0..<length idx]"
    by (metis (no_types, lifting) length_map map_eq_conv map_map o_apply)
  then show ?thesis using sig by simp
qed

lemma lb_round_wf:
  assumes "lb_wf cpid s" and "2 \<le> length cpid"
  obtains p t where "lb_round keep s = Inr t" "lb_wf cpid t" "p \<in> set cpid"
    "lb_workers t = (lb_workers s)(p := map_option (deliver keep) (lb_workers s p))"
    "lb_signals t = lb_signals s @ [p]" "lb_printed t = lb_printed s" "lb_usr2 t = lb_usr2 s"
    "lb_child_pid t = lb_child_pid s"
proof -
  let ?n = "length cpid"
  obtain a F R Q idx where hd: "lb_head s = Some a" and q: "qrep cpid (lb_heap s) F R Q"
    and inv: "q_inv ?n a F R Q" and w: "walks ?n (?n - 1, \<lambda>_. 0) idx (a, F)"
    and sig: "lb_signals s = map ((!) cpid) idx"
    using assms(1) by (auto simp: lb_wf_def)
  let ?p = "next_child ?n (F a)"
  note b = q_inv_bounds [OF assms(2) inv] and st = q_inv_step [OF assms(2) inv]
  have "?p < ?n" by (rule next_child_less) (use assms(2) in linarith)
  then obtain h' where h': "shift_queue (lb_heap s) (Some a) = Inr (Some (F a), h')"
      "qrep cpid h' (F(a := ?p)) (R(a := F a)) (Q(R a := Some (F a)))"
    using shift_queue_qrep [OF q b] st by blast
  obtain hn where hn: "mem (lb_heap s) a = Some hn" "front hn = Some (F a)" by (rule qrep_nth [OF q b(1)])
  obtain tn where tn: "mem (lb_heap s) (F a) = Some tn" "pid tn = cpid ! F a" by (rule qrep_nth [OF q b(2)])
  have "walks ?n (a, F) [F a] (F a, F(a := ?p))" by (simp add: rotor_step_def)
  then have "walks ?n (?n - 1, \<lambda>_. 0) (idx @ [F a]) (F a, F(a := ?p))" by (rule walks_append [OF w])
  then have "lb_wf cpid t" if "lb_head t = Some (F a)" "lb_heap t = h'" "lb_signals t = lb_signals s @ [cpid ! F a]" for t
    unfolding lb_wf_def that sig using h'(2) st
    by (intro exI [of _ "F a"] exI [of _ "F(a := ?p)"] exI [of _ "R(a := F a)"] exI [of _ "Q(R a := Some (F a))"]
        exI [of _ "idx @ [F a]"]) (simp del: fun_upd_apply)
  moreover have "cpid ! F a \<in> set cpid" using b(2) by simp
  ultimately show ?thesis using hd hn tn h'(1) that by (simp add: lb_round_def)
qed

lemma print_queue_chain:
  "chain h p as \<Longrightarrow> \<exists>text. print_queue h p out = Some (Inr text)"
proof (induction as arbitrary: p out)
  case Nil
  then show ?case by (simp add: print_queue.simps)
next
  case (Cons a as)
  then obtain nd where "p = Some a" "mem h a = Some nd" "chain h (next_node nd) as" by auto
  then show ?case using Cons.IH by (subst print_queue.simps) simp
qed

lemma lb_main_running:
  assumes "lb_main argv forks = Some (Inr (Running text s))" and "cpid = map forks [0..<nat (atoi (argv ! 2))]"
  shows "lb_wf cpid s" "lb_workers s = (\<lambda>p. if p \<in> set cpid then Some Starting else None)"
    "lb_signals s = []" "lb_printed s = []" "lb_usr2 s = None" "lb_child_pid s = -1"
proof -
  have pos: "0 < nat (atoi (argv ! 2))" using assms(1) by (auto simp: lb_main_def Let_def split: if_splits)
  then obtain m where m: "length cpid = Suc m" using assms(2) by (auto simp: gr0_conv_Suc)
  obtain h where h: "build_queue cpid = Inr (Some m, h)" "built cpid h" using build_queue_built [OF m] by blast
  obtain Q where Q: "qrep cpid h (\<lambda>_. 0) (\<lambda>i. i) Q" "q_start (length cpid) m (\<lambda>_. 0) (\<lambda>i. i) Q"
    by (rule built_start [OF h(2) m])
  have s: "s = lb_init cpid (Some m) h"
    using assms(1) h(1) unfolding lb_main_def assms(2) [symmetric] Let_def
    by (auto split: if_splits option.splits sum.splits)
  have "lb_head s = Some m" "lb_heap s = h" "lb_signals s = map ((!) cpid) []" by (simp_all add: s lb_init_def)
  then show "lb_wf cpid s" unfolding lb_wf_def using Q m
    by (intro exI [of _ m] exI [of _ "\<lambda>_. 0"] exI [of _ "\<lambda>i. i"] exI [of _ Q] exI [of _ "[]"]) (simp add: q_inv_def)
  show "lb_workers s = (\<lambda>p. if p \<in> set cpid then Some Starting else None)"
    "lb_signals s = []" "lb_printed s = []" "lb_usr2 s = None" "lb_child_pid s = -1"
    by (simp_all add: s lb_init_def)
qed

section \<open>Invariants of the children\<close>

text \<open>Signals a child has been sent and not yet answered.\<close>

fun unanswered :: "worker option \<Rightarrow> nat" where
  "unanswered (Some Invoked) = 1"
| "unanswered (Some (Handling r b)) = (if b then 2 else 1)"
| "unanswered _ = 0"

definition outputs :: "int \<Rightarrow> lb_print list \<Rightarrow> nat" where
  "outputs p log = length (filter (\<lambda>x. \<exists>y. x = Output p y) log)"

lemma outputs_append [simp]: "outputs p (l @ m) = outputs p l + outputs p m"
  by (simp add: outputs_def)

lemma readings_append [simp]: "lb_printed t = lb_printed s @ l \<Longrightarrow> readings p t = readings p s + count_list l (Reading_now p)"
  by (simp add: readings_def)

text \<open>A child with \<open>k\<close> readings has failed exactly when these are more than it has descriptors.\<close>

definition worker_ok :: "nat \<Rightarrow> string \<Rightarrow> nat \<Rightarrow> worker option \<Rightarrow> bool" where
  "worker_ok limit x k w = (case w of
      Some (Faulted e) \<Rightarrow> e = Overflow \<and> limit < k
    | Some (Handling r b) \<Rightarrow> r = Some x \<and> k \<le> limit
    | _ \<Rightarrow> k \<le> limit)"

definition lb_inv :: "nat \<Rightarrow> int list \<Rightarrow> string \<Rightarrow> lb_sys \<Rightarrow> bool" where
  "lb_inv limit cpid x s \<longleftrightarrow> lb_wf cpid s \<and> dom (lb_workers s) = set cpid
     \<and> (\<forall>p. worker_ok limit x (readings p s) (lb_workers s p))
     \<and> (\<forall>p y. Output p y \<in> set (lb_printed s) \<longrightarrow> p \<in> set cpid \<and> y = cstr x)
     \<and> (\<forall>p. lb_usr2 s = Some p \<longrightarrow> p \<in> set cpid) \<and> (lb_child_pid s = -1 \<or> lb_child_pid s \<in> set cpid)
     \<and> (\<forall>p. outputs p (lb_printed s) + unanswered (lb_workers s p) \<le> count_list (lb_signals s) p)"

lemma unanswered_deliver: "unanswered (map_option (deliver keep) w) \<le> Suc (unanswered w)"
proof (cases w)
  case (Some v)
  then show ?thesis by (cases v) auto
qed simp

lemma worker_ok_deliver [simp]: "worker_ok limit x k (map_option (deliver keep) w) \<longleftrightarrow> worker_ok limit x k w"
  by (cases w) (auto simp: worker_ok_def split: worker.splits)

lemma lb_inv_round:
  assumes "lb_inv limit cpid x s" and "2 \<le> length cpid" and "lb_round keep s = Inr t"
  shows "lb_inv limit cpid x t"
proof -
  have "lb_wf cpid s" using assms(1) by (simp add: lb_inv_def)
  then obtain p where p: "lb_wf cpid t" "p \<in> set cpid"
    "lb_workers t = (lb_workers s)(p := map_option (deliver keep) (lb_workers s p))"
    "lb_signals t = lb_signals s @ [p]" "lb_printed t = lb_printed s" "lb_usr2 t = lb_usr2 s"
    "lb_child_pid t = lb_child_pid s"
    using lb_round_wf [of cpid s keep] assms(2,3) by (metis sum.inject(2))
  have "outputs q (lb_printed s) + unanswered (lb_workers s q) \<le> count_list (lb_signals s) q" for q
    using assms(1) by (simp add: lb_inv_def)
  note le = this [of p] this
  have n: "outputs q (lb_printed t) + unanswered (lb_workers t q) \<le> count_list (lb_signals t) q" for q
    using unanswered_deliver [of keep "lb_workers s p"] le(1) le(2) [of q] unfolding p(3-5)
    by (cases "q = p") simp_all
  have "worker_ok limit x (readings q s) (lb_workers s q)" for q using assms(1) by (simp add: lb_inv_def)
  moreover have "readings q t = readings q s" for q by (simp add: readings_def p(5))
  ultimately have ok: "worker_ok limit x (readings q t) (lb_workers t q)" for q by (simp add: p(3))
  have "dom (lb_workers t) = dom (lb_workers s)" by (auto simp: p(3) dom_def)
  then show ?thesis using assms(1) p(1) n ok unfolding lb_inv_def p(5-7) by simp
qed

text \<open>A step of one child.\<close>

lemma lb_inv_child:
  assumes inv: "lb_inv limit cpid x s" and p: "lb_workers s p \<noteq> None"
    and t: "lb_head t = lb_head s" "lb_heap t = lb_heap s" "lb_signals t = lb_signals s"
      "lb_workers t = (lb_workers s)(p \<mapsto> w)" "lb_printed t = lb_printed s @ l"
      "lb_child_pid t = lb_child_pid s" "lb_usr2 t \<in> {lb_usr2 s, Some p}"
    and w: "worker_ok limit x (readings p s + count_list l (Reading_now p)) (Some w)"
    and rd: "\<And>q. q \<noteq> p \<Longrightarrow> Reading_now q \<notin> set l"
    and l: "\<And>q y. Output q y \<in> set l \<Longrightarrow> q = p \<and> y = cstr x"
    and n: "outputs p l + unanswered (Some w) \<le> unanswered (lb_workers s p)"
  shows "lb_inv limit cpid x t"
proof -
  have pc: "p \<in> set cpid" using inv p unfolding lb_inv_def by blast
  have wf: "lb_wf cpid t" using inv lb_wf_cong [OF t(1-3)] unfolding lb_inv_def by blast
  have d: "dom (lb_workers t) = set cpid" using inv pc by (auto simp: lb_inv_def t(4))
  have "worker_ok limit x (readings q s) (lb_workers s q)" for q using inv by (simp add: lb_inv_def)
  then have ok: "worker_ok limit x (readings q t) (lb_workers t q)" for q
    using w rd [of q] readings_append [OF t(5), of q] by (cases "q = p") (simp_all add: t(4))
  have u: "lb_usr2 t = Some q \<Longrightarrow> q \<in> set cpid" for q using inv t(7) pc by (auto simp: lb_inv_def)
  have o: "Output q y \<in> set (lb_printed t) \<Longrightarrow> q \<in> set cpid \<and> y = cstr x" for q y
    using inv l [of q y] pc unfolding lb_inv_def t(5) by auto
  have z: "outputs q l = 0" if "q \<noteq> p" for q
    using l that by (auto simp: outputs_def filter_empty_conv)
  have c: "outputs q (lb_printed s) + unanswered (lb_workers s q) \<le> count_list (lb_signals s) q" for q
    using inv by (simp add: lb_inv_def)
  have m: "outputs q (lb_printed t) + unanswered (lb_workers t q) \<le> count_list (lb_signals t) q" for q
    using c [of q] n z [of q] unfolding t(3-5) by (cases "q = p") simp_all
  show ?thesis using wf d ok u o m inv unfolding lb_inv_def t(6) by blast
qed

lemma lb_inv_worker: "lb_inv limit cpid x s \<Longrightarrow> worker_ok limit x (readings p s) (lb_workers s p)"
  by (simp add: lb_inv_def)

lemma lb_inv_install:
  assumes "lb_inv limit cpid x s" and "child_install p s = Some t"
  shows "lb_inv limit cpid x t"
proof -
  have w: "lb_workers s p = Some Starting" and t: "t = s\<lparr>lb_workers := (lb_workers s)(p \<mapsto> Pausing)\<rparr>"
    using assms(2) by (auto simp: child_install_def split: option.splits worker.splits)
  show ?thesis using lb_inv_worker [OF assms(1), of p]
    by (intro lb_inv_child [OF assms(1), of p t Pausing "[]"]) (simp_all add: w t worker_ok_def outputs_def)
qed

lemma lb_inv_begin:
  assumes "lb_inv limit cpid x s" and "sig_usr1_begin limit f p s = Some t" and "sig_usr1_read f [] = Inr (Some x)"
  shows "lb_inv limit cpid x t"
proof -
  let ?w = "if readings p s < limit then Handling (Some x) False else Faulted Overflow"
  have w: "lb_workers s p = Some Invoked"
    and t: "t = s\<lparr>lb_workers := (lb_workers s)(p \<mapsto> ?w), lb_printed := lb_printed s @ [Reading_now p]\<rparr>"
    using assms(2,3) sig_usr1_read_unopened [of "[]"] by (auto simp: sig_usr1_begin_def split: option.splits worker.splits)
  show ?thesis
    by (rule lb_inv_child [OF assms(1), of p t ?w "[Reading_now p]"]) (simp_all add: w t worker_ok_def outputs_def)
qed

lemma lb_inv_end:
  assumes "lb_inv limit cpid x s" and "sig_usr1_end p s = Some t"
  shows "lb_inv limit cpid x t"
proof -
  obtain r b where w: "lb_workers s p = Some (Handling r b)"
    using assms(2) by (auto simp: sig_usr1_end_def split: option.splits worker.splits)
  have r: "r = Some x" "readings p s \<le> limit" using lb_inv_worker [OF assms(1), of p] by (simp_all add: w worker_ok_def)
  let ?w = "if b then Invoked else Pausing" and ?l = "[Output p (cstr x), Sending p]"
  let ?u = "case lb_usr2 s of None \<Rightarrow> Some p | Some q \<Rightarrow> Some q"
  have t: "t = s\<lparr>lb_workers := (lb_workers s)(p \<mapsto> ?w), lb_usr2 := ?u, lb_printed := lb_printed s @ ?l\<rparr>"
    using assms(2) w r by (simp add: sig_usr1_end_def)
  have "?u \<in> {lb_usr2 s, Some p}" by (cases "lb_usr2 s") simp_all
  then show ?thesis
    by (intro lb_inv_child [OF assms(1), of p t ?w ?l]) (simp_all add: w r t worker_ok_def outputs_def)
qed

lemma lb_inv_freed:
  assumes "lb_inv limit cpid x s" and "sig_usr2 s = Some t"
  shows "lb_inv limit cpid x t"
proof -
  obtain p where u: "lb_usr2 s = Some p"
    and t: "t = s\<lparr>lb_usr2 := None, lb_child_pid := p, lb_printed := lb_printed s @ [Child_free p]\<rparr>"
    using assms(2) by (auto simp: sig_usr2_def split: option.splits)
  have "p \<in> set cpid" using assms(1) u by (simp add: lb_inv_def)
  then show ?thesis using assms(1) by (simp add: lb_inv_def t lb_wf_def outputs_def readings_def)
qed

lemma lb_inv_reach:
  assumes "lb_reach limit f s t" and "lb_inv limit cpid x s" and "2 \<le> length cpid" and "sig_usr1_read f [] = Inr (Some x)"
  shows "lb_inv limit cpid x t"
  using assms(1,2)
proof (induction rule: lb_reach.induct)
  case (step s t u)
  then have "lb_inv limit cpid x t" by blast
  with step.hyps(2) show ?case
    by cases (blast intro: lb_inv_round [OF _ assms(3)] lb_inv_install lb_inv_begin [OF _ _ assms(4)] lb_inv_end lb_inv_freed)+
qed

section \<open>Progress of a child\<close>

lemma lb_wf_step:
  assumes "lb_step limit f s t" and "lb_wf cpid s" and "2 \<le> length cpid"
  shows "lb_wf cpid t"
  using assms(1)
proof cases
  case (round keep)
  then show ?thesis using lb_round_wf [OF assms(2,3), of keep] by (metis sum.inject(2))
qed (use assms(2) lb_wf_cong [of t s] in \<open>auto simp: child_install_def sig_usr1_begin_def sig_usr1_end_def sig_usr2_def
      split: option.splits worker.splits\<close>)

lemma lb_wf_reach: "lb_reach limit f s t \<Longrightarrow> lb_wf cpid s \<Longrightarrow> 2 \<le> length cpid \<Longrightarrow> lb_wf cpid t"
  by (induction rule: lb_reach.induct) (auto intro: lb_wf_step)

text \<open>A step of the system, seen by one child.\<close>

lemma lb_step_child:
  assumes "lb_step limit f s t" and "lb_wf cpid s" and "2 \<le> length cpid"
  shows "(\<exists>q keep. lb_signals t = lb_signals s @ [q] \<and> readings p t = readings p s \<and>
        lb_workers t p = (if p = q then map_option (deliver keep) (lb_workers s p) else lb_workers s p))
    \<or> lb_signals t = lb_signals s \<and> (readings p t = Suc (readings p s)
        \<or> readings p t = readings p s \<and> (lb_workers t p = lb_workers s p
           \<or> lb_workers s p = Some Starting \<and> lb_workers t p = Some Pausing \<or> (\<exists>r b. lb_workers s p = Some (Handling r b))))"
  using assms(1)
proof cases
  case (round keep)
  obtain q t' where "lb_round keep s = Inr t'"
    "lb_workers t' = (lb_workers s)(q := map_option (deliver keep) (lb_workers s q))"
    "lb_signals t' = lb_signals s @ [q]" "lb_printed t' = lb_printed s"
    by (rule lb_round_wf [OF assms(2,3), of keep])
  then show ?thesis using round by (auto simp: readings_def intro!: exI [of _ q] exI [of _ keep])
qed (auto simp: readings_def child_install_def sig_usr1_begin_def sig_usr1_end_def sig_usr2_def
      split: option.splits worker.splits if_splits)

lemma idle_until_signalled:
  assumes "lb_reach limit f s t" and "lb_wf cpid s" and "2 \<le> length cpid" and "lb_workers s p = Some Pausing"
  shows "\<exists>w. lb_signals t = lb_signals s @ w \<and> readings p s \<le> readings p t \<and>
    (p \<notin> set w \<and> lb_workers t p = Some Pausing \<or> lb_workers t p = Some Invoked \<or> readings p s < readings p t)"
  using assms(1,2,4)
proof (induction rule: lb_reach.induct)
  case (here s)
  then show ?case by simp
next
  case (step s t u)
  then obtain w where w: "lb_signals t = lb_signals s @ w" "readings p s \<le> readings p t"
    "p \<notin> set w \<and> lb_workers t p = Some Pausing \<or> lb_workers t p = Some Invoked \<or> readings p s < readings p t"
    by blast
  have wf: "lb_wf cpid t" using lb_wf_reach [OF step.hyps(1) step.prems(1) assms(3)] .
  from lb_step_child [OF step.hyps(2) wf assms(3), of p] w show ?case
    by (elim disjE conjE exE) (auto split: if_splits)
qed

lemma cycle_covers:
  assumes "j < n" and "n * n \<le> b - a"
  shows "\<exists>i. a \<le> i \<and> i < b \<and> cycle n ! (i mod (n * n)) = j"
proof -
  let ?N = "n * n"
  have N: "0 < ?N" using assms(1) by auto
  have "j \<in> set (cycle n)" using count_cycle [OF assms(1)] assms(1) by (metis count_list_0_iff less_nat_zero_code)
  then obtain r where r: "r < ?N" "cycle n ! r = j" by (auto simp: in_set_conv_nth)
  let ?i = "a + (r + (?N - a mod ?N)) mod ?N"
  have "?i mod ?N = r"
  proof -
    have "?i mod ?N = (a mod ?N + (r + (?N - a mod ?N))) mod ?N"
      by (simp only: mod_add_left_eq mod_add_right_eq)
    also have "\<dots> = (r + ?N) mod ?N" using mod_less_divisor [OF N, of a] by (simp add: algebra_simps)
    finally show ?thesis using r(1) by simp
  qed
  moreover have "?i < b" using mod_less_divisor [OF N, of "r + (?N - a mod ?N)"] assms(2) N by linarith
  ultimately show ?thesis using r(2) by (intro exI [of _ ?i]) auto
qed

lemma cycle_0: "0 < n \<Longrightarrow> cycle n ! 0 = 0"
  by (simp add: cycle_def block_def upt_conv_Cons)

text \<open>The program starts for every positive number of children, and its rounds can go on.\<close>

lemma lb_main_starts:
  assumes "3 \<le> length argv" and "1 \<le> atoi (argv ! 2)"
  shows "\<exists>text s. lb_main argv forks = Some (Inr (Running text s))"
proof -
  let ?c = "map forks [0..<nat (atoi (argv ! 2))]"
  have "?c \<noteq> []" using assms(2) by simp
  then obtain h b bs where q: "build_queue ?c = Inr (Some b, h)" "dll h (b # bs)" using build_queue_dll by blast
  then obtain tx where "print_queue h (Some b) [] = Some (Inr tx)"
    using print_queue_chain [OF dll_chain [OF q(2)]] by blast
  then show ?thesis using assms q(1) by (simp add: lb_main_def Let_def)
qed

lemma lb_rounds_exist:
  assumes "lb_wf cpid s" and "2 \<le> length cpid"
  shows "\<exists>t. lb_reach limit f s t \<and> lb_wf cpid t \<and> length (lb_signals t) = length (lb_signals s) + k"
proof (induction k)
  case 0
  then show ?case using assms(1) lb_reach.here by (metis add_0_right)
next
  case (Suc k)
  then obtain t where t: "lb_reach limit f s t" "lb_wf cpid t" "length (lb_signals t) = length (lb_signals s) + k" by blast
  obtain q u where "lb_round True t = Inr u" "lb_wf cpid u" "lb_signals u = lb_signals t @ [q]"
    by (rule lb_round_wf [OF t(2) assms(2), of True])
  then show ?case using t(1,3) by (intro exI [of _ u]) (auto intro: lb_reach.step lb_step.round)
qed

lemma atoi_2: "atoi ''2'' = 2"
  by code_simp

lemma dead_stays_dead:
  assumes "lb_reach limit f s t" and "lb_workers s p = Some Killed"
  shows "lb_workers t p = Some Killed \<and> outputs p (lb_printed t) = outputs p (lb_printed s)"
  using assms
proof (induction rule: lb_reach.induct)
  case (step s t u)
  then have t: "lb_workers t p = Some Killed" "outputs p (lb_printed t) = outputs p (lb_printed s)" by auto
  from step.hyps(2) have "lb_workers u p = Some Killed \<and> outputs p (lb_printed u) = outputs p (lb_printed t)"
  proof cases
    case (round keep)
    then show ?thesis using t(1) by (auto simp: lb_round_def rbind_eq_Inr split: prod.splits)
  qed (use t(1) in \<open>auto simp: outputs_def child_install_def sig_usr1_begin_def sig_usr1_end_def sig_usr2_def
      split: option.splits worker.splits if_splits\<close>)
  then show ?case using t(2) by simp
qed simp

section \<open>Properties\<close>

lemma balancer_facts:
  assumes "lb_main argv forks = Some (Inr (Running text s0))" and "atoi (argv ! 2) = int n" and "2 \<le> n"
    and "f = Some (line1 @ NL # rest)" and "NL \<notin> set line1" and "length line1 < 255"
    and "lb_reach limit f s0 s"
  shows "\<exists>t. lb_round keep s = Inr t"
    and "lb_signals s = map (\<lambda>i. forks (cycle n ! (i mod (n * n)))) [0..<length (lb_signals s)]"
    and "lb_workers s p = Some (Faulted e) \<longleftrightarrow> e = Overflow \<and> limit < readings p s"
    and "Output p y \<in> set (lb_printed s) \<Longrightarrow> p \<in> forks ` {..<n} \<and> y = cstr line1"
    and "outputs p (lb_printed s) + unanswered (lb_workers s p) \<le> count_list (lb_signals s) p"
    and "lb_child_pid s \<in> insert (-1) (forks ` {..<n})"
proof -
  let ?c = "map forks [0..<n]"
  have sc: "set ?c = forks ` {..<n}" by auto
  have two: "2 \<le> length ?c" using assms(3) by simp
  have r: "sig_usr1_read f [] = Inr (Some line1)"
    using sig_usr1_read_line [of line1 "[]" rest] assms(4-6) by simp
  note m = lb_main_running [OF assms(1), of ?c]
  have d: "dom (lb_workers s0) = set ?c" using m(2) assms(2) by (auto simp: dom_def split: if_splits)
  have "lb_inv limit ?c line1 s0"
    using m d assms(2) unfolding lb_inv_def
    by (simp add: worker_ok_def outputs_def readings_def split: if_splits option.splits)
  then have inv: "lb_inv limit ?c line1 s" by (rule lb_inv_reach [OF assms(7) _ two r])
  then have wf: "lb_wf ?c s" by (simp add: lb_inv_def)
  show "\<exists>t. lb_round keep s = Inr t" using lb_round_wf [OF wf two] by metis
  have c: "cycle n ! (i mod (n * n)) < n" for i
  proof -
    have "set (cycle n) \<subseteq> {..<n}" by (auto simp: cycle_def block_def split: if_splits)
    moreover have "i mod (n * n) < length (cycle n)" using assms(3) by simp
    ultimately show ?thesis using nth_mem by blast
  qed
  have "lb_signals s = map (\<lambda>i. ?c ! (cycle n ! (i mod (n * n)))) [0..<length (lb_signals s)]"
    by (rule lb_wf_signals [OF wf]) (use assms(3) in auto)
  then show "lb_signals s = map (\<lambda>i. forks (cycle n ! (i mod (n * n)))) [0..<length (lb_signals s)]"
    using c by simp
  show "lb_workers s p = Some (Faulted e) \<longleftrightarrow> e = Overflow \<and> limit < readings p s"
    using lb_inv_worker [OF inv, of p] by (auto simp: worker_ok_def split: option.splits worker.splits)
  show "Output p y \<in> set (lb_printed s) \<Longrightarrow> p \<in> forks ` {..<n} \<and> y = cstr line1"
    using inv unfolding lb_inv_def sc by blast
  show "outputs p (lb_printed s) + unanswered (lb_workers s p) \<le> count_list (lb_signals s) p"
    using inv unfolding lb_inv_def by blast
  show "lb_child_pid s \<in> insert (-1) (forks ` {..<n})" using inv unfolding lb_inv_def sc by blast
qed

text \<open>
  C15. The load balancer at work. With at least two children, all of which \<open>fork\<close> has created, a
  file whose first line fits the buffer, and \<open>limit\<close> descriptors for it in every child, in every
  interleaving of the parent with its children and their signals: the parent's next round
  succeeds; the children it has signalled so far are those of the rotor walk, whatever the
  children did; a child has failed exactly when it has begun more readings than it has
  descriptors, each of which keeps one, and then by an overflow of its buffer; everything a
  child has printed as output is the first line of the file; every output, running handler and
  pending signal of a child answers a different signal sent to it; and the child last reported
  free is one of the children.
\<close>

theorem balancer_invariant:
  assumes "lb_main argv forks = Some (Inr (Running text s0))" and "atoi (argv ! 2) = int n" and "2 \<le> n"
    and "\<forall>i<n. 0 < forks i"
    and "f = Some (line1 @ NL # rest)" and "NL \<notin> set line1" and "length line1 < 255"
    and "lb_reach limit f s0 s"
  shows "(\<exists>t. lb_round keep s = Inr t)
    \<and> lb_signals s = map (\<lambda>i. forks (cycle n ! (i mod (n * n)))) [0..<length (lb_signals s)]
    \<and> (\<forall>p e. lb_workers s p = Some (Faulted e) \<longleftrightarrow> e = Overflow \<and> limit < readings p s)
    \<and> (\<forall>p y. Output p y \<in> set (lb_printed s) \<longrightarrow> p \<in> forks ` {..<n} \<and> y = cstr line1)
    \<and> (\<forall>p. outputs p (lb_printed s) + unanswered (lb_workers s p) \<le> count_list (lb_signals s) p)
    \<and> lb_child_pid s \<in> insert (-1) (forks ` {..<n})"
  using balancer_facts [OF assms(1-3,5-8)] by blast

theorem balancer_invariant_witness:
  "\<exists>text s0 t. lb_main [''lb'', ''f'', ''2''] (\<lambda>i. 10 + int i) = Some (Inr (Running text s0))
     \<and> lb_round True s0 = Inr t \<and> lb_child_pid s0 \<in> {-1, 10, 11}"
proof -
  let ?a = "[''lb'', ''f'', ''2'']" and ?f = "Some (''hi'' @ NL # [])"
  have a: "atoi (?a ! 2) = int 2" by (simp add: atoi_2)
  obtain tx s0 where m: "lb_main ?a (\<lambda>i. 10 + int i) = Some (Inr (Running tx s0))"
    using lb_main_starts [of ?a "\<lambda>i. 10 + int i"] a by auto
  have "NL \<notin> set ''hi''" by simp
  then have "(\<exists>t. lb_round True s0 = Inr t) \<and> lb_child_pid s0 \<in> insert (-1) ((\<lambda>i. 10 + int i) ` {..<2})"
    using balancer_invariant [OF m a _ _ refl _ _ lb_reach.here, of "''hi''" True] by simp
  moreover have "(\<lambda>i. 10 + int i) ` {..<2} = {10, 11}" by (auto simp: numeral_2_eq_2 lessThan_Suc)
  ultimately show ?thesis using m by auto
qed

text \<open>
  C16. No child starves. A child that waits in \<open>pause\<close> is put to work within \<open>n * n\<close> rounds of the
  parent, for \<open>n\<close> children, whatever the other processes do meanwhile and whatever the file is:
  its handler has been invoked or has already begun to read.
\<close>

theorem idle_child_served:
  assumes "lb_main argv forks = Some (Inr (Running text s0))" and "atoi (argv ! 2) = int n" and "2 \<le> n"
    and "lb_reach limit f s0 s" and "j < n" and "lb_workers s (forks j) = Some Pausing"
    and "lb_reach limit f s t" and "length (lb_signals s) + n * n \<le> length (lb_signals t)"
  shows "lb_workers t (forks j) = Some Invoked \<or> readings (forks j) s < readings (forks j) t"
proof -
  let ?c = "map forks [0..<n]"
  have two: "2 \<le> length ?c" using assms(3) by simp
  have wf0: "lb_wf ?c s0" using lb_main_running(1) [OF assms(1), of ?c] assms(2) by simp
  have wf: "lb_wf ?c s" by (rule lb_wf_reach [OF assms(4) wf0 two])
  obtain w where w: "lb_signals t = lb_signals s @ w"
    "forks j \<notin> set w \<and> lb_workers t (forks j) = Some Pausing \<or> lb_workers t (forks j) = Some Invoked
      \<or> readings (forks j) s < readings (forks j) t"
    using idle_until_signalled [OF assms(7) wf two assms(6)] by blast
  have "n * n \<le> length (lb_signals t) - length (lb_signals s)" using assms(8) by simp
  then obtain i where i: "length (lb_signals s) \<le> i" "i < length (lb_signals t)" "cycle n ! (i mod (n * n)) = j"
    using cycle_covers [OF assms(5)] by blast
  have "lb_signals t = map (\<lambda>i. ?c ! (cycle n ! (i mod (n * n)))) [0..<length (lb_signals t)]"
    by (rule lb_wf_signals [OF lb_wf_reach [OF assms(7) wf two]]) (use assms(3) in auto)
  then have "lb_signals t ! i = map (\<lambda>i. ?c ! (cycle n ! (i mod (n * n)))) [0..<length (lb_signals t)] ! i" by (rule arg_cong)
  also have "\<dots> = forks j" using i(2,3) assms(5) by simp
  finally have "lb_signals t ! i = forks j" .
  then have "w ! (i - length (lb_signals s)) = forks j" using w(1) i(1) by (simp add: nth_append)
  moreover have "i - length (lb_signals s) < length w" using w(1) i(1,2) by simp
  ultimately have "forks j \<in> set w" by (metis nth_mem)
  then show ?thesis using w(2) by blast
qed

theorem idle_child_served_witness:
  "\<exists>s t. lb_workers s 11 = Some Pausing \<and> length (lb_signals t) = length (lb_signals s) + 4
     \<and> (lb_workers t 11 = Some Invoked \<or> readings 11 s < readings 11 t)"
proof -
  let ?a = "[''lb'', ''f'', ''2'']" and ?fk = "\<lambda>i. 10 + int i"
  have a: "atoi (?a ! 2) = int 2" by (simp add: atoi_2)
  obtain tx s0 where m: "lb_main ?a ?fk = Some (Inr (Running tx s0))"
    using lb_main_starts [of ?a "\<lambda>i. 10 + int i"] a by auto
  note r = lb_main_running [OF m, of "[10, 11]"]
  have c: "[10, 11] = map ?fk [0..<nat (atoi (?a ! 2))]" using a by (simp add: upt_rec)
  let ?s = "s0\<lparr>lb_workers := (lb_workers s0)(11 \<mapsto> Pausing)\<rparr>"
  have "child_install 11 s0 = Some ?s" using r(2) [OF c] by (simp add: child_install_def)
  then have s: "lb_reach 9 None s0 ?s" by (blast intro: lb_reach.intros lb_step.install)
  have "lb_wf [10, 11] ?s" using lb_wf_reach [OF s r(1) [OF c]] by simp
  then obtain t where t: "lb_reach 9 None ?s t" "length (lb_signals t) = length (lb_signals ?s) + 4"
    using lb_rounds_exist [of "[10, 11]" ?s 9 None 4] by auto
  have "lb_workers t (?fk 1) = Some Invoked \<or> readings (?fk 1) ?s < readings (?fk 1) t"
    by (rule idle_child_served [OF m a _ s _ _ t(1)]) (simp_all add: t(2))
  then show ?thesis using t(2) by (intro exI [of _ ?s] exI [of _ t]) simp
qed

text \<open>
  A child can be lost at the start. The parent does not wait until a child has installed
  its handler: when its first round comes before the first child's call of \<open>signal\<close>, that child
  is ended by the signal, and it stays dead and prints nothing in every continuation.
\<close>

theorem early_signal_kills:
  assumes "lb_main argv forks = Some (Inr (Running text s))" and "2 \<le> atoi (argv ! 2)"
    and "lb_round keep s = Inr t" and "lb_reach limit f t u"
  shows "lb_workers u (forks 0) = Some Killed \<and> outputs (forks 0) (lb_printed u) = 0"
proof -
  let ?c = "map forks [0..<nat (atoi (argv ! 2))]"
  have two: "2 \<le> length ?c" using assms(2) by simp
  note m = lb_main_running [OF assms(1) refl]
  obtain p t' where t: "lb_round keep s = Inr t'" "lb_wf ?c t'"
    "lb_workers t' = (lb_workers s)(p := map_option (deliver keep) (lb_workers s p))" "p \<in> set ?c"
    "lb_signals t' = lb_signals s @ [p]" "lb_printed t' = lb_printed s"
    by (rule lb_round_wf [OF m(1) two, of keep])
  have "lb_signals t' = map (\<lambda>i. ?c ! (cycle (length ?c) ! (i mod (length ?c * length ?c)))) [0..<length (lb_signals t')]"
    by (rule lb_wf_signals [OF t(2) refl]) (use two in linarith)
  then have "p = ?c ! (cycle (length ?c) ! 0)" using t(5) m(3) by simp
  moreover have "cycle (length ?c) ! 0 = 0" by (rule cycle_0) (use two in linarith)
  ultimately have "p = forks 0" using assms(2) by simp
  then have "lb_workers t (forks 0) = Some Killed" "lb_printed t = []"
    using t m(2,4) assms(3) by auto
  then show ?thesis using dead_stays_dead [OF assms(4)] by (simp add: outputs_def)
qed

theorem early_signal_kills_witness:
  "\<exists>text s t. lb_main [''lb'', ''f'', ''2''] (\<lambda>i. 10 + int i) = Some (Inr (Running text s))
     \<and> lb_round True s = Inr t \<and> lb_workers t 10 = Some Killed"
proof -
  let ?a = "[''lb'', ''f'', ''2'']" and ?fk = "\<lambda>i. 10 + int i"
  have a: "atoi (?a ! 2) = int 2" by (simp add: atoi_2)
  obtain tx s where m: "lb_main ?a ?fk = Some (Inr (Running tx s))"
    using lb_main_starts [of ?a "\<lambda>i. 10 + int i"] a by auto
  have wf: "lb_wf (map ?fk [0..<2]) s" using lb_main_running(1) [OF m, of "map ?fk [0..<2]"] a by simp
  obtain t where t: "lb_round True s = Inr t" using lb_round_wf [OF wf, of True] by auto
  have "2 \<le> atoi (?a ! 2)" using a by simp
  from early_signal_kills [OF m this t lb_reach.here] m t show ?thesis by auto
qed

text \<open>
  The reading loop of the handler. It keeps exactly the first line when that has at most 254
  characters; a longer text overflows the buffer; a text of at most 255 characters without a
  newline leaves the buffer without a terminator; and a file that cannot be opened makes the
  loop fill the buffer and run over its end.
\<close>

theorem sig_usr1_read_spec:
  "sig_usr1_read (Some cs) [] = (if NL \<in> set (take 255 cs) then Inr (Some (takeWhile (\<lambda>c. c \<noteq> NL) cs))
     else if length cs \<le> 255 then Inr None else Inl Overflow)"
  "sig_usr1_read None [] = Inl Overflow"
proof -
  show "sig_usr1_read None [] = Inl Overflow" by (rule sig_usr1_read_unopened) simp
  consider (line1) "NL \<in> set (take 255 cs)" | (eof) "NL \<notin> set (take 255 cs)" "length cs \<le> 255"
    | (long) "NL \<notin> set (take 255 cs)" "255 < length cs" by linarith
  then show "sig_usr1_read (Some cs) [] = (if NL \<in> set (take 255 cs) then Inr (Some (takeWhile (\<lambda>c. c \<noteq> NL) cs))
     else if length cs \<le> 255 then Inr None else Inl Overflow)"
  proof cases
    case line1
    then obtain a b where ab: "take 255 cs = a @ NL # b" "NL \<notin> set a" by (meson split_list_first)
    then have cs: "cs = a @ NL # (b @ drop 255 cs)"
      by (metis append_Cons append_assoc append_take_drop_id)
    have "length (take 255 cs) \<le> 255" by simp
    then have "length a < 255" unfolding ab(1) by simp
    moreover have "takeWhile (\<lambda>c. c \<noteq> NL) cs = a" using ab(2) by (subst cs) (subst takeWhile_append2; auto)
    ultimately show ?thesis
      using line1 sig_usr1_read_line [OF ab(2), of "[]" "b @ drop 255 cs"] cs by simp
  next
    case eof
    then show ?thesis using sig_usr1_read_eof [of cs "[]"] by simp
  next
    case long
    then show ?thesis using sig_usr1_read_long [of "take 255 cs" "[]" "drop 255 cs"] by simp
  qed
qed

end
