(* ===== verification/Trie.thy ===== *)
theory Trie
  imports NP_Prelude "HOL-Library.Sublist"
begin

text \<open>
  The completion engine of \<open>MyShell/engine.c\<close>: the trie of words over the letters and the
  space, its insertion, search, enumeration and release. A node owns its children, so the
  heap of nodes is a tree; the 27 child slots are a list of options. An index outside the
  slots is the error \<open>Out_of_bounds\<close>. The arrays of completions are modelled without the
  capacity of their one-byte allocations.
\<close>

section \<open>Nodes\<close>

datatype Node = Node (isEnd: bool) (child: "Node option list")

datatype trie_error = Out_of_bounds int | Too_many_words

definition alphabets :: string where
  "alphabets = ''abcdefghijklmnopqrstuvwxyz ''"

definition newNode :: Node where
  "newNode = Node False (replicate 27 None)"

text \<open>\<open>str[i] - 'a'\<close>; \<open>char\<close> is signed.\<close>

definition schar :: "char \<Rightarrow> int" where
  "schar c = (let n = int (of_char c) in if n < 128 then n else n - 256)"

definition letter_pos :: "char \<Rightarrow> int" where
  "letter_pos c = schar c - 97"

definition insert_pos :: "char \<Rightarrow> int" where
  "insert_pos c = (if c \<noteq> CHR '' '' then letter_pos c else 26)"

definition in_slots :: "int \<Rightarrow> bool" where
  "in_slots p \<longleftrightarrow> 0 \<le> p \<and> p < 27"

fun insertTrie :: "Node \<Rightarrow> string \<Rightarrow> trie_error + Node" where
  "insertTrie (Node e cs) [] = Inr (Node True cs)"
| "insertTrie (Node e cs) (c # str) =
     (let p = insert_pos c in
      if \<not> in_slots p then Inl (Out_of_bounds p)
      else rbind (insertTrie (case cs ! nat p of None \<Rightarrow> newNode | Some t \<Rightarrow> t) str)
             (\<lambda>t'. Inr (Node e (cs[nat p := Some t']))))"

fun searchTrie :: "Node \<Rightarrow> string \<Rightarrow> trie_error + bool" where
  "searchTrie (Node e cs) [] = Inr e"
| "searchTrie (Node e cs) (c # str) =
     (let p = letter_pos c in
      if \<not> in_slots p then Inl (Out_of_bounds p)
      else case cs ! nat p of None \<Rightarrow> Inr False | Some t \<Rightarrow> searchTrie t str)"

definition str_concat_char :: "string \<Rightarrow> char \<Rightarrow> string" where
  "str_concat_char s1 s2 = s1 @ [s2]"

section \<open>Completion\<close>

record completions =
  completion_count :: nat
  completion_arr :: "nat \<Rightarrow> string"
  printed :: "string list"

abbreviation MAX_WORDS :: nat where "MAX_WORDS \<equiv> 10000"

definition add_completion :: "string \<Rightarrow> completions \<Rightarrow> trie_error + completions" where
  "add_completion op st =
     (if completion_count st < MAX_WORDS
      then Inr (st\<lparr>completion_arr := (completion_arr st)(completion_count st := op),
                   completion_count := completion_count st + 1,
                   printed := printed st @ [op @ [NL]]\<rparr>)
      else Inl Too_many_words)"

text \<open>
  The loop over \<open>j\<close> is entered when some child exists, and then visits all 27 slots from 0;
  an empty slot returns at once.
\<close>

fun recursiveInsert :: "Node \<Rightarrow> string \<Rightarrow> completions \<Rightarrow> trie_error + completions"
  and insert_children :: "Node option list \<Rightarrow> nat \<Rightarrow> string \<Rightarrow> completions \<Rightarrow> trie_error + completions"
where
  "recursiveInsert (Node e cs) op st =
     rbind (if e then add_completion op st else Inr st)
       (\<lambda>st. if \<exists>t \<in> set cs. t \<noteq> None then insert_children cs 0 op st else Inr st)"
| "insert_children [] j op st = Inr st"
| "insert_children (None # cs) j op st = insert_children cs (Suc j) op st"
| "insert_children (Some t # cs) j op st =
     rbind (recursiveInsert t (str_concat_char op (alphabets ! j)) st)
       (\<lambda>st. insert_children cs (Suc j) op st)"

fun descend :: "Node \<Rightarrow> string \<Rightarrow> trie_error + Node option" where
  "descend t [] = Inr (Some t)"
| "descend (Node e cs) (c # str) =
     (let p = letter_pos c in
      if \<not> in_slots p then Inl (Out_of_bounds p)
      else case cs ! nat p of None \<Rightarrow> Inr None | Some t \<Rightarrow> descend t str)"

definition completeWord :: "Node \<Rightarrow> string \<Rightarrow> string \<Rightarrow> completions \<Rightarrow> trie_error + bool \<times> completions" where
  "completeWord head str op st =
     rbind (descend head str) (\<lambda>r. case r of
         None \<Rightarrow> Inr (False, st)
       | Some t \<Rightarrow> rbind (recursiveInsert t op (st\<lparr>printed := printed st @ [[NL]]\<rparr>))
                    (\<lambda>st. Inr (True, st)))"

section \<open>Release\<close>

text \<open>
  \<open>freeNode\<close> returns the addresses it frees, an address being the path of child slots from the root.
\<close>

fun freeNode :: "Node \<Rightarrow> nat list \<Rightarrow> nat list list"
  and free_children :: "Node option list \<Rightarrow> nat \<Rightarrow> nat list \<Rightarrow> nat list list"
where
  "freeNode (Node e cs) path = free_children cs 0 path"
| "free_children [] i path = []"
| "free_children (None # cs) i path = [path]"
| "free_children (Some t # cs) i path = freeNode t (path @ [i]) @ free_children cs (Suc i) path"

fun addresses :: "Node \<Rightarrow> nat list \<Rightarrow> nat list list"
  and child_addresses :: "Node option list \<Rightarrow> nat \<Rightarrow> nat list \<Rightarrow> nat list list"
where
  "addresses (Node e cs) path = path # child_addresses cs 0 path"
| "child_addresses [] i path = []"
| "child_addresses (None # cs) i path = child_addresses cs (Suc i) path"
| "child_addresses (Some t # cs) i path = addresses t (path @ [i]) @ child_addresses cs (Suc i) path"

section \<open>The words of a trie\<close>

text \<open>A node is well formed when every node of its tree has 27 slots.\<close>

fun wf_node :: "Node \<Rightarrow> bool"
  and wf_children :: "Node option list \<Rightarrow> bool"
where
  "wf_node (Node e cs) \<longleftrightarrow> length cs = 27 \<and> wf_children cs"
| "wf_children [] \<longleftrightarrow> True"
| "wf_children (None # cs) \<longleftrightarrow> wf_children cs"
| "wf_children (Some t # cs) \<longleftrightarrow> wf_node t \<and> wf_children cs"

fun words :: "Node \<Rightarrow> string list"
  and child_words :: "Node option list \<Rightarrow> nat \<Rightarrow> string list"
where
  "words (Node e cs) = (if e then [[]] else []) @ child_words cs 0"
| "child_words [] j = []"
| "child_words (None # cs) j = child_words cs (Suc j)"
| "child_words (Some t # cs) j = map ((#) (alphabets ! j)) (words t) @ child_words cs (Suc j)"

definition letters :: "string \<Rightarrow> bool" where
  "letters w \<longleftrightarrow> set w \<subseteq> set (take 26 alphabets)"

definition letters_or_space :: "string \<Rightarrow> bool" where
  "letters_or_space w \<longleftrightarrow> set w \<subseteq> set alphabets"

text \<open>Dictionary order, the space after the letters.\<close>

definition alpha_less :: "string \<Rightarrow> string \<Rightarrow> bool" where
  "alpha_less a b \<longleftrightarrow> ord_class.lexordp (map insert_pos a) (map insert_pos b)"

definition completed :: "completions \<Rightarrow> string list" where
  "completed st = map (completion_arr st) [0..<completion_count st]"

section \<open>Slots and characters\<close>

lemma length_alphabets [simp]: "length alphabets = 27"
  by (simp add: alphabets_def)

lemma insert_pos_alphabets:
  assumes "i < 27" shows "insert_pos (alphabets ! i) = int i"
proof -
  have "map insert_pos alphabets = map int [0..<27]"
    by (simp add: alphabets_def insert_pos_def letter_pos_def schar_def upt_conv_Cons)
  then have "map insert_pos alphabets ! i = map int [0..<27] ! i" by simp
  with assms show ?thesis by simp
qed

lemma alphabets_inj: "i < 27 \<Longrightarrow> j < 27 \<Longrightarrow> alphabets ! i = alphabets ! j \<longleftrightarrow> i = j"
  by (metis insert_pos_alphabets of_nat_eq_iff)

lemma alphabet_slot:
  assumes "c \<in> set alphabets"
  shows "in_slots (insert_pos c)" "alphabets ! nat (insert_pos c) = c"
proof -
  obtain i where "i < 27" "c = alphabets ! i"
    using assms by (metis in_set_conv_nth length_alphabets)
  then show "in_slots (insert_pos c)" "alphabets ! nat (insert_pos c) = c"
    by (simp_all add: insert_pos_alphabets in_slots_def)
qed

lemma letter_pos_letters: "c \<in> set (take 26 alphabets) \<Longrightarrow> letter_pos c = insert_pos c"
  by (auto simp: alphabets_def insert_pos_def)

lemma letters_letters_or_space: "letters w \<Longrightarrow> letters_or_space w"
  by (auto simp: letters_def letters_or_space_def dest: in_set_takeD)

section \<open>Well-formedness and membership\<close>

lemma wf_children_iff: "wf_children cs \<longleftrightarrow> (\<forall>t. Some t \<in> set cs \<longrightarrow> wf_node t)"
proof (induction cs)
  case (Cons x cs)
  then show ?case by (cases x) auto
qed simp

lemma wf_newNode [simp]: "wf_node newNode"
  by (simp add: newNode_def wf_children_iff)

lemma Cons_in_child_words:
  "c # w \<in> set (child_words cs j) \<longleftrightarrow>
     (\<exists>i<length cs. alphabets ! (i + j) = c \<and> (\<exists>t. cs ! i = Some t \<and> w \<in> set (words t)))"
proof (induction cs arbitrary: j)
  case (Cons x cs)
  have "(\<exists>i<length (x # cs). P i) \<longleftrightarrow> P 0 \<or> (\<exists>i<length cs. P (Suc i))" for P
    by (auto simp: less_Suc_eq_0_disj)
  with Cons show ?case by (cases x) (auto simp: image_iff)
qed simp

lemma Nil_notin_child_words [simp]: "[] \<notin> set (child_words cs j)"
proof (induction cs arbitrary: j)
  case (Cons x cs)
  then show ?case by (cases x) auto
qed simp

lemma Nil_in_words [simp]: "[] \<in> set (words (Node e cs)) \<longleftrightarrow> e"
  by simp

lemma Cons_in_words:
  assumes "wf_node (Node e cs)" and "c \<in> set alphabets"
  shows "c # w \<in> set (words (Node e cs)) \<longleftrightarrow>
    (\<exists>t. cs ! nat (insert_pos c) = Some t \<and> w \<in> set (words t))"
proof -
  obtain k where k: "k < 27" "c = alphabets ! k"
    using assms(2) by (metis in_set_conv_nth length_alphabets)
  have "c # w \<in> set (words (Node e cs)) \<longleftrightarrow>
      (\<exists>i<27. alphabets ! i = c \<and> (\<exists>t. cs ! i = Some t \<and> w \<in> set (words t)))"
    using assms(1) by (simp add: Cons_in_child_words)
  then show ?thesis using k by (auto simp: alphabets_inj insert_pos_alphabets)
qed

lemma words_letters_or_space:
  "wf_node t \<Longrightarrow> w \<in> set (words t) \<Longrightarrow> letters_or_space w"
proof (induction w arbitrary: t)
  case (Cons c w)
  obtain e cs where t: "t = Node e cs" by (cases t)
  obtain i u where "i < 27" "alphabets ! i = c" "cs ! i = Some u" "w \<in> set (words u)"
    using Cons.prems by (auto simp: t Cons_in_child_words)
  moreover have "wf_node u"
    using calculation Cons.prems(1) by (auto simp: t wf_children_iff) (metis nth_mem)
  ultimately show ?case
    using Cons.IH by (force simp: letters_or_space_def)
qed (simp add: letters_or_space_def)

lemma words_newNode [simp]: "words newNode = []"
proof -
  have "child_words (replicate n None) j = []" for n j
    by (induction n arbitrary: j) simp_all
  then show ?thesis by (simp add: newNode_def)
qed

lemma insertTrie_words:
  "wf_node t \<Longrightarrow> letters_or_space w \<Longrightarrow>
     \<exists>t'. insertTrie t w = Inr t' \<and> wf_node t' \<and> set (words t') = insert w (set (words t))"
proof (induction w arbitrary: t)
  case Nil
  then show ?case by (cases t) auto
next
  case (Cons c w)
  obtain e cs where t: "t = Node e cs" by (cases t)
  let ?p = "nat (insert_pos c)"
  let ?u = "case cs ! ?p of None \<Rightarrow> newNode | Some t \<Rightarrow> t"
  have c: "c \<in> set alphabets" and w: "letters_or_space w"
    using Cons.prems(2) by (auto simp: letters_or_space_def)
  have p: "?p < length cs" "in_slots (insert_pos c)"
    using alphabet_slot [OF c] Cons.prems(1) by (auto simp: t in_slots_def)
  have "wf_node ?u"
    using Cons.prems(1) p(1) by (auto simp: t wf_children_iff split: option.split) (metis nth_mem)
  with Cons.IH [OF _ w] obtain u where u: "insertTrie ?u w = Inr u" "wf_node u"
      "set (words u) = insert w (set (words ?u))" by blast
  let ?t' = "Node e (cs[?p := Some u])"
  have wf: "wf_node ?t'"
    using Cons.prems(1) u(2) set_update_subset_insert [of cs ?p "Some u"]
    by (auto simp: t wf_children_iff)
  have "v \<in> set (words ?t') \<longleftrightarrow> v \<in> insert (c # w) (set (words t))" for v
  proof (cases v)
    case Nil
    then show ?thesis by (simp add: t)
  next
    case v: (Cons d v')
    show ?thesis
    proof (cases "d \<in> set alphabets")
      case True
      have "nat (insert_pos d) = ?p \<longleftrightarrow> d = c"
        using alphabet_slot(2) [OF c] alphabet_slot(2) [OF True] by metis
      moreover have "d # v' \<in> set (words ?t') \<longleftrightarrow>
          (\<exists>s. cs[?p := Some u] ! nat (insert_pos d) = Some s \<and> v' \<in> set (words s))"
        by (rule Cons_in_words [OF wf True])
      moreover have "d # v' \<in> set (words t) \<longleftrightarrow>
          (\<exists>s. cs ! nat (insert_pos d) = Some s \<and> v' \<in> set (words s))"
        using Cons_in_words [OF Cons.prems(1) [unfolded t] True] by (simp only: t)
      moreover have "v' \<in> set (words ?u) \<longleftrightarrow> (\<exists>s. cs ! ?p = Some s \<and> v' \<in> set (words s))"
        by (simp split: option.split)
      ultimately show ?thesis
        using p(1) u(3) by (cases "d = c") (simp_all add: v del: words.simps)
    next
      case False
      then show ?thesis
        using words_letters_or_space [OF wf, of v] words_letters_or_space [OF Cons.prems(1), of v] c
        by (auto simp: v letters_or_space_def)
    qed
  qed
  then have "set (words ?t') = insert (c # w) (set (words t))" by blast
  with wf u(1) p(2) show ?case by (simp add: t Let_def)
qed

lemma searchTrie_words:
  "wf_node t \<Longrightarrow> letters w \<Longrightarrow> searchTrie t w = Inr (w \<in> set (words t))"
proof (induction w arbitrary: t)
  case Nil
  then show ?case by (cases t) auto
next
  case (Cons c w)
  obtain e cs where t: "t = Node e cs" by (cases t)
  have c: "c \<in> set alphabets" and w: "letters w" and lp: "letter_pos c = insert_pos c"
    using Cons.prems(2) by (auto simp: letters_def letter_pos_letters dest: in_set_takeD)
  have p: "nat (insert_pos c) < length cs" "in_slots (insert_pos c)"
    using alphabet_slot [OF c] Cons.prems(1) by (auto simp: t in_slots_def)
  have "wf_node u" if "cs ! nat (insert_pos c) = Some u" for u
    using Cons.prems(1) p(1) that by (auto simp: t wf_children_iff) (metis nth_mem)
  then show ?case
    using p Cons.IH [OF _ w] Cons_in_words [OF Cons.prems(1) [unfolded t] c, of w]
    by (auto simp: t Let_def lp split: option.split)
qed

lemma descend_words:
  "wf_node t \<Longrightarrow> letters w \<Longrightarrow>
     (\<exists>u. descend t w = Inr (Some u) \<and> wf_node u \<and> (\<forall>v. v \<in> set (words u) \<longleftrightarrow> w @ v \<in> set (words t)))
     \<or> (descend t w = Inr None \<and> (\<forall>v. w @ v \<notin> set (words t)))"
proof (induction w arbitrary: t)
  case (Cons c w)
  obtain e cs where t: "t = Node e cs" by (cases t)
  have c: "c \<in> set alphabets" and w: "letters w" and lp: "letter_pos c = insert_pos c"
    using Cons.prems(2) by (auto simp: letters_def letter_pos_letters dest: in_set_takeD)
  have p: "nat (insert_pos c) < length cs" "in_slots (insert_pos c)"
    using alphabet_slot [OF c] Cons.prems(1) by (auto simp: t in_slots_def)
  note mem = Cons_in_words [OF Cons.prems(1) [unfolded t] c]
  show ?case
  proof (cases "cs ! nat (insert_pos c)")
    case None
    then show ?thesis using p mem by (simp add: t Let_def lp del: words.simps)
  next
    case (Some u)
    then have "wf_node u"
      using Cons.prems(1) p(1) by (auto simp: t wf_children_iff) (metis nth_mem)
    from Cons.IH [OF this w] show ?thesis
      using p mem Some by (auto simp: t Let_def lp simp del: words.simps)
  qed
qed simp

section \<open>Enumeration\<close>

lemma completed_add:
  "completion_count st < MAX_WORDS \<Longrightarrow>
     \<exists>st'. add_completion op st = Inr st' \<and> completed st' = completed st @ [op]
       \<and> completion_count st' = Suc (completion_count st)"
  by (auto simp: add_completion_def completed_def)

lemma no_child_words:
  "\<not> (\<exists>t \<in> set cs. t \<noteq> None) \<Longrightarrow> child_words cs j = []"
  by (induction cs arbitrary: j) auto

lemma recursiveInsert_words:
  "completion_count st + length (words t) \<le> MAX_WORDS \<Longrightarrow>
     \<exists>st'. recursiveInsert t op st = Inr st' \<and> completed st' = completed st @ map ((@) op) (words t)
       \<and> completion_count st' = completion_count st + length (words t)"
  "completion_count st + length (child_words cs j) \<le> MAX_WORDS \<Longrightarrow>
     \<exists>st'. insert_children cs j op st = Inr st'
       \<and> completed st' = completed st @ map ((@) op) (child_words cs j)
       \<and> completion_count st' = completion_count st + length (child_words cs j)"
proof (induction t op st and cs j op st rule: recursiveInsert_insert_children.induct)
  case (1 e cs op st)
  obtain st1 where st1: "(if e then add_completion op st else Inr st) = Inr st1"
      "completed st1 = completed st @ map ((@) op) (if e then [[]] else [])"
      "completion_count st1 = completion_count st + length (if e then [[] :: string] else [])"
  proof (cases e)
    case True
    with 1 have "completion_count st < MAX_WORDS" by simp
    from completed_add [OF this, of op] show thesis using True that by auto
  qed (use that in simp)
  show ?case
  proof (cases "\<exists>t \<in> set cs. t \<noteq> None")
    case True
    have "completion_count st1 + length (child_words cs 0) \<le> MAX_WORDS"
      using "1.prems" st1(3) by simp
    from "1.IH" [OF True this] obtain st2 where "insert_children cs 0 op st1 = Inr st2"
        "completed st2 = completed st1 @ map ((@) op) (child_words cs 0)"
        "completion_count st2 = completion_count st1 + length (child_words cs 0)" by blast
    then show ?thesis using st1 True by (simp del: split_paired_Ex)
  next
    case False
    then show ?thesis using st1 no_child_words [OF False, of 0] by simp
  qed
next
  case (4 t cs j op st)
  let ?op = "str_concat_char op (alphabets ! j)"
  obtain st1 where "recursiveInsert t ?op st = Inr st1"
      "completed st1 = completed st @ map ((@) ?op) (words t)"
      "completion_count st1 = completion_count st + length (words t)"
    using "4.IH"(1) "4.prems" by auto
  moreover from this obtain st2 where "insert_children cs (Suc j) op st1 = Inr st2"
      "completed st2 = completed st1 @ map ((@) op) (child_words cs (Suc j))"
      "completion_count st2 = completion_count st1 + length (child_words cs (Suc j))"
    using "4.IH"(2) [of st1] "4.prems" by auto
  ultimately show ?case by (simp add: str_concat_char_def)
qed auto

text \<open>The words come in dictionary order, each once.\<close>

lemma alpha_less_simps [simp]:
  "alpha_less [] (c # w)" "\<not> alpha_less w []"
  "alpha_less (c # v) (d # w) \<longleftrightarrow> insert_pos c < insert_pos d \<or> (insert_pos c = insert_pos d \<and> alpha_less v w)"
  by (auto simp: alpha_less_def)

lemma alpha_less_append [simp]: "alpha_less (p @ v) (p @ w) \<longleftrightarrow> alpha_less v w"
  by (induction p) auto

lemma child_words_head:
  assumes "w \<in> set (child_words cs j)" and "j + length cs \<le> 27"
  shows "\<exists>i v. w = alphabets ! i # v \<and> j \<le> i \<and> i < 27"
proof (cases w)
  case (Cons c v)
  then show ?thesis using assms by (auto simp: Cons_in_child_words)
qed (use assms in simp)

lemma words_sorted:
  "wf_node t \<Longrightarrow> sorted_wrt alpha_less (words t)"
  "wf_children cs \<Longrightarrow> j + length cs \<le> 27 \<Longrightarrow> sorted_wrt alpha_less (child_words cs j)"
proof (induction t and cs j rule: words_child_words.induct)
  case (1 e cs)
  moreover have "alpha_less [] w" if "w \<in> set (child_words cs 0)" for w
    by (cases w) (use that Nil_notin_child_words [of cs 0] in auto)
  ultimately show ?case by auto
next
  case (4 t cs j)
  have "alpha_less (alphabets ! j # v) w" if "w \<in> set (child_words cs (Suc j))" for v w
    using child_words_head [OF that] "4.prems" by (auto simp: insert_pos_alphabets)
  then show ?case using 4 by (auto simp: sorted_wrt_append sorted_wrt_map)
qed simp_all

lemma alpha_less_irrefl [simp]: "\<not> alpha_less w w"
  by (induction w) auto

lemma sorted_alpha_distinct: "sorted_wrt alpha_less ws \<Longrightarrow> distinct ws"
  by (induction ws) auto

section \<open>A store of words\<close>

locale word_store =
  fixes start :: 't
    and add :: "'t \<Rightarrow> string \<Rightarrow> 'e + 't"
    and has :: "'t \<Rightarrow> string \<Rightarrow> 'e + bool"
    and contents :: "'t \<Rightarrow> string set"
    and inv :: "'t \<Rightarrow> bool"
    and addable :: "string \<Rightarrow> bool"
    and searchable :: "string \<Rightarrow> bool"
  assumes inv_start: "inv start"
    and contents_start: "contents start = {}"
    and add_ok: "inv t \<Longrightarrow> addable w \<Longrightarrow>
        \<exists>t'. add t w = Inr t' \<and> inv t' \<and> contents t' = insert w (contents t)"
    and has_ok: "inv t \<Longrightarrow> searchable w \<Longrightarrow> has t w = Inr (w \<in> contents t)"
begin

lemma add_all_from:
  "inv t \<Longrightarrow> (\<And>w. w \<in> set ws \<Longrightarrow> addable w) \<Longrightarrow>
     \<exists>t'. rfold add t ws = Inr t' \<and> inv t' \<and> contents t' = contents t \<union> set ws"
proof (induction ws arbitrary: t)
  case (Cons w ws)
  obtain t1 where t1: "add t w = Inr t1" "inv t1" "contents t1 = insert w (contents t)"
    using add_ok [OF Cons.prems(1), of w] Cons.prems(2) by auto
  obtain t2 where "rfold add t1 ws = Inr t2" "inv t2" "contents t2 = contents t1 \<union> set ws"
    using Cons.IH [OF t1(2)] Cons.prems(2) by auto
  then show ?case using t1 by (intro exI [of _ t2]) auto
qed simp

lemma add_all:
  assumes "\<And>w. w \<in> set ws \<Longrightarrow> addable w"
  obtains t where "rfold add start ws = Inr t" "inv t" "contents t = set ws"
  using add_all_from [OF inv_start, of ws] assms contents_start by auto

lemma has_after_add_all:
  assumes "\<And>w. w \<in> set ws \<Longrightarrow> addable w" and "searchable w"
  shows "rbind (rfold add start ws) (\<lambda>t. has t w) = Inr (w \<in> set ws)"
proof -
  obtain t where "rfold add start ws = Inr t" "inv t" "contents t = set ws"
    using add_all assms(1) by blast
  then show ?thesis using has_ok [OF _ assms(2)] by simp
qed

end

interpretation trie: word_store newNode insertTrie searchTrie "\<lambda>t. set (words t)" wf_node
    letters_or_space letters
  by unfold_locales (simp_all add: insertTrie_words searchTrie_words)

text \<open>
  After inserting any list of words over the letters and the space into an empty trie,
  searching for a word of letters succeeds without leaving the child slots and answers
  exactly whether the word was inserted.
\<close>

theorem searchTrie_after_insertTrie:
  assumes "\<forall>w \<in> set ws. letters_or_space w" and "letters w"
  shows "rbind (rfold insertTrie newNode ws) (\<lambda>t. searchTrie t w) = Inr (w \<in> set ws)"
  using trie.has_after_add_all [of ws w] assms by simp

theorem searchTrie_after_insertTrie_witness:
  "rbind (rfold insertTrie newNode [''thesis'', ''omg'', ''thames river'']) (\<lambda>t. searchTrie t ''omg'')
     = Inr True"
  using searchTrie_after_insertTrie [of "[''thesis'', ''omg'', ''thames river'']" "''omg''"]
  by (simp add: letters_def letters_or_space_def alphabets_def)

lemma length_words: "wf_node t \<Longrightarrow> length (words t) = card (set (words t))"
  using sorted_alpha_distinct [OF words_sorted(1)] by (simp add: distinct_card)

lemma length_extensions:
  assumes "wf_node t" and "wf_node u" and "\<And>v. v \<in> set (words u) \<longleftrightarrow> pre @ v \<in> set (words t)"
  shows "length (words u) \<le> length (words t)"
proof -
  have "distinct (map ((@) pre) (words u))"
    using sorted_alpha_distinct [OF words_sorted(1) [OF assms(2)]] by (simp add: distinct_map inj_on_def)
  then have "length (words u) = card (set (map ((@) pre) (words u)))"
    by (simp only: distinct_card length_map)
  also have "\<dots> \<le> card (set (words t))"
    using assms(3) by (intro card_mono) auto
  finally show ?thesis using length_words [OF assms(1)] by simp
qed

lemma completeWord_words:
  assumes wf: "wf_node t" and len: "length (words t) \<le> MAX_WORDS"
    and pre: "letters pre" and count: "completion_count st = 0"
  obtains r st' where "completeWord t pre pre st = Inr (r, st')"
    "set (completed st') = {w \<in> set (words t). prefix pre w}" "sorted_wrt alpha_less (completed st')"
proof -
  let ?st = "st\<lparr>printed := printed st @ [[NL]]\<rparr>"
  have empty: "completed st = []" "completed ?st = []"
    using count by (simp_all add: completed_def)
  from descend_words [OF wf pre] show thesis
  proof (elim disjE exE conjE)
    fix u assume u: "descend t pre = Inr (Some u)" "wf_node u"
      "\<forall>v. v \<in> set (words u) \<longleftrightarrow> pre @ v \<in> set (words t)"
    have "completion_count ?st + length (words u) \<le> MAX_WORDS"
      using length_extensions [OF wf u(2)] u(3) len count by fastforce
    from recursiveInsert_words(1) [OF this, of pre] obtain st' where st':
        "recursiveInsert u pre ?st = Inr st'" "completed st' = map ((@) pre) (words u)"
      using empty by auto
    show thesis
    proof (rule that [of True st'])
      show "set (completed st') = {w \<in> set (words t). prefix pre w}"
        using u(3) st'(2) by (auto simp: prefix_def)
      show "sorted_wrt alpha_less (completed st')"
        using words_sorted(1) [OF u(2)] by (simp add: st'(2) sorted_wrt_map)
    qed (use u(1) st'(1) in \<open>simp add: completeWord_def\<close>)
  next
    assume "descend t pre = Inr None" "\<forall>v. pre @ v \<notin> set (words t)"
    then show thesis
      using empty by (intro that [of False st]) (auto simp: completeWord_def prefix_def)
  qed
qed

text \<open>
  C35. Completing a prefix of letters in a trie built from any list of at most \<open>MAX_WORDS\<close>
  words yields exactly the inserted words that extend the prefix, in dictionary order and
  each once.
\<close>

theorem completeWord_lists_extensions:
  assumes "\<forall>w \<in> set ws. letters_or_space w" and "length ws \<le> MAX_WORDS"
    and "letters pre" and "completion_count st = 0"
  shows "\<exists>t r st'. rfold insertTrie newNode ws = Inr t \<and> completeWord t pre pre st = Inr (r, st')
    \<and> set (completed st') = {w \<in> set ws. prefix pre w} \<and> sorted_wrt alpha_less (completed st')"
proof -
  obtain t where t: "rfold insertTrie newNode ws = Inr t" "wf_node t" "set (words t) = set ws"
    using trie.add_all [of ws] assms(1) by blast
  have "length (words t) \<le> MAX_WORDS"
    using length_words [OF t(2)] t(3) card_length [of ws] assms(2) by simp
  from completeWord_words [OF t(2) this assms(3,4)] t(1,3) show ?thesis by metis
qed

theorem completeWord_lists_extensions_witness:
  "\<exists>t r st'. rfold insertTrie newNode [''thesis'', ''omg'', ''theresa''] = Inr t
    \<and> completeWord t ''th'' ''th'' \<lparr>completion_count = 0, completion_arr = (\<lambda>_. []), printed = []\<rparr> = Inr (r, st')
    \<and> set (completed st') = {w \<in> set [''thesis'', ''omg'', ''theresa'']. prefix ''th'' w}
    \<and> sorted_wrt alpha_less (completed st')"
  by (rule completeWord_lists_extensions)
     (simp_all add: letters_def letters_or_space_def alphabets_def)

lemma searchTrie_space:
  "letters pre \<Longrightarrow> wf_node t \<Longrightarrow> pre @ CHR '' '' # post \<in> set (words t) \<Longrightarrow>
     searchTrie t (pre @ CHR '' '' # post) = Inl (Out_of_bounds (-65))"
proof (induction pre arbitrary: t)
  case Nil
  then show ?case by (cases t) (simp add: letter_pos_def schar_def in_slots_def)
next
  case (Cons c pre)
  obtain e cs where t: "t = Node e cs" by (cases t)
  have c: "c \<in> set alphabets" and w: "letters pre" and lp: "letter_pos c = insert_pos c"
    using Cons.prems(1) by (auto simp: letters_def letter_pos_letters dest: in_set_takeD)
  have p: "nat (insert_pos c) < length cs" "in_slots (insert_pos c)"
    using alphabet_slot [OF c] Cons.prems(2) by (auto simp: t in_slots_def)
  obtain u where u: "cs ! nat (insert_pos c) = Some u" "pre @ CHR '' '' # post \<in> set (words u)"
    using Cons_in_words [OF Cons.prems(2) [unfolded t] c] Cons.prems(3) by (auto simp: t simp del: words.simps)
  then have "wf_node u"
    using Cons.prems(2) p(1) by (auto simp: t wf_children_iff) (metis nth_mem)
  with Cons.IH [OF w this u(2)] show ?case using p u by (simp add: t Let_def lp)
qed

text \<open>
  A word with a space can be inserted but not looked up: insertion maps the space to
  slot 26, search does not, and reads slot \<open>-65\<close> of the child array instead.
\<close>

theorem searchTrie_space_out_of_bounds:
  assumes "\<forall>w \<in> set ws. letters_or_space w" and "letters pre" and "pre @ CHR '' '' # post \<in> set ws"
  shows "rbind (rfold insertTrie newNode ws) (\<lambda>t. searchTrie t (pre @ CHR '' '' # post))
    = Inl (Out_of_bounds (-65))"
proof -
  obtain t where "rfold insertTrie newNode ws = Inr t" "wf_node t" "set (words t) = set ws"
    using trie.add_all [of ws] assms(1) by blast
  then show ?thesis using searchTrie_space [OF assms(2), of t post] assms(3) by simp
qed

theorem searchTrie_space_out_of_bounds_witness:
  "rbind (rfold insertTrie newNode [''omg'', ''thames river'']) (\<lambda>t. searchTrie t ''thames river'')
     = Inl (Out_of_bounds (-65))"
  using searchTrie_space_out_of_bounds [of "[''omg'', ''thames river'']" "''thames''" "''river''"]
  by (simp add: letters_def letters_or_space_def alphabets_def)

section \<open>What the release leaves behind\<close>

lemma freeNode_addresses:
  "set (freeNode t path) \<subseteq> set (addresses t path)"
  "set (free_children cs i path) \<subseteq> insert path (set (child_addresses cs i path))"
  by (induction t path and cs i path rule: freeNode_free_children.induct) auto

text \<open>
  Releasing a trie frees only nodes of it, and when no word starts with the letter a
  the release frees the root alone: every other node leaks.
\<close>

theorem freeNode_leaks:
  "set (freeNode t path) \<subseteq> set (addresses t path)
   \<and> (child t \<noteq> [] \<and> hd (child t) = None \<longrightarrow> freeNode t path = [path])"
proof -
  obtain e cs where "t = Node e cs" by (cases t)
  then have "child t \<noteq> [] \<and> hd (child t) = None \<longrightarrow> freeNode t path = [path]"
    by (cases cs) auto
  then show ?thesis using freeNode_addresses(1) by blast
qed

theorem freeNode_leaks_witness:
  "rbind (insertTrie newNode ''b'') (\<lambda>t. Inr (freeNode t [], addresses t []))
     = (Inr ([[]], [[], [1]]) :: trie_error + nat list list \<times> nat list list)"
proof -
  have t: "insertTrie newNode ''b''
      = Inr (Node False ((replicate 27 None)[1 := Some (Node True (replicate 27 None))]))"
    by (simp add: newNode_def insert_pos_def letter_pos_def schar_def in_slots_def)
  show ?thesis
    using freeNode_leaks [of "Node False ((replicate 27 None)[1 := Some (Node True (replicate 27 None))])" "[]"]
    by (simp add: t numeral_eq_Suc)
qed

end
