(* ===== verification/Line_Editor.thy ===== *)
theory Line_Editor
  imports Trie
begin

text \<open>
  The main loop of \<open>MyShell/engine.c\<close>: reading keys, typing, backspace and completion by
  Tab. The terminal library is not part of the program: every key comes with the cursor
  position and the screen contents the library reports at that moment, and the screen
  operations the program issues are collected in a list. The typed word \<open>op\<close> is a buffer
  indexed by position.
\<close>

section \<open>State\<close>

datatype screen_op = Move int int | Clrtoeol | Printw string | Delch | Refresh

record key =
  key_ch :: char
  cursor :: "int \<times> int"
  mvinch :: "int \<Rightarrow> int \<Rightarrow> char"

record engine = completions +
  tab_count :: nat
  win_y :: int
  win_x :: int
  op :: "nat \<Rightarrow> char"
  op_k :: nat
  tab_check :: bool
  xpos :: int
  ypos :: int
  tabbed_op :: string
  screen :: "screen_op list"

abbreviation emit :: "screen_op list \<Rightarrow> engine \<Rightarrow> engine" where
  "emit ops st \<equiv> st\<lparr>screen := screen st @ ops\<rparr>"

abbreviation TAB :: char where "TAB \<equiv> CHR 0x09"
abbreviation ALT_BACKSPACE :: char where "ALT_BACKSPACE \<equiv> CHR 0x7F"
abbreviation SPACE :: char where "SPACE \<equiv> CHR '' ''"

section \<open>Operations\<close>

definition getyx :: "key \<Rightarrow> engine \<Rightarrow> engine" where
  "getyx e st = st\<lparr>win_y := fst (cursor e), win_x := snd (cursor e)\<rparr>"

definition backspace :: "key \<Rightarrow> engine \<Rightarrow> engine" where
  "backspace e st = (let st = getyx e st in emit [Move (win_y st) (win_x st - 1), Delch, Refresh] st)"

definition clear_complete :: "engine \<Rightarrow> engine" where
  "clear_complete st =
     (if completion_count st = 0 then st
      else emit (concat (map (\<lambda>i. [Move (win_y st + 1 + int i) 0, Clrtoeol]) [0..<completion_count st])
                 @ [Move (win_y st) (win_x st)]) (st\<lparr>completion_count := 0\<rparr>))"

definition select_word :: "engine \<Rightarrow> string option" where
  "select_word st =
     (if completion_count st < tab_count st then None else Some (completion_arr st (tab_count st)))"

text \<open>\<open>find_space\<close> scans leftwards from column \<open>x - 1\<close>; \<open>n\<close> is the column plus one.\<close>

fun scan_space :: "(int \<Rightarrow> int \<Rightarrow> char) \<Rightarrow> int \<Rightarrow> nat \<Rightarrow> int" where
  "scan_space inch y 0 = 0"
| "scan_space inch y (Suc n) = (if inch y (int n) = SPACE then int n else scan_space inch y n)"

definition find_space :: "key \<Rightarrow> engine \<Rightarrow> int" where
  "find_space e st = scan_space (mvinch e) (win_y st) (nat (win_x st))"

definition replace_word :: "int \<Rightarrow> string \<Rightarrow> engine \<Rightarrow> engine" where
  "replace_word pos w st =
     (let x0 = (if pos \<noteq> 0 then pos + 1 else pos) in
      emit ([Move (win_y st) x0, Clrtoeol] @ map (\<lambda>c. Printw [c]) w) (st\<lparr>win_x := x0\<rparr>))"

section \<open>One key\<close>

datatype control = Continue | Break

text \<open>A space typed after a completion list clears the list first.\<close>

definition leave_completion :: "key \<Rightarrow> engine \<Rightarrow> engine" where
  "leave_completion e st =
     (if key_ch e = SPACE \<and> tab_check st
      then (let st = (clear_complete (getyx e st))\<lparr>tab_count := 0\<rparr>
            in st\<lparr>ypos := win_y st, xpos := win_x st\<rparr>)
      else st)"

definition tab_select :: "key \<Rightarrow> engine \<Rightarrow> engine \<times> control" where
  "tab_select e st = (case select_word st of
       None \<Rightarrow> (st, Break)
     | Some w \<Rightarrow>
         (let st = st\<lparr>tabbed_op := w\<rparr>;
              st = (replace_word (find_space e st) w st)\<lparr>op_k := length w\<rparr>
          in if completion_count st = 0 then (st, Continue)
             else (st\<lparr>tab_count := (tab_count st + 1) mod completion_count st\<rparr>, Continue)))"

definition op_string :: "engine \<Rightarrow> string" where
  "op_string st = cstr (map (op st) [0..<op_k st])"

definition tab_complete :: "Node \<Rightarrow> key \<Rightarrow> engine \<Rightarrow> trie_error + engine \<times> control" where
  "tab_complete root e st =
     (let st = clear_complete (getyx e (st\<lparr>tab_check := True, op := (op st)(op_k st := NUL)\<rparr>));
          w = op_string st
      in rbind (completeWord root w w (completions.truncate st)) (\<lambda>(_, c).
           Inr (emit [Move (win_y st) (win_x st), Clrtoeol]
                 (st\<lparr>completion_count := completion_count c, completion_arr := completion_arr c,
                     printed := printed c\<rparr>), Continue)))"

definition tab_key :: "Node \<Rightarrow> key \<Rightarrow> engine \<Rightarrow> trie_error + engine \<times> control" where
  "tab_key root e st =
     (if xpos st \<noteq> -1 \<and> mvinch e (ypos st) 0 = NL then Inr (st\<lparr>xpos := -1\<rparr>, Continue)
      else let st = (if xpos st \<noteq> -1 then emit [Move (ypos st) 0] (st\<lparr>xpos := -1\<rparr>) else st) in
        if tab_check st then Inr (tab_select e st) else tab_complete root e st)"

definition backspace_key :: "key \<Rightarrow> engine \<Rightarrow> engine" where
  "backspace_key e st =
     (let st = backspace e (st\<lparr>tab_check := False, tab_count := 0\<rparr>)
      in st\<lparr>xpos := -1, op_k := op_k st - 1\<rparr>)"

definition typed_key :: "key \<Rightarrow> engine \<Rightarrow> engine" where
  "typed_key e st =
     (let st = (emit [Printw [key_ch e]] (st\<lparr>tab_check := False, tab_count := 0\<rparr>))\<lparr>xpos := -1\<rparr>
      in if key_ch e \<noteq> SPACE then st\<lparr>op := (op st)(op_k st := key_ch e), op_k := op_k st + 1\<rparr>
         else st\<lparr>op_k := 0\<rparr>)"

definition engine_key :: "Node \<Rightarrow> key \<Rightarrow> engine \<Rightarrow> trie_error + engine \<times> control" where
  "engine_key root e st =
     (let st = leave_completion e st in
      if key_ch e = TAB then tab_key root e st
      else if key_ch e = ALT_BACKSPACE then Inr (backspace_key e st, Continue)
      else Inr (typed_key e st, Continue))"

section \<open>Lines\<close>

definition end_line :: "key \<Rightarrow> engine \<Rightarrow> engine" where
  "end_line e st =
     (let st = clear_complete (getyx e st)
      in emit [Printw [NL]] (st\<lparr>op := (op st)(op_k st := NUL)\<rparr>))"

text \<open>
  The inner loop reads keys up to the end of the line or a break; the result is the state
  after the line and the keys left, or None when the keys run out inside the line.
\<close>

fun read_line :: "Node \<Rightarrow> key list \<Rightarrow> engine \<Rightarrow> trie_error + (engine \<times> key list) option" where
  "read_line root [] st = Inr None"
| "read_line root (e # es) st =
     (if key_ch e = NL then Inr (Some (end_line e st, es))
      else rbind (engine_key root e st) (\<lambda>(st, c). case c of
          Break \<Rightarrow> Inr (Some (end_line e st, es))
        | Continue \<Rightarrow> read_line root es st))"

definition do_line :: "Node \<Rightarrow> key list \<Rightarrow> engine \<Rightarrow> trie_error + (engine \<times> key list) option" where
  "do_line root es st = read_line root es (st\<lparr>op_k := 0\<rparr>)"

text \<open>The words the program starts with.\<close>

definition samples :: "string list" where
  "samples = [''thesis'', ''omg'', ''theresa'', ''thevenin'', ''thames river'', ''lol'']"

text \<open>
  The outer loop, for at most \<open>n\<close> lines: it stops when the word typed is \<open>exit\<close>. The flag
  says whether it did.
\<close>

fun engine_main :: "nat \<Rightarrow> Node \<Rightarrow> key list \<Rightarrow> engine \<Rightarrow> trie_error + engine \<times> bool" where
  "engine_main 0 root es st = Inr (st, False)"
| "engine_main (Suc n) root es st =
     rbind (do_line root es st) (\<lambda>r. case r of
         None \<Rightarrow> Inr (st, False)
       | Some (st, es) \<Rightarrow> if op_string st = ''exit'' then Inr (st, True) else engine_main n root es st)"

section \<open>Plain typing\<close>

text \<open>What a line means without Tab: a space starts a new word, a backspace drops a character.\<close>

fun edit :: "string \<Rightarrow> string \<Rightarrow> string" where
  "edit w [] = w"
| "edit w (c # cs) =
     edit (if c = SPACE then [] else if c = ALT_BACKSPACE then butlast w else w @ [c]) cs"

definition typed :: "engine \<Rightarrow> string" where
  "typed st = map (op st) [0..<op_k st]"

lemmas key_defs = engine_key_def typed_key_def backspace_key_def backspace_def leave_completion_def
  clear_complete_def getyx_def end_line_def

lemma op_clear_complete [simp]:
  "op (clear_complete st) = op st" "op_k (clear_complete st) = op_k st"
  "tab_check (clear_complete st) = tab_check st" "tab_count (clear_complete st) = tab_count st"
  "xpos (clear_complete st) = xpos st" "completion_count (clear_complete st) = 0"
  "completion_arr (clear_complete st) = completion_arr st" "tabbed_op (clear_complete st) = tabbed_op st"
  by (simp_all add: clear_complete_def)

lemma op_getyx [simp]:
  "op (getyx e st) = op st" "op_k (getyx e st) = op_k st" "tab_check (getyx e st) = tab_check st"
  "tab_count (getyx e st) = tab_count st" "xpos (getyx e st) = xpos st"
  "completion_count (getyx e st) = completion_count st"
  "completion_arr (getyx e st) = completion_arr st" "tabbed_op (getyx e st) = tabbed_op st"
  by (simp_all add: getyx_def)

lemma typed_leave_completion [simp]: "typed (leave_completion e st) = typed st"
  by (simp add: leave_completion_def typed_def)

lemma typed_plain_key:
  assumes "key_ch e \<noteq> TAB"
  shows "\<exists>st'. engine_key root e st = Inr (st', Continue) \<and> typed st' = edit (typed st) [key_ch e]"
proof (cases "key_ch e = ALT_BACKSPACE")
  case True
  have "butlast (map f [0..<k]) = map f [0..<k - 1]" for f :: "nat \<Rightarrow> char" and k
    by (cases k) simp_all
  with True show ?thesis
    by (simp add: engine_key_def backspace_key_def backspace_def typed_def leave_completion_def Let_def)
next
  case False
  with assms show ?thesis
    by (auto simp: engine_key_def typed_key_def typed_def leave_completion_def Let_def)
qed

lemma op_string_end_line: "nul_free (typed st) \<Longrightarrow> op_string (end_line e st) = typed st"
  by (simp add: op_string_def end_line_def typed_def Let_def)

lemma nul_free_edit: "nul_free w \<Longrightarrow> NUL \<notin> set cs \<Longrightarrow> nul_free (edit w cs)"
proof (induction cs arbitrary: w)
  case (Cons c cs)
  let ?w = "if c = SPACE then [] else if c = ALT_BACKSPACE then butlast w else w @ [c]"
  have "nul_free ?w" using Cons.prems nul_free_butlast [of w] by auto
  with Cons.IH [of ?w] Cons.prems(2) show ?case by simp
qed simp

lemma read_line_plain:
  assumes "\<forall>e \<in> set es. key_ch e \<notin> {TAB, NL, NUL}" and "key_ch e = NL" and "nul_free (typed st)"
  shows "\<exists>st'. read_line root (es @ e # rest) st = Inr (Some (st', rest))
    \<and> op_string st' = edit (typed st) (map key_ch es)"
  using assms(1,3)
proof (induction es arbitrary: st)
  case Nil
  then show ?case using assms(2) by (simp add: op_string_end_line)
next
  case (Cons k es)
  obtain st1 where st1: "engine_key root k st = Inr (st1, Continue)" "typed st1 = edit (typed st) [key_ch k]"
    using typed_plain_key [of k root st] Cons.prems(1) by auto
  have "nul_free (typed st1)"
    unfolding st1(2) by (rule nul_free_edit) (use Cons.prems in auto)
  with Cons.IH [of st1] Cons.prems(1) show ?case by (auto simp: st1)
qed

text \<open>
  C37. A line typed without Tab or NUL characters submits exactly what its keys edit: the
  characters after the last space with the backspaced ones removed, whatever the state of
  the editor before the line.
\<close>

theorem do_line_submits_edit:
  assumes "\<forall>e \<in> set es. key_ch e \<notin> {TAB, NL, NUL}" and "key_ch e = NL"
  shows "\<exists>st'. do_line root (es @ e # rest) st = Inr (Some (st', rest))
    \<and> op_string st' = edit [] (map key_ch es)"
  using read_line_plain [OF assms, of "st\<lparr>op_k := 0\<rparr>" root rest] by (simp add: do_line_def typed_def)

abbreviation press :: "char \<Rightarrow> key" where
  "press c \<equiv> \<lparr>key_ch = c, cursor = (0, 0), mvinch = (\<lambda>_ _. SPACE)\<rparr>"

theorem do_line_submits_edit_witness:
  "\<forall>st. \<exists>st'. do_line newNode (map press (''ls exo'' @ [ALT_BACKSPACE] @ ''it'') @ press NL # []) st
     = Inr (Some (st', [])) \<and> op_string st' = ''exit''"
  using do_line_submits_edit [of "map press (''ls exo'' @ [ALT_BACKSPACE] @ ''it'')" "press NL" newNode "[]"]
  by simp

section \<open>The invariant of the editor\<close>

definition editor_ok :: "engine \<Rightarrow> bool" where
  "editor_ok st \<longleftrightarrow> xpos st = -1 \<and> (\<not> tab_check st \<longrightarrow> tab_count st = 0)
     \<and> (completion_count st \<noteq> 0 \<longrightarrow> tab_count st < completion_count st)"

lemma editor_ok_end_line: "editor_ok st \<Longrightarrow> editor_ok (end_line e st)"
  by (simp add: editor_ok_def end_line_def Let_def)

lemma editor_ok_tab_select: "editor_ok st \<Longrightarrow> tab_check st \<Longrightarrow> editor_ok (fst (tab_select e st))"
  by (auto simp: editor_ok_def tab_select_def replace_word_def select_word_def Let_def)

lemma editor_ok_key:
  assumes "editor_ok st" and "engine_key root e st = Inr (st', c)"
  shows "editor_ok st'"
proof (cases "key_ch e = TAB")
  case True
  then have "leave_completion e st = st" by (simp add: leave_completion_def)
  with True assms show ?thesis
    using editor_ok_tab_select [OF assms(1), of e]
    by (auto simp: engine_key_def tab_key_def tab_complete_def editor_ok_def Let_def
        split: if_splits)
next
  case False
  with assms show ?thesis
    by (auto simp: engine_key_def typed_key_def backspace_key_def backspace_def leave_completion_def
        editor_ok_def Let_def split: if_splits)
qed

lemma editor_ok_read_line:
  "editor_ok st \<Longrightarrow> read_line root es st = Inr (Some (st', rest)) \<Longrightarrow> editor_ok st'"
proof (induction es arbitrary: st)
  case (Cons e es)
  show ?case
  proof (cases "key_ch e = NL")
    case True
    then show ?thesis using Cons.prems by (auto intro: editor_ok_end_line)
  next
    case False
    then obtain st1 c where st1: "engine_key root e st = Inr (st1, c)"
        "(case c of Break \<Rightarrow> Inr (Some (end_line e st1, es)) | Continue \<Rightarrow> read_line root es st1)
           = Inr (Some (st', rest))"
      using Cons.prems(2) by auto
    have "editor_ok st1" using editor_ok_key [OF Cons.prems(1) st1(1)] .
    then show ?thesis using st1(2) Cons.IH by (cases c) (auto intro: editor_ok_end_line)
  qed
qed simp

text \<open>
  From a state that satisfies it, the whole session keeps the editor's invariant: the
  saved column \<open>xpos\<close> is -1 between keys, so the branch of Tab that restores it is never
  taken, and while completions are listed the index of the selected one is inside the list.
\<close>

theorem engine_main_invariant:
  "editor_ok st \<Longrightarrow> engine_main n root es st = Inr (st', b) \<Longrightarrow> editor_ok st'"
proof (induction n arbitrary: es st)
  case (Suc n)
  have ok: "editor_ok (st\<lparr>op_k := 0\<rparr>)" using Suc.prems(1) by (simp add: editor_ok_def)
  obtain r where r: "do_line root es st = Inr r" using Suc.prems(2) by auto
  show ?case
  proof (cases r)
    case None
    then show ?thesis using Suc.prems r by simp
  next
    case (Some p)
    obtain st1 es1 where p: "p = (st1, es1)" by (cases p)
    have "editor_ok st1"
      using editor_ok_read_line [OF ok, of root es st1 es1] r by (simp add: Some p do_line_def)
    then show ?thesis using Suc.prems(2) Suc.IH [of st1 es1] r by (simp add: Some p split: if_splits)
  qed
qed simp

definition initial_engine :: "(nat \<Rightarrow> char) \<Rightarrow> (nat \<Rightarrow> string) \<Rightarrow> engine" where
  "initial_engine mem arr =
     \<lparr>completion_count = 0, completion_arr = arr, printed = [], tab_count = 0, win_y = 0, win_x = 0,
      op = mem, op_k = 0, tab_check = False, xpos = -1, ypos = -1, tabbed_op = [], screen = []\<rparr>"

theorem engine_main_invariant_witness:
  "editor_ok (fst (projr (engine_main 1 newNode (map press (''exit'' @ [NL])) (initial_engine (\<lambda>_. NUL) (\<lambda>_. [])))))"
proof -
  let ?st = "initial_engine (\<lambda>_. NUL) (\<lambda>_. [])"
  have "editor_ok ?st" by (simp add: editor_ok_def initial_engine_def)
  moreover obtain st' b where "engine_main 1 newNode (map press (''exit'' @ [NL])) ?st = Inr (st', b)"
    using do_line_submits_edit [of "map press ''exit''" "press NL" newNode "[]" ?st] by auto
  ultimately show ?thesis using engine_main_invariant by fastforce
qed

section \<open>Completion by Tab\<close>

lemma nul_free_letters [simp]: "letters w \<Longrightarrow> nul_free w"
  by (auto simp: letters_def alphabets_def nul_free_def)

lemma first_tab:
  assumes root: "wf_node root" "length (words root) \<le> MAX_WORDS"
    and w: "letters (typed st)" "u \<in> set (words root)" "prefix (typed st) u"
    and st: "editor_ok st" "\<not> tab_check st" and e: "key_ch e = TAB"
  obtains st1 where "engine_key root e st = Inr (st1, Continue)" "op st1 = (op st)(op_k st := NUL)"
    "op_k st1 = op_k st" "tab_check st1" "tab_count st1 = 0" "completion_count st1 \<noteq> 0" "xpos st1 = -1"
    "completion_arr st1 0 \<in> set (words root)" "prefix (typed st) (completion_arr st1 0)"
proof -
  let ?s = "clear_complete (getyx e (st\<lparr>tab_check := True, op := (op st)(op_k st := NUL)\<rparr>))"
  have str: "op_string ?s = typed st"
    using w(1) by (simp add: op_string_def typed_def)
  have "completion_count (completions.truncate ?s) = 0" by (simp add: completions.truncate_def)
  from completeWord_words [OF root w(1) this] obtain r c where c:
      "completeWord root (typed st) (typed st) (completions.truncate ?s) = Inr (r, c)"
      "set (completed c) = {w \<in> set (words root). prefix (typed st) w}" .
  have n: "completion_count c \<noteq> 0"
    using c(2) w(2,3) by (auto simp: completed_def)
  then have "completion_arr c 0 \<in> set (completed c)" by (simp add: completed_def)
  then have "completion_arr c 0 \<in> set (words root) \<and> prefix (typed st) (completion_arr c 0)"
    using c(2) by simp
  moreover have "leave_completion e st = st" "tab_count st = 0" "xpos st = -1"
    using e st by (simp_all add: leave_completion_def editor_ok_def)
  ultimately show thesis
    using that e st c(1) n str by (simp add: engine_key_def tab_key_def tab_complete_def Let_def)
qed

lemma cstr_cut:
  assumes "nul_free (map f [0..<n])" and "n \<le> k"
  shows "cstr (map (f(n := NUL, k := NUL)) [0..<k]) = map f [0..<n]"
proof (cases "n = k")
  case True
  then show ?thesis using assms(1) by simp
next
  case False
  with assms(2) have "[0..<k] = [0..<n] @ n # [Suc n..<k]"
    by (metis le_neq_implies_less le_add_diff_inverse upt_add_eq_append upt_conv_Cons zero_le)
  moreover have "map (f(n := NUL, k := NUL)) [0..<n] = map f [0..<n]"
    using assms(2) by auto
  ultimately have "map (f(n := NUL, k := NUL)) [0..<k] = map f [0..<n] @ NUL # map (f(n := NUL, k := NUL)) [Suc n..<k]"
    using False by (simp only: map_append list.map) simp
  then show ?thesis using assms(1) by simp
qed

text \<open>
  Selecting a completion is display only: after a word of letters with an extension in
  the trie is typed, Tab lists the extensions and a second Tab shows one of them and moves
  the length of the word to its length, but Enter then submits the word as it was typed.
\<close>

theorem tab_selection_not_submitted:
  assumes "wf_node root" "length (words root) \<le> MAX_WORDS"
    and "letters (typed st)" "u \<in> set (words root)" "prefix (typed st) u"
    and "editor_ok st" "\<not> tab_check st"
    and "key_ch e1 = TAB" "key_ch e2 = TAB" "key_ch e3 = NL"
  shows "\<exists>st'. read_line root [e1, e2, e3] st = Inr (Some (st', []))
    \<and> tabbed_op st' \<in> set (words root) \<and> prefix (typed st) (tabbed_op st')
    \<and> op_k st' = length (tabbed_op st') \<and> op_string st' = typed st"
proof -
  from first_tab [OF assms(1-8)] obtain st1 where st1:
    "engine_key root e1 st = Inr (st1, Continue)" "op st1 = (op st)(op_k st := NUL)"
    "op_k st1 = op_k st" "tab_check st1" "tab_count st1 = 0" "completion_count st1 \<noteq> 0" "xpos st1 = -1"
    "completion_arr st1 0 \<in> set (words root)" "prefix (typed st) (completion_arr st1 0)" .
  let ?w = "completion_arr st1 0"
  obtain st2 where st2: "engine_key root e2 st1 = Inr (st2, Continue)" "op st2 = op st1"
      "op_k st2 = length ?w" "tabbed_op st2 = ?w"
    using st1 assms(9)
    by (simp add: engine_key_def leave_completion_def tab_key_def tab_select_def select_word_def
        replace_word_def Let_def)
  have "op_k st \<le> length ?w"
    using prefix_length_le [OF st1(9)] by (simp add: typed_def)
  then have "op_string (end_line e3 st2) = typed st"
    using cstr_cut [of "op st" "op_k st" "length ?w"] assms(3)
    by (simp add: op_string_def end_line_def Let_def st2 st1 typed_def)
  then show ?thesis
    using st1 st2 assms(8-10) by (simp add: end_line_def Let_def)
qed

theorem tab_selection_not_submitted_witness:
  "\<exists>st'. read_line (Node False (replicate 7 None @ [Some (Node True (replicate 27 None))] @ replicate 19 None))
       [press TAB, press TAB, press NL] (initial_engine (\<lambda>_. NUL) (\<lambda>_. [])) = Inr (Some (st', []))
    \<and> tabbed_op st' = ''h'' \<and> op_string st' = []"
proof -
  let ?t = "Node False (replicate 7 None @ [Some (Node True (replicate 27 None))] @ replicate 19 None)"
  let ?st = "initial_engine (\<lambda>_. NUL) (\<lambda>_. [])"
  have w: "words ?t = [''h'']" by (simp add: numeral_eq_Suc alphabets_def)
  have "wf_node ?t" by (auto simp: wf_children_iff)
  then show ?thesis
    using tab_selection_not_submitted [of ?t ?st "''h''" "press TAB" "press TAB" "press NL"]
    unfolding w by (auto simp: typed_def initial_engine_def letters_def editor_ok_def
      simp del: read_line.simps words.simps)
qed

end
