(* ===== verification/Shell_Jobs.thy ===== *)
theory Shell_Jobs
  imports NP_Prelude
begin

text \<open>
  The job table of \<open>MyShell/shell.c\<close> and the commands on it. The jobs are a list that is
  reached only through its head, the shell itself being the first; NULL is the empty list.
  The operating system is a parameter: the record \<open>os\<close> holds what its calls return, and
  the calls the shell makes and the text it prints are collected in a log.
\<close>

section \<open>Jobs\<close>

datatype Status = STATUS_SUSPENDED | STATUS_BACKGROUND | STATUS_FOREGROUND

record job =
  jpid :: int
  jname :: string
  jstatus :: Status
  jgid :: int

definition createJobs :: "job \<Rightarrow> job list" where
  "createJobs node = [node]"

text \<open>\<open>insert\<close>: walk to the last job and append, unless the last job has the same pid.\<close>

fun insert_job :: "job list \<Rightarrow> job \<Rightarrow> cerror + job list" where
  "insert_job [] node = Inl Segfault"
| "insert_job [x] node = Inr (if jpid x \<noteq> jpid node then [x, node] else [x])"
| "insert_job (x # y # xs) node = rbind (insert_job (y # xs) node) (\<lambda>r. Inr (x # r))"

fun remove_rest :: "int \<Rightarrow> job list \<Rightarrow> job list" where
  "remove_rest p [] = []"
| "remove_rest p (y # ys) = (if jpid y = p then remove_rest p ys else y # remove_rest p ys)"

text \<open>\<open>removeJob\<close> also reads and resets the flag \<open>isSuspended\<close>.\<close>

definition removeJob :: "bool \<Rightarrow> job list \<Rightarrow> int \<Rightarrow> cerror + bool \<times> job list" where
  "removeJob isSuspended js p =
     (if isSuspended then Inr (False, js)
      else case js of
        [] \<Rightarrow> Inl Segfault
      | x # xs \<Rightarrow> Inr (False, if p < 0 \<or> jpid x = p then xs else x # remove_rest p xs))"

fun findPID :: "job list \<Rightarrow> int \<Rightarrow> job option" where
  "findPID [] p = None"
| "findPID (x # xs) p = (if jpid x = p then Some x else findPID xs p)"

fun find_fg :: "job list \<Rightarrow> int" where
  "find_fg [] = -1"
| "find_fg (x # xs) = (if jstatus x = STATUS_FOREGROUND then jpid x else find_fg xs)"

definition findFG_STATUS :: "job list \<Rightarrow> cerror + int" where
  "findFG_STATUS js = (case js of [] \<Rightarrow> Inl Segfault | _ # xs \<Rightarrow> Inr (find_fg xs))"

definition status_number :: "Status \<Rightarrow> int" where
  "status_number s = (case s of STATUS_SUSPENDED \<Rightarrow> 0 | STATUS_BACKGROUND \<Rightarrow> 1 | STATUS_FOREGROUND \<Rightarrow> 2)"

fun printList :: "job list \<Rightarrow> string" where
  "printList [] = [NL]"
| "printList (x # xs) = ''pid = '' @ string_of_int (jpid x) @ '', name = '' @ jname x @
     '', status = '' @ string_of_int (status_number (jstatus x)) @ '' -> '' @ printList xs"

fun changeStatus :: "job list \<Rightarrow> int \<Rightarrow> Status \<Rightarrow> job list" where
  "changeStatus [] p s = []"
| "changeStatus (x # xs) p s = (if jpid x = p then x\<lparr>jstatus := s\<rparr> # xs else x # changeStatus xs p s)"

text \<open>\<open>strcmp\<close> with the name; 0 when there is no such job.\<close>

fun getPIDfromname :: "job list \<Rightarrow> string \<Rightarrow> int" where
  "getPIDfromname [] n = 0"
| "getPIDfromname (x # xs) n = (if jname x = n then jpid x else getPIDfromname xs n)"

definition printStatus :: "int \<Rightarrow> Status \<Rightarrow> string" where
  "printStatus p s = ''PID : '' @ string_of_int p @ '', '' @ (case s of
       STATUS_BACKGROUND \<Rightarrow> ''Status : STATUS_BACKGROUND''
     | STATUS_FOREGROUND \<Rightarrow> ''Status : STATUS_FOREGROUND''
     | STATUS_SUSPENDED \<Rightarrow> ''Status : STATUS_SUSPENDED'') @ [NL]"

section \<open>The shell and the system\<close>

datatype redirect_mode = Truncate_not | Append

datatype source = Stdin | Closed_in | File_in string | Pipe_in nat | Text string

datatype sink = Stdout | File_out string redirect_mode | Pipe_out nat

text \<open>What becomes of a child process that searches for its program.\<close>

datatype child = Runs string "string list" | Exits | Returns_to_loop

datatype event =
    Printf string
  | Perror string
  | Prompt
  | Kill int int
  | Tcsetpgrp int int
  | Setpgid int int
  | Waitpid int
  | Chdir string
  | Spawn child source sink
  | Forks_in_place
  | Stdin_closed
  | Stdin_replaced string
  | Use_after_free
  | Not_delivered
  | Daemon child

record os =
  self :: int
  parent :: int
  pgid_of :: "int \<Rightarrow> int"
  kill_ok :: "int \<Rightarrow> bool"
  tcsetpgrp_ok :: bool
  waitpid_nohang :: "int \<Rightarrow> int"
  wait_status :: "int \<Rightarrow> nat"
  forked :: int
  HOME :: string
  cwd_after :: "string \<Rightarrow> string"
  file_exists :: "string \<Rightarrow> bool"
  runnable :: "string \<Rightarrow> bool"
  output_of :: "child \<Rightarrow> string"

record shell_jobs =
  jobSet :: "job list"
  isSuspended :: bool
  parentPID :: int
  log :: "event list"

abbreviation emits :: "event list \<Rightarrow> 'a shell_jobs_scheme \<Rightarrow> 'a shell_jobs_scheme" where
  "emits es s \<equiv> s\<lparr>log := log s @ es\<rparr>"

abbreviation SIGTSTP :: int where "SIGTSTP \<equiv> 20"
abbreviation SIGCONT :: int where "SIGCONT \<equiv> 18"

section \<open>Commands on jobs\<close>

definition shellHandler :: "int \<Rightarrow> 'a shell_jobs_scheme \<Rightarrow> 'a shell_jobs_scheme" where
  "shellHandler si_pid s = (case findPID (jobSet s) si_pid of
       None \<Rightarrow> s
     | Some j \<Rightarrow> (if jstatus j = STATUS_BACKGROUND
         then emits [Printf (''[bg]  '' @ jname j @ '' - '' @ string_of_int si_pid @ '' finished'' @ [NL])] s
         else s))"

definition shellkillCommand :: "os \<Rightarrow> int \<Rightarrow> int \<Rightarrow> 'a shell_jobs_scheme \<Rightarrow> 'a shell_jobs_scheme" where
  "shellkillCommand os p signo s =
     (if p = self os \<or> p = parent os
      then emits [Printf (''myShell: Cannot Kill parent process'' @ [NL])] s
      else case findPID (jobSet s) p of None \<Rightarrow> s | Some _ \<Rightarrow> emits [Kill p signo] s)"

definition no_such_job :: "string \<Rightarrow> int \<Rightarrow> event" where
  "no_such_job cmd p = Printf (''myShell: '' @ cmd @ '' '' @ string_of_int p @ '': no such job'' @ [NL])"

text \<open>The result of \<open>removeJob\<close> is dropped: only the changes to the list in place remain.\<close>

definition shellfgCommand :: "os \<Rightarrow> int \<Rightarrow> 'a shell_jobs_scheme \<Rightarrow> cerror + 'a shell_jobs_scheme" where
  "shellfgCommand os p s =
     (let s = emits [Kill (pgid_of os p) SIGTSTP] s in
      case findPID (jobSet s) p of
        None \<Rightarrow> Inr (emits [no_such_job ''fg'' p] s)
      | Some j \<Rightarrow>
          if jstatus j = STATUS_FOREGROUND then Inr (emits [no_such_job ''fg'' p] s)
          else
            let s = emits ([Tcsetpgrp 0 p] @ (if tcsetpgrp_ok os then [] else [Perror ''tcsetpgrp()''])
                           @ [Kill (- p) SIGCONT] @ (if kill_ok os (- p) then [] else [Kill p SIGCONT])) s in
            if \<not> kill_ok os (- p) \<and> \<not> kill_ok os p then Inr (emits [no_such_job ''fg'' p] s)
            else
              let s = emits [Printf (''[fg]  + '' @ string_of_int (jpid j) @ '' continued  '' @ jname j @ [NL])] s in
              if jobSet s \<noteq> [] \<and> jpid (hd (jobSet s)) = p \<or> p < 0 then Inl Segfault
              else rbind (removeJob (isSuspended s) (jobSet s) p) (\<lambda>(b, js).
                Inr (emits [Waitpid p, Tcsetpgrp 0 (self os)] (s\<lparr>isSuspended := b, jobSet := js\<rparr>))))"

definition shellbgCommand :: "os \<Rightarrow> int \<Rightarrow> 'a shell_jobs_scheme \<Rightarrow> 'a shell_jobs_scheme" where
  "shellbgCommand os p s = (case findPID (jobSet s) p of
        None \<Rightarrow> emits [no_such_job ''bg'' p] s
      | Some j \<Rightarrow>
          if jpid j = parentPID s then emits [no_such_job ''bg'' p] s
          else if jstatus j \<noteq> STATUS_SUSPENDED
          then emits [Printf (''myShell: bg '' @ string_of_int p @ '': job not currently suspended. Cannot resume'' @ [NL])] s
          else
            let s = emits ([Kill (- p) SIGCONT] @ (if kill_ok os (- p) then [] else [Kill p SIGCONT])) s in
            if \<not> kill_ok os (- p) \<and> \<not> kill_ok os p then emits [no_such_job ''bg'' p] s
            else
              emits [Printf (''[bg]  + '' @ string_of_int (jpid j) @ '' continued  '' @ jname j @ '' &'' @ [NL]),
                     Setpgid 0 0, Tcsetpgrp 0 (self os)]
                (s\<lparr>jobSet := changeStatus (jobSet s) p STATUS_BACKGROUND\<rparr>))"

text \<open>\<open>argVector[0]\<close> is passed as an option: NULL after a lone ampersand.\<close>

definition insert_background_job ::
  "os \<Rightarrow> string option \<Rightarrow> int \<Rightarrow> 'a shell_jobs_scheme \<Rightarrow> cerror + 'a shell_jobs_scheme" where
  "insert_background_job os arg0 p s = (case arg0 of
       None \<Rightarrow> Inl Segfault
     | Some n \<Rightarrow>
         rbind (insert_job (jobSet s) \<lparr>jpid = p, jname = n, jstatus = STATUS_BACKGROUND, jgid = p\<rparr>) (\<lambda>js.
           Inr (emits (if waitpid_nohang os p > 0
                       then [Printf (''[bg]  '' @ string_of_int p @ '' finished'' @ [NL])] else [])
                 (s\<lparr>jobSet := js\<rparr>))))"

text \<open>The status word of a process that exits with code \<open>e\<close>, and the macro \<open>WSTOPSIG\<close>.\<close>

definition exit_status :: "nat \<Rightarrow> nat" where
  "exit_status e = 256 * (e mod 256)"

definition WSTOPSIG :: "nat \<Rightarrow> nat" where
  "WSTOPSIG st = st div 256 mod 256"

definition job_wait ::
  "os \<Rightarrow> string option \<Rightarrow> int \<Rightarrow> 'a shell_jobs_scheme \<Rightarrow> cerror + 'a shell_jobs_scheme" where
  "job_wait os arg0 p s =
     (let s = emits [Waitpid p] s in
      if WSTOPSIG (wait_status os p) = 0 then Inr s
      else case arg0 of
        None \<Rightarrow> Inl Segfault
      | Some n \<Rightarrow>
          let s = emits [Setpgid p p] s in
          rbind (insert_job (jobSet s) \<lparr>jpid = p, jname = n, jstatus = STATUS_SUSPENDED, jgid = pgid_of os (self os)\<rparr>)
            (\<lambda>js. Inr (emits [Printf (NL # ''Suspended  '' @ n @ '' '' @ string_of_int p @ [NL]),
                            Tcsetpgrp 0 (self os), Tcsetpgrp 1 (self os)] (s\<lparr>jobSet := js\<rparr>))))"

definition initStuff :: "os \<Rightarrow> string \<Rightarrow> job list" where
  "initStuff os name = [\<lparr>jpid = self os, jname = name, jstatus = STATUS_FOREGROUND, jgid = self os\<rparr>]"

section \<open>Reaping background jobs\<close>

lemma remove_rest_filter: "remove_rest p xs = filter (\<lambda>j. jpid j \<noteq> p) xs"
  by (induction xs) auto

lemma removeJob_shorter:
  "removeJob False js (jpid (js ! i)) = Inr (b, js') \<Longrightarrow> i < length js \<Longrightarrow> length js' < length js"
proof (cases js)
  case (Cons x xs)
  assume r: "removeJob False js (jpid (js ! i)) = Inr (b, js')" and i: "i < length js"
  show ?thesis
  proof (cases "jpid (js ! i) < 0 \<or> jpid x = jpid (js ! i)")
    case True
    then show ?thesis using r by (auto simp: removeJob_def Cons)
  next
    case False
    then obtain k where k: "i = Suc k" using Cons by (cases i) auto
    have "xs ! k \<in> set xs" using i Cons k by simp
    then have "length (filter (\<lambda>j. jpid j \<noteq> jpid (xs ! k)) xs) < length xs"
      by (intro length_filter_less [of "xs ! k"]) auto
    then show ?thesis using r False by (auto simp: removeJob_def Cons remove_rest_filter k)
  qed
qed simp

text \<open>
  The loop at the head of the main loop: \<open>i\<close> is the position of \<open>curr\<close>. After a removal
  the walk restarts behind the head of the new list, which must exist.
\<close>

function reap_from :: "(int \<Rightarrow> int) \<Rightarrow> job list \<Rightarrow> nat \<Rightarrow> cerror + job list" where
  "reap_from wait js i =
     (if length js \<le> i then Inr js
      else if jstatus (js ! i) = STATUS_BACKGROUND \<and> wait (jpid (js ! i)) \<noteq> 0
      then (case removeJob False js (jpid (js ! i)) of
              Inl e \<Rightarrow> Inl e
            | Inr (b, js') \<Rightarrow> (if js' = [] then Inl Segfault else reap_from wait js' 1))
      else reap_from wait js (Suc i))"
  by pat_completeness auto

termination
  by (relation "measures [\<lambda>(w, js, i). length js, \<lambda>(w, js, i). length js - i]")
     (auto dest: removeJob_shorter)

declare reap_from.simps [simp del]

definition reap :: "(int \<Rightarrow> int) \<Rightarrow> job list \<Rightarrow> cerror + job list" where
  "reap wait js = reap_from wait js 0"

section \<open>The invariant of the job table\<close>

definition jobs_ok :: "int \<Rightarrow> job list \<Rightarrow> bool" where
  "jobs_ok me js \<longleftrightarrow> js \<noteq> [] \<and> jpid (hd js) = me \<and> jstatus (hd js) = STATUS_FOREGROUND
     \<and> distinct (map jpid js) \<and> (\<forall>j \<in> set (tl js). jstatus j \<noteq> STATUS_FOREGROUND \<and> 0 < jpid j)"

lemma jobs_ok_initStuff: "jobs_ok (self os) (initStuff os n)"
  by (simp add: jobs_ok_def initStuff_def)

lemma findPID_None: "findPID js p = None \<longleftrightarrow> p \<notin> jpid ` set js"
  by (induction js) auto

lemma findPID_SomeD: "findPID js p = Some j \<Longrightarrow> j \<in> set js \<and> jpid j = p"
  by (induction js) (auto split: if_splits)

lemma findPID_mem: "distinct (map jpid js) \<Longrightarrow> j \<in> set js \<Longrightarrow> findPID js (jpid j) = Some j"
  by (induction js) (auto simp: rev_image_eqI)

lemma findPID_append: "findPID (xs @ ys) p = (case findPID xs p of None \<Rightarrow> findPID ys p | r \<Rightarrow> r)"
  by (induction xs) auto

lemma findPID_filter: "findPID (filter (\<lambda>j. jpid j \<noteq> p) js) = (findPID js)(p := None)"
  by (rule ext, induction js) auto

lemma insert_job_append:
  "js \<noteq> [] \<Longrightarrow> jpid node \<notin> jpid ` set js \<Longrightarrow> insert_job js node = Inr (js @ [node])"
  by (induction js node rule: insert_job.induct) auto

lemma jobs_ok_insert:
  "jobs_ok me js \<Longrightarrow> jpid node \<notin> jpid ` set js \<Longrightarrow> 0 < jpid node \<Longrightarrow> jstatus node \<noteq> STATUS_FOREGROUND
     \<Longrightarrow> jobs_ok me (js @ [node])"
  by (cases js) (auto simp: jobs_ok_def)

lemma removeJob_filter:
  assumes "jobs_ok me js" and "p \<noteq> me" and "0 \<le> p"
  shows "removeJob False js p = Inr (False, filter (\<lambda>j. jpid j \<noteq> p) js)"
  using assms by (cases js) (auto simp: jobs_ok_def removeJob_def remove_rest_filter)

lemma jobs_ok_filter:
  assumes "jobs_ok me js" and "\<And>j. jstatus j = STATUS_FOREGROUND \<Longrightarrow> jpid j = me \<Longrightarrow> P j"
  shows "jobs_ok me (filter P js)"
  using assms by (cases js) (auto simp: jobs_ok_def distinct_map_filter)

lemma map_jpid_changeStatus [simp]: "map jpid (changeStatus js p s) = map jpid js"
  by (induction js) auto

lemma set_changeStatus: "j \<in> set (changeStatus js p s) \<Longrightarrow> \<exists>k \<in> set js. j = k \<or> j = k\<lparr>jstatus := s\<rparr>"
  by (induction js) (auto split: if_splits)

lemma findPID_changeStatus:
  "findPID (changeStatus js p s) = (findPID js)(p := map_option (\<lambda>j. j\<lparr>jstatus := s\<rparr>) (findPID js p))"
  by (rule ext, induction js) auto

lemma jobs_ok_changeStatus:
  assumes "jobs_ok me js" and "p \<noteq> me" and "s \<noteq> STATUS_FOREGROUND"
  shows "jobs_ok me (changeStatus js p s)"
proof (cases js)
  case (Cons x xs)
  then have x: "jpid x = me" "changeStatus js p s = x # changeStatus xs p s"
    using assms by (auto simp: jobs_ok_def)
  have "distinct (map jpid (x # changeStatus xs p s))"
    using assms(1) Cons x(1) by (auto simp: jobs_ok_def simp flip: set_map)
  moreover have "\<forall>j \<in> set (changeStatus xs p s). jstatus j \<noteq> STATUS_FOREGROUND \<and> 0 < jpid j"
    using assms Cons by (auto simp: jobs_ok_def dest!: set_changeStatus)
  ultimately show ?thesis using assms(1) x(2) Cons by (simp add: jobs_ok_def)
qed (use assms in \<open>simp add: jobs_ok_def\<close>)

section \<open>The job table as a map\<close>

locale job_table =
  fixes find :: "'t \<Rightarrow> int \<Rightarrow> job option"
    and ins :: "'t \<Rightarrow> job \<Rightarrow> cerror + 't"
    and rem :: "'t \<Rightarrow> int \<Rightarrow> cerror + 't"
    and set_status :: "'t \<Rightarrow> int \<Rightarrow> Status \<Rightarrow> 't"
    and ok :: "int \<Rightarrow> 't \<Rightarrow> bool"
  assumes find_ins: "ok me t \<Longrightarrow> find t (jpid j) = None \<Longrightarrow> 0 < jpid j \<Longrightarrow> jstatus j \<noteq> STATUS_FOREGROUND \<Longrightarrow>
        \<exists>t'. ins t j = Inr t' \<and> ok me t' \<and> find t' = (find t)(jpid j \<mapsto> j)"
    and find_rem: "ok me t \<Longrightarrow> p \<noteq> me \<Longrightarrow> 0 \<le> p \<Longrightarrow>
        \<exists>t'. rem t p = Inr t' \<and> ok me t' \<and> find t' = (find t)(p := None)"
    and find_set: "ok me t \<Longrightarrow> p \<noteq> me \<Longrightarrow> st \<noteq> STATUS_FOREGROUND \<Longrightarrow> ok me (set_status t p st)
        \<and> find (set_status t p st) = (find t)(p := map_option (\<lambda>j. j\<lparr>jstatus := st\<rparr>) (find t p))"
    and me_present: "ok me t \<Longrightarrow> find t me \<noteq> None"
begin

text \<open>A job that is entered, has its status changed and is removed leaves no trace.\<close>

lemma lifecycle:
  assumes "ok me t" and "find t (jpid j) = None" and "0 < jpid j"
    and "jstatus j \<noteq> STATUS_FOREGROUND" and "st \<noteq> STATUS_FOREGROUND"
  shows "\<exists>t1 t2. ins t j = Inr t1 \<and> rem (set_status t1 (jpid j) st) (jpid j) = Inr t2
    \<and> find (set_status t1 (jpid j) st) (jpid j) = Some (j\<lparr>jstatus := st\<rparr>)
    \<and> ok me t2 \<and> find t2 = find t"
proof -
  have me: "jpid j \<noteq> me" using me_present [OF assms(1)] assms(2) by auto
  obtain t1 where t1: "ins t j = Inr t1" "ok me t1" "find t1 = (find t)(jpid j \<mapsto> j)"
    using find_ins [OF assms(1-4)] by blast
  note set1 = find_set [OF t1(2) me assms(5)]
  obtain t2 where t2: "rem (set_status t1 (jpid j) st) (jpid j) = Inr t2" "ok me t2"
      "find t2 = (find (set_status t1 (jpid j) st))(jpid j := None)"
    using find_rem [OF _ me, of "set_status t1 (jpid j) st"] set1 assms(3) by auto
  have "find t2 = find t" using t2(3) set1 t1(3) assms(2) by auto
  then show ?thesis using t1(1,3) t2(1,2) set1 by auto
qed

end

interpretation jobs: job_table findPID insert_job
    "\<lambda>js p. rbind (removeJob False js p) (\<lambda>(b, js'). Inr js')" changeStatus jobs_ok
proof unfold_locales
  fix me js and j :: job
  assume ok: "jobs_ok me js" and new: "findPID js (jpid j) = None"
    and j: "0 < jpid j" "jstatus j \<noteq> STATUS_FOREGROUND"
  then have n: "jpid j \<notin> jpid ` set js" "js \<noteq> []"
    by (auto simp: findPID_None jobs_ok_def)
  have "findPID (js @ [j]) = (findPID js)(jpid j \<mapsto> j)"
    using new by (auto simp: findPID_append split: option.split)
  with n ok j show "\<exists>t'. insert_job js j = Inr t' \<and> jobs_ok me t' \<and> findPID t' = (findPID js)(jpid j \<mapsto> j)"
    using insert_job_append [OF n(2,1)] jobs_ok_insert [OF ok n(1) j] by simp
next
  fix me js and p :: int
  assume "jobs_ok me js" "p \<noteq> me" "0 \<le> p"
  then show "\<exists>t'. rbind (removeJob False js p) (\<lambda>(b, js'). Inr js') = Inr t' \<and> jobs_ok me t'
      \<and> findPID t' = (findPID js)(p := None)"
    by (auto simp: removeJob_filter findPID_filter intro!: jobs_ok_filter)
next
  fix me js p and st :: Status
  assume "jobs_ok me js" "p \<noteq> me" "st \<noteq> STATUS_FOREGROUND"
  then show "jobs_ok me (changeStatus js p st)
      \<and> findPID (changeStatus js p st) = (findPID js)(p := map_option (\<lambda>j. j\<lparr>jstatus := st\<rparr>) (findPID js p))"
    by (simp add: jobs_ok_changeStatus findPID_changeStatus)
next
  fix me js
  assume "jobs_ok me js"
  then show "findPID js me \<noteq> None" by (cases js) (auto simp: jobs_ok_def)
qed

text \<open>
  C26. The job list implements a map from pids to jobs: a new job is found under its pid
  and nothing else changes, a status change is seen by the lookup, and removing the job
  gives back the table it was entered into.
\<close>

theorem job_lifecycle:
  assumes "jobs_ok me js" and "findPID js (jpid j) = None" and "0 < jpid j"
    and "jstatus j \<noteq> STATUS_FOREGROUND" and "st \<noteq> STATUS_FOREGROUND"
  shows "\<exists>js1 js2. insert_job js j = Inr js1
    \<and> removeJob False (changeStatus js1 (jpid j) st) (jpid j) = Inr (False, js2)
    \<and> findPID (changeStatus js1 (jpid j) st) (jpid j) = Some (j\<lparr>jstatus := st\<rparr>)
    \<and> jobs_ok me js2 \<and> findPID js2 = findPID js"
proof -
  from jobs.lifecycle [OF assms] obtain js1 js2 where
    "insert_job js j = Inr js1" and
    r: "rbind (removeJob False (changeStatus js1 (jpid j) st) (jpid j)) (\<lambda>(b, js'). Inr js') = Inr js2" and
    "findPID (changeStatus js1 (jpid j) st) (jpid j) = Some (j\<lparr>jstatus := st\<rparr>)"
    "jobs_ok me js2" "findPID js2 = findPID js" by blast
  moreover have "removeJob False (changeStatus js1 (jpid j) st) (jpid j) = Inr (False, js2)"
    using r by (auto simp: removeJob_def split: list.splits)
  ultimately show ?thesis by blast
qed

abbreviation example_shell_job :: job where
  "example_shell_job \<equiv> \<lparr>jpid = 100, jname = ''./shell'', jstatus = STATUS_FOREGROUND, jgid = 100\<rparr>"

abbreviation example_job :: job where
  "example_job \<equiv> \<lparr>jpid = 101, jname = ''vi'', jstatus = STATUS_SUSPENDED, jgid = 101\<rparr>"

theorem job_lifecycle_witness:
  "\<exists>js1 js2. insert_job [example_shell_job] example_job = Inr js1
    \<and> removeJob False (changeStatus js1 101 STATUS_BACKGROUND) 101 = Inr (False, js2)
    \<and> findPID js2 = findPID [example_shell_job]"
  using job_lifecycle [of 100 "[example_shell_job]" example_job STATUS_BACKGROUND]
  by (auto simp: jobs_ok_def)

section \<open>Reaping\<close>

lemma reap_from_filter:
  assumes "jobs_ok me js" and "0 \<le> me"
    and "\<And>k. k < i \<Longrightarrow> k < length js \<Longrightarrow> \<not> (jstatus (js ! k) = STATUS_BACKGROUND \<and> w (jpid (js ! k)) \<noteq> 0)"
  shows "reap_from w js i = Inr (filter (\<lambda>j. \<not> (jstatus j = STATUS_BACKGROUND \<and> w (jpid j) \<noteq> 0)) js)"
  using assms
proof (induction w js i rule: reap_from.induct)
  case (1 w js i)
  let ?done = "\<lambda>j. jstatus j = STATUS_BACKGROUND \<and> w (jpid j) \<noteq> 0"
  show ?case
  proof (cases "length js \<le> i")
    case True
    then have "\<forall>j \<in> set js. \<not> ?done j" using "1.prems"(3) by (metis in_set_conv_nth less_le_trans)
    then have "filter (\<lambda>j. \<not> ?done j) js = js" by simp
    then show ?thesis using True by (simp add: reap_from.simps [of w js i])
  next
    case False
    show ?thesis
    proof (cases "?done (js ! i)")
      case True
      let ?p = "jpid (js ! i)"
      let ?js = "filter (\<lambda>j. jpid j \<noteq> ?p) js"
      have mem: "js ! i \<in> set js" using False by simp
      have hd: "js \<noteq> []" "jpid (hd js) = me" "jstatus (hd js) = STATUS_FOREGROUND" "distinct (map jpid js)"
        using "1.prems"(1) by (auto simp: jobs_ok_def)
      have "js ! i \<in> set (tl js)"
        using mem True hd(1,3) by (cases js) auto
      then have p: "0 < ?p" using "1.prems"(1) by (auto simp: jobs_ok_def)
      have "?p \<noteq> me"
        using \<open>js ! i \<in> set (tl js)\<close> hd(2,4) by (cases js) (simp_all, metis imageI)
      with p have r: "removeJob False js ?p = Inr (False, ?js)"
        using removeJob_filter [OF "1.prems"(1)] by simp
      have ok: "jobs_ok me ?js"
        using \<open>?p \<noteq> me\<close> by (intro jobs_ok_filter [OF "1.prems"(1)]) auto
      have "reap_from w ?js 1 = Inr (filter (\<lambda>j. \<not> ?done j) ?js)"
      proof (rule "1.IH"(1))
        fix k assume "k < 1" "k < length ?js"
        then show "\<not> ?done (?js ! k)" using ok by (cases ?js) (auto simp: jobs_ok_def)
      qed (use False True r ok "1.prems"(2) in \<open>auto simp: jobs_ok_def\<close>)
      moreover have "filter (\<lambda>j. \<not> ?done j) ?js = filter (\<lambda>j. \<not> ?done j) js"
      proof -
        have "j = js ! i" if "j \<in> set js" "jpid j = ?p" for j
          using findPID_mem [OF hd(4) that(1)] findPID_mem [OF hd(4) mem] that(2) by (metis option.inject)
        with True have "?done j" if "j \<in> set js" "jpid j = ?p" for j
          using that by metis
        then show ?thesis by (auto simp: filter_filter intro!: filter_cong)
      qed
      moreover have "?js \<noteq> []" using ok by (simp add: jobs_ok_def)
      ultimately show ?thesis using False True r by (simp add: reap_from.simps [of w js i])
    next
      case not_done: False
      then have "reap_from w js (Suc i) = Inr (filter (\<lambda>j. \<not> ?done j) js)"
        using "1.IH"(2) [OF False] "1.prems" by (auto simp: less_Suc_eq)
      then show ?thesis using False not_done by (auto simp: reap_from.simps [of w js i])
    qed
  qed
qed

text \<open>
  At every prompt the shell removes exactly the background jobs that the system
  reports as finished, keeps all others in order, and keeps the table's invariant.
\<close>

theorem reap_removes_finished:
  assumes "jobs_ok me js" and "0 \<le> me"
  shows "\<exists>js'. reap wait js = Inr js' \<and> jobs_ok me js'
    \<and> js' = filter (\<lambda>j. \<not> (jstatus j = STATUS_BACKGROUND \<and> wait (jpid j) \<noteq> 0)) js"
  using reap_from_filter [OF assms, of 0 wait] jobs_ok_filter [OF assms(1)] by (simp add: reap_def)

theorem reap_removes_finished_witness:
  "reap (\<lambda>p. p) [example_shell_job, example_job\<lparr>jstatus := STATUS_BACKGROUND\<rparr>, example_job\<lparr>jpid := 102\<rparr>]
     = Inr [example_shell_job, example_job\<lparr>jpid := 102\<rparr>]"
  using reap_removes_finished [of 100
      "[example_shell_job, example_job\<lparr>jstatus := STATUS_BACKGROUND\<rparr>, example_job\<lparr>jpid := 102\<rparr>]" "\<lambda>p. p"]
  by (simp add: jobs_ok_def)

section \<open>Foreground and background commands\<close>

lemma findPID_not_me:
  assumes "jobs_ok me js" and "findPID js p = Some j" and "jstatus j \<noteq> STATUS_FOREGROUND"
  shows "p \<noteq> me \<and> 0 < p \<and> jpid j = p \<and> js \<noteq> [] \<and> jpid (hd js) = me"
proof -
  obtain x xs where js: "js = x # xs" using assms(1) by (cases js) (auto simp: jobs_ok_def)
  have j: "j \<in> set js" "jpid j = p" using findPID_SomeD [OF assms(2)] by simp_all
  then have "j \<in> set xs" using assms(1,3) by (auto simp: js jobs_ok_def)
  then have "jpid j \<in> jpid ` set xs" "0 < jpid j" using assms(1) by (auto simp: js jobs_ok_def)
  then show ?thesis using assms(1) j(2) by (auto simp: js jobs_ok_def)
qed

lemma shellfgCommand_ok:
  assumes "jobs_ok me (jobSet s)" and "\<not> isSuspended s"
  shows "\<exists>s'. shellfgCommand os p s = Inr s' \<and> jobs_ok me (jobSet s') \<and> \<not> isSuspended s'
    \<and> (if (\<exists>j. findPID (jobSet s) p = Some j \<and> jstatus j \<noteq> STATUS_FOREGROUND)
            \<and> (kill_ok os (- p) \<or> kill_ok os p)
       then jobSet s' = filter (\<lambda>j. jpid j \<noteq> p) (jobSet s)
       else jobSet s' = jobSet s \<and> last (log s') = no_such_job ''fg'' p)"
proof (cases "findPID (jobSet s) p")
  case None
  then show ?thesis using assms by (simp add: shellfgCommand_def Let_def)
next
  case (Some j)
  show ?thesis
  proof (cases "jstatus j = STATUS_FOREGROUND")
    case True
    then show ?thesis using assms Some by (simp add: shellfgCommand_def Let_def)
  next
    case False
    note n = findPID_not_me [OF assms(1) Some False]
    have "removeJob False (jobSet s) p = Inr (False, filter (\<lambda>j. jpid j \<noteq> p) (jobSet s))"
      using removeJob_filter [OF assms(1)] n by simp
    moreover have "jobs_ok me (filter (\<lambda>j. jpid j \<noteq> p) (jobSet s))"
      using n by (intro jobs_ok_filter [OF assms(1)]) auto
    ultimately show ?thesis
      using assms Some False n by (auto simp: shellfgCommand_def Let_def)
  qed
qed

text \<open>
  The fg command never fails on a well-formed table. It takes the job out of the table
  exactly when there is such a job, it is not in the foreground and it can be continued;
  otherwise it reports that there is no such job and leaves the table as it is.
\<close>

theorem shellfgCommand_effect:
  assumes "jobs_ok me (jobSet s)" and "\<not> isSuspended s"
  shows "\<exists>s'. shellfgCommand os p s = Inr s' \<and> jobs_ok me (jobSet s')
    \<and> (if (\<exists>j. findPID (jobSet s) p = Some j \<and> jstatus j \<noteq> STATUS_FOREGROUND)
            \<and> (kill_ok os (- p) \<or> kill_ok os p)
       then jobSet s' = filter (\<lambda>j. jpid j \<noteq> p) (jobSet s)
       else jobSet s' = jobSet s \<and> last (log s') = no_such_job ''fg'' p)"
  using shellfgCommand_ok [OF assms] by blast

abbreviation example_os :: os where
  "example_os \<equiv> \<lparr>self = 100, parent = 1, pgid_of = (\<lambda>p. p), kill_ok = (\<lambda>_. True), tcsetpgrp_ok = True,
     waitpid_nohang = (\<lambda>_. 0), wait_status = (\<lambda>_. 256), forked = 103, HOME = ''/root'',
     cwd_after = (\<lambda>d. d), file_exists = (\<lambda>_. True), runnable = (\<lambda>_. True), output_of = (\<lambda>_. ''out'')\<rparr>"

theorem shellfgCommand_effect_witness:
  "\<exists>s'. shellfgCommand example_os 101
       \<lparr>jobSet = [example_shell_job, example_job], isSuspended = False, parentPID = 100, log = []\<rparr> = Inr s'
     \<and> jobSet s' = [example_shell_job]"
  using shellfgCommand_effect [of 100
      "\<lparr>jobSet = [example_shell_job, example_job], isSuspended = False, parentPID = 100, log = []\<rparr>" example_os 101]
  by (auto simp: jobs_ok_def)

lemma shellbgCommand_ok:
  assumes "jobs_ok me (jobSet s)"
  shows "jobs_ok me (jobSet (shellbgCommand os p s)) \<and> isSuspended (shellbgCommand os p s) = isSuspended s"
proof (cases "findPID (jobSet s) p")
  case None
  then show ?thesis using assms by (simp add: shellbgCommand_def)
next
  case (Some j)
  then show ?thesis
    using assms findPID_not_me [OF assms Some]
    by (auto simp: shellbgCommand_def Let_def intro!: jobs_ok_changeStatus)
qed

text \<open>
  The bg command changes the table only for a suspended job that can be continued,
  which becomes a background job; it keeps the invariant in every case.
\<close>

theorem shellbgCommand_effect:
  assumes "jobs_ok me (jobSet s)" and "parentPID s = me"
  shows "jobs_ok me (jobSet (shellbgCommand os p s))
    \<and> jobSet (shellbgCommand os p s) =
        (if (\<exists>j. findPID (jobSet s) p = Some j \<and> jstatus j = STATUS_SUSPENDED)
            \<and> (kill_ok os (- p) \<or> kill_ok os p)
         then changeStatus (jobSet s) p STATUS_BACKGROUND else jobSet s)"
proof (cases "findPID (jobSet s) p")
  case None
  then show ?thesis using assms by (simp add: shellbgCommand_def)
next
  case (Some j)
  show ?thesis
  proof (cases "jstatus j = STATUS_SUSPENDED")
    case True
    then have "p \<noteq> me" "jpid j \<noteq> parentPID s"
      using findPID_not_me [OF assms(1) Some] assms(2) by auto
    then show ?thesis
      using assms Some True by (auto simp: shellbgCommand_def Let_def jobs_ok_changeStatus)
  next
    case False
    then show ?thesis using assms Some by (simp add: shellbgCommand_def Let_def)
  qed
qed

theorem shellbgCommand_effect_witness:
  "jobSet (shellbgCommand example_os 101
       \<lparr>jobSet = [example_shell_job, example_job], isSuspended = False, parentPID = 100, log = []\<rparr>)
     = [example_shell_job, example_job\<lparr>jstatus := STATUS_BACKGROUND\<rparr>]"
  using shellbgCommand_effect [of 100
      "\<lparr>jobSet = [example_shell_job, example_job], isSuspended = False, parentPID = 100, log = []\<rparr>" example_os 101]
  by (simp add: jobs_ok_def)

section \<open>Waiting for a foreground job\<close>

lemma WSTOPSIG_exit_status [simp]: "WSTOPSIG (exit_status e) = e mod 256"
  by (simp add: WSTOPSIG_def exit_status_def)

text \<open>
  The shell takes a foreground command that exits with a non-zero code for a suspended
  one: \<open>WSTOPSIG\<close> reads the exit code when the process was not stopped. The finished command
  is entered into the job table; with exit code 0 the table is left alone.
\<close>

theorem job_wait_nonzero_exit_suspends:
  assumes "jobs_ok me (jobSet s)" and "p \<notin> jpid ` set (jobSet s)"
    and "wait_status os p = exit_status e" and "e < 256"
  shows "\<exists>s'. job_wait os (Some n) p s = Inr s'
    \<and> jobSet s' = jobSet s @ (if e = 0 then []
        else [\<lparr>jpid = p, jname = n, jstatus = STATUS_SUSPENDED, jgid = pgid_of os (self os)\<rparr>])"
proof -
  have "jobSet s \<noteq> []" using assms(1) by (simp add: jobs_ok_def)
  then show ?thesis
    using assms insert_job_append [of "jobSet s"] by (simp add: job_wait_def Let_def)
qed

theorem job_wait_nonzero_exit_suspends_witness:
  "\<exists>s'. job_wait example_os (Some ''false'') 103
       \<lparr>jobSet = [example_shell_job], isSuspended = False, parentPID = 100, log = []\<rparr> = Inr s'
     \<and> jobSet s' = [example_shell_job,
          \<lparr>jpid = 103, jname = ''false'', jstatus = STATUS_SUSPENDED, jgid = 100\<rparr>]"
  using job_wait_nonzero_exit_suspends [of 100
      "\<lparr>jobSet = [example_shell_job], isSuspended = False, parentPID = 100, log = []\<rparr>" 103 example_os 1 "''false''"]
  by (simp add: jobs_ok_def exit_status_def)

section \<open>Tables with reused pids\<close>

text \<open>
  A pid can stand in the table twice: a command that exits with a non-zero code stays there
  after the system has forgotten it, and a later process may get its pid. What the commands need
  is less: the shell is first and in the foreground, and no other entry is a foreground job,
  has its pid, or a pid that is not positive.
\<close>

definition shell_first :: "int \<Rightarrow> job list \<Rightarrow> bool" where
  "shell_first me js \<longleftrightarrow> js \<noteq> [] \<and> jpid (hd js) = me \<and> jstatus (hd js) = STATUS_FOREGROUND
     \<and> (\<forall>j \<in> set (tl js). jstatus j \<noteq> STATUS_FOREGROUND \<and> 0 < jpid j \<and> jpid j \<noteq> me)"

lemma shell_first_Cons:
  "shell_first me (x # xs) \<longleftrightarrow> jpid x = me \<and> jstatus x = STATUS_FOREGROUND
     \<and> (\<forall>j \<in> set xs. jstatus j \<noteq> STATUS_FOREGROUND \<and> 0 < jpid j \<and> jpid j \<noteq> me)"
  by (simp add: shell_first_def)

lemma shell_first_cases:
  assumes "shell_first me js"
  obtains x xs where "js = x # xs"
  using assms by (cases js) (auto simp: shell_first_def)

lemma shell_first_member:
  "shell_first me js \<Longrightarrow> j \<in> set js \<Longrightarrow> jstatus j \<noteq> STATUS_FOREGROUND \<Longrightarrow> 0 < jpid j \<and> jpid j \<noteq> me"
  by (cases js) (auto simp: shell_first_def)

lemma insert_job_first:
  assumes "shell_first me js" and "0 < jpid node" and "jpid node \<noteq> me" and "jstatus node \<noteq> STATUS_FOREGROUND"
  obtains js' where "insert_job js node = Inr js'" "shell_first me js'"
proof -
  have "\<exists>js'. insert_job js node = Inr js' \<and> (js' = js \<or> js' = js @ [node])" if "js \<noteq> []" for js
    using that by (induction js node rule: insert_job.induct) auto
  moreover have "js \<noteq> []" "shell_first me (js @ [node])" using assms by (auto simp: shell_first_def)
  ultimately show thesis using that assms(1) by blast
qed

lemma removeJob_first:
  assumes "shell_first me js" and "p \<noteq> me" and "0 \<le> p"
  shows "removeJob False js p = Inr (False, filter (\<lambda>j. jpid j \<noteq> p) js)"
  using assms by (cases js) (auto simp: shell_first_def removeJob_def remove_rest_filter)

lemma shell_first_filter:
  "shell_first me js \<Longrightarrow> p \<noteq> me \<Longrightarrow> shell_first me (filter (\<lambda>j. jpid j \<noteq> p) js)"
  by (cases js) (auto simp: shell_first_def)

lemma shell_first_changeStatus:
  "shell_first me js \<Longrightarrow> p \<noteq> me \<Longrightarrow> st \<noteq> STATUS_FOREGROUND \<Longrightarrow> shell_first me (changeStatus js p st)"
  by (cases js) (auto simp: shell_first_def dest!: set_changeStatus)

lemma reap_from_first:
  assumes "shell_first me js"
  shows "\<exists>js'. reap_from w js i = Inr js' \<and> shell_first me js'"
  using assms
proof (induction w js i rule: reap_from.induct)
  case (1 w js i)
  show ?case
  proof (cases "length js \<le> i")
    case True
    then show ?thesis using "1.prems" by (simp add: reap_from.simps [of w js i])
  next
    case False
    show ?thesis
    proof (cases "jstatus (js ! i) = STATUS_BACKGROUND \<and> w (jpid (js ! i)) \<noteq> 0")
      case True
      let ?js = "filter (\<lambda>j. jpid j \<noteq> jpid (js ! i)) js"
      have p: "0 < jpid (js ! i)" "jpid (js ! i) \<noteq> me"
        using shell_first_member [OF "1.prems", of "js ! i"] False True by auto
      have r: "removeJob False js (jpid (js ! i)) = Inr (False, ?js)" using removeJob_first [OF "1.prems"] p by simp
      have ok: "shell_first me ?js" "?js \<noteq> []" using shell_first_filter [OF "1.prems" p(2)] by (auto simp: shell_first_def)
      then have "\<exists>js'. reap_from w ?js 1 = Inr js' \<and> shell_first me js'"
        using "1.IH"(1) [OF False True r refl] by simp
      then show ?thesis using False True r ok(2) by (simp add: reap_from.simps [of w js i])
    next
      case not_done: False
      then show ?thesis using "1.IH"(2) [OF False] "1.prems" False by (auto simp: reap_from.simps [of w js i])
    qed
  qed
qed

lemma reap_first:
  assumes "shell_first me js"
  obtains js' where "reap w js = Inr js'" "shell_first me js'"
  using reap_from_first [OF assms, of w 0] that by (auto simp: reap_def)

lemma findPID_first:
  "shell_first me js \<Longrightarrow> findPID js p = Some j \<Longrightarrow> jstatus j \<noteq> STATUS_FOREGROUND \<Longrightarrow> p \<noteq> me \<and> 0 < p \<and> jpid j = p"
  using findPID_SomeD [of js p j] shell_first_member [of me js j] by auto

lemma shellfgCommand_first:
  assumes "shell_first me (jobSet s)" and "\<not> isSuspended s"
  shows "\<exists>s'. shellfgCommand os p s = Inr s' \<and> shell_first me (jobSet s') \<and> \<not> isSuspended s'"
proof (cases "\<exists>j. findPID (jobSet s) p = Some j \<and> jstatus j \<noteq> STATUS_FOREGROUND")
  case True
  then obtain j where j: "findPID (jobSet s) p = Some j" "jstatus j \<noteq> STATUS_FOREGROUND" by blast
  note n = findPID_first [OF assms(1) j]
  have "jobSet s \<noteq> []" "jpid (hd (jobSet s)) = me" using assms(1) by (auto simp: shell_first_def)
  then show ?thesis
    using assms j n removeJob_first [OF assms(1), of p] shell_first_filter [OF assms(1), of p]
    by (auto simp: shellfgCommand_def Let_def)
next
  case False
  then show ?thesis using assms by (auto simp: shellfgCommand_def Let_def split: option.split)
qed

lemma shellbgCommand_first:
  assumes "shell_first me (jobSet s)"
  shows "shell_first me (jobSet (shellbgCommand os p s)) \<and> isSuspended (shellbgCommand os p s) = isSuspended s"
proof (cases "findPID (jobSet s) p")
  case (Some j)
  then show ?thesis using assms findPID_first [OF assms Some]
    by (auto simp: shellbgCommand_def Let_def intro!: shell_first_changeStatus)
qed (simp add: shellbgCommand_def assms)

text \<open>
  When \<open>fork\<close> fails, a background command is entered with the pid -1. Before the next line
  \<open>waitpid\<close> with -1 asks about any child and, without one, returns -1; the job is then removed by
  its pid, and for a negative pid \<open>removeJob\<close> drops the first entry: the shell.
\<close>

theorem failed_fork_drops_shell:
  assumes "jobSet s = [sh]" and "0 < jpid sh" and "jstatus sh = STATUS_FOREGROUND" and "wait (-1) \<noteq> 0"
  shows "\<exists>t job. insert_background_job os (Some n) (-1) s = Inr t \<and> jobSet t = [sh, job] \<and> jpid job = -1
    \<and> reap wait (jobSet t) = Inr [job]"
  using assms
  by (simp add: insert_background_job_def reap_def reap_from.simps [of wait "[_, _]"] reap_from.simps [of wait "[_]"] removeJob_def
      eval_nat_numeral)

theorem failed_fork_drops_shell_witness:
  "\<exists>t job. insert_background_job example_os (Some ''ls'') (-1)
       \<lparr>jobSet = [example_shell_job], isSuspended = False, parentPID = 100, log = []\<rparr> = Inr t
     \<and> reap (\<lambda>_. -1) (jobSet t) = Inr [job]"
  using failed_fork_drops_shell [of "\<lparr>jobSet = [example_shell_job], isSuspended = False, parentPID = 100, log = []\<rparr>"
      example_shell_job "\<lambda>_. -1" example_os "''ls''"] by auto

end
