(* ===== verification/Shell_Parse.thy ===== *)
theory Shell_Parse
  imports NP_Prelude "HOL-Library.Sublist"
begin

text \<open>
  The text processing of \<open>MyShell/shell.c\<close>: reading a line into a growing buffer, splitting
  it into arguments, the configuration file with the search path, and the directory shown
  in the prompt. Buffers carry their capacity where the code computes it; an access outside
  a buffer is the error \<open>Overflow\<close>. The argument strings themselves are modelled without the
  capacity of their one-byte allocations.
\<close>

section \<open>Reading a line\<close>

text \<open>
  \<open>lineget\<close>: \<open>len\<close> counts down to the next reallocation, \<open>cap\<close> is the size of the
  allocation, \<open>acc\<close> the characters written so far.
\<close>

definition lineget_end :: "nat \<Rightarrow> string \<Rightarrow> string \<Rightarrow> cerror + string \<times> string \<times> nat" where
  "lineget_end cap acc input = (if length acc < cap then Inr (acc, input, cap) else Inl Overflow)"

fun lineget_loop :: "nat \<Rightarrow> nat \<Rightarrow> nat \<Rightarrow> string \<Rightarrow> string \<Rightarrow> cerror + string \<times> string \<times> nat" where
  "lineget_loop len lenmax cap acc [] = lineget_end cap acc []"
| "lineget_loop len lenmax cap acc (c # cs) =
     (let (len', lenmax', cap') =
            (if len - 1 = 0 then (lenmax, 2 * lenmax, 2 * lenmax) else (len - 1, lenmax, cap)) in
      if length acc < cap' then
        (if c = NL then lineget_end cap' (acc @ [c]) cs
         else lineget_loop len' lenmax' cap' (acc @ [c]) cs)
      else Inl Overflow)"

text \<open>The buffer of the previous call is used again; the first call allocates 300 bytes.\<close>

definition lineget :: "nat option \<Rightarrow> string \<Rightarrow> cerror + string \<times> string \<times> nat" where
  "lineget buffer input =
     lineget_loop 300 300 (case buffer of None \<Rightarrow> 300 | Some cap \<Rightarrow> cap) [] input"

section \<open>Arguments\<close>

fun count_words :: "string \<Rightarrow> nat" where
  "count_words [] = 0"
| "count_words [c] = 0"
| "count_words (c # d # cs) =
     (if c = CHR '' '' \<and> d \<noteq> CHR '' '' then 1 else 0) + count_words (d # cs)"

definition getArgumentLength :: "string \<Rightarrow> nat" where
  "getArgumentLength command = 1 + count_words command"

text \<open>
  \<open>initArgs\<close> with the number \<open>cap\<close> of slots of \<open>argVector\<close>, the flag \<open>is_daemon\<close>, the words
  completed so far and the word being written. The last write stores NULL behind the last word.
\<close>

fun init_args :: "nat \<Rightarrow> bool \<Rightarrow> string list \<Rightarrow> string \<Rightarrow> string \<Rightarrow> cerror + bool \<times> string list" where
  "init_args cap d ws w [] = (if length ws + 1 < cap then Inr (d, ws @ [w]) else Inl Overflow)"
| "init_args cap d ws w (c # cs) =
     (if c = CHR '' '' \<and> cs \<noteq> [] \<and> hd cs = CHR '' '' then init_args cap d ws w cs
      else if cap \<le> length ws then Inl Overflow
      else if c = CHR '' ''
      then (if ws = [] \<and> \<not> d \<and> w = ''daemonize'' then init_args cap True [] [] cs
            else init_args cap d (ws @ [w]) [] cs)
      else init_args cap d ws (w @ [c]) cs)"

definition strip_newline :: "string \<Rightarrow> string" where
  "strip_newline buffer = takeWhile (\<lambda>c. c \<noteq> NL) buffer"

definition initArgs :: "bool \<Rightarrow> string \<Rightarrow> cerror + bool \<times> string list" where
  "initArgs is_daemon buffer =
     init_args (getArgumentLength buffer + 1) is_daemon [] [] (strip_newline buffer)"

section \<open>Strings and paths\<close>

text \<open>The buffer holds the characters only: there is no byte for a terminating NUL.\<close>

definition str_concat :: "string \<Rightarrow> string \<Rightarrow> bytes" where
  "str_concat s1 s2 = s1 @ s2"

definition fgets :: "nat \<Rightarrow> bytes \<Rightarrow> bytes \<times> bytes" where
  "fgets n f = (let l = take (n - 1) f; line = takeWhile (\<lambda>c. c \<noteq> NL) l in
     if NL \<in> set l then (line @ [NL], drop (length line + 1) f) else (l, drop (n - 1) f))"

lemma fgets_shorter: "f \<noteq> [] \<Longrightarrow> fgets 256 f = (b, f') \<Longrightarrow> length f' < length f"
  by (cases f) (auto simp: fgets_def Let_def split: if_splits)

abbreviation MAX_NUM_PATHS :: nat where "MAX_NUM_PATHS \<equiv> 100"

text \<open>
  The scan of a chunk without a newline runs into whatever the buffer held before. A path has
  a slot of 50 bytes.
\<close>

function setPATH_loop :: "string list \<Rightarrow> bytes \<Rightarrow> cerror + string list" where
  "setPATH_loop PATH f =
     (if f = [] then Inr PATH
      else let (buffer, f') = fgets 256 f in
        if NL \<notin> set buffer then Inl Uninitialised
        else let line = takeWhile (\<lambda>c. c \<noteq> NL) buffer in
          if MAX_NUM_PATHS \<le> length PATH \<or> 50 \<le> length line then Inl Overflow
          else setPATH_loop (PATH @ [cstr line]) f')"
  by pat_completeness auto

termination
  by (relation "measure (\<lambda>(p, f). length f)") (simp_all, metis fgets_shorter)

declare setPATH_loop.simps [simp del]

text \<open>None stands for a missing file, on which the shell exits.\<close>

definition setPATH :: "bytes option \<Rightarrow> cerror + string list option" where
  "setPATH file = (case file of None \<Rightarrow> Inr None
     | Some f \<Rightarrow> rbind (setPATH_loop [] f) (\<lambda>p. Inr (Some p)))"

section \<open>The directory in the prompt\<close>

function replace_loop :: "string \<Rightarrow> nat \<Rightarrow> nat \<Rightarrow> bytes \<Rightarrow> bytes" where
  "replace_loop str n i cur =
     (if length str \<le> i then cur
      else if i + n - 1 < length str then replace_loop str n (Suc i) (cur[i := str ! (i + n - 1)])
      else cur[i := NUL])"
  by pat_completeness auto

termination
  by (relation "measure (\<lambda>(str, n, i, cur). length str - i)") auto

declare replace_loop.simps [simp del]

definition replaceSubstring :: "string \<Rightarrow> string \<Rightarrow> bytes \<Rightarrow> bytes" where
  "replaceSubstring HOME str cur =
     (if sublist HOME str
      then (let cur = cur[0 := CHR ''~''] in
            if length str = length HOME then cur[1 := NUL]
            else replace_loop str (length HOME) 1 cur)
      else cur)"

text \<open>The directory the command \<open>cd\<close> changes to, built in a buffer of 300 bytes.\<close>

definition cd_target :: "string \<Rightarrow> string \<Rightarrow> cerror + string" where
  "cd_target HOME arg =
     (if arg \<noteq> [] \<and> hd arg = CHR ''~''
      then (if length HOME + length (tl arg) < 300 then Inr (HOME @ tl arg) else Inl Overflow)
      else Inr arg)"

section \<open>The line buffer is large enough\<close>

lemma lineget_loop_line:
  assumes "len + length acc = lenmax" and "0 < len" and "lenmax \<le> cap" and "m \<le> lenmax"
  shows "\<exists>cap'. lineget_loop len lenmax cap acc input
      = Inr (acc @ takeWhile (\<lambda>c. c \<noteq> NL) input @ (if NL \<in> set input then [NL] else []),
             drop (length (takeWhile (\<lambda>c. c \<noteq> NL) input) + 1) input, cap')
    \<and> length acc + length (takeWhile (\<lambda>c. c \<noteq> NL) input) + (if NL \<in> set input then 1 else 0) < cap'
    \<and> m \<le> cap'"
  using assms
proof (induction input arbitrary: len lenmax cap acc)
  case Nil
  then show ?case by (simp add: lineget_end_def)
next
  case (Cons c cs)
  define step where "step = (if len - 1 = 0 then (lenmax, 2 * lenmax, 2 * lenmax) else (len - 1, lenmax, cap))"
  obtain len' lenmax' cap' where s: "step = (len', lenmax', cap')" by (cases step)
  have inv: "len' + length (acc @ [c]) = lenmax'" "0 < len'" "lenmax' \<le> cap'" "m \<le> lenmax'"
    using Cons.prems s by (auto simp: step_def split: if_splits)
  show ?case
  proof (cases "c = NL")
    case True
    then show ?thesis
      using inv s unfolding step_def by (simp add: lineget_end_def)
  next
    case False
    from Cons.IH [OF inv] obtain k where
      "lineget_loop len' lenmax' cap' (acc @ [c]) cs
        = Inr ((acc @ [c]) @ takeWhile (\<lambda>c. c \<noteq> NL) cs @ (if NL \<in> set cs then [NL] else []),
               drop (length (takeWhile (\<lambda>c. c \<noteq> NL) cs) + 1) cs, k)"
      "length (acc @ [c]) + length (takeWhile (\<lambda>c. c \<noteq> NL) cs) + (if NL \<in> set cs then 1 else 0) < k" "m \<le> k"
      by blast
    then show ?thesis
      using False inv s unfolding step_def by auto
  qed
qed

text \<open>
  C24. For every input \<open>lineget\<close> returns the text up to and including the first newline, or
  all of it, leaves the rest unread, and never writes outside its buffer: the terminating
  NUL fits too, and the buffer it returns is large enough for the next call. At the end of
  the input it returns an empty line, not the NULL the main loop stops at.
\<close>

theorem lineget_reads_line:
  assumes "case buffer of None \<Rightarrow> True | Some cap \<Rightarrow> 300 \<le> cap"
  shows "\<exists>line cap'. lineget buffer input
      = Inr (line, drop (length (takeWhile (\<lambda>c. c \<noteq> NL) input) + 1) input, cap')
    \<and> line = takeWhile (\<lambda>c. c \<noteq> NL) input @ (if NL \<in> set input then [NL] else [])
    \<and> length line < cap' \<and> 300 \<le> cap'"
proof -
  define cap where "cap = (case buffer of None \<Rightarrow> 300 | Some cap \<Rightarrow> cap)"
  have "(300::nat) \<le> cap" using assms by (simp add: cap_def split: option.splits)
  then show ?thesis
    using lineget_loop_line [of 300 "[]" 300 cap 300 input]
    by (auto simp: lineget_def cap_def [symmetric] simp del: lineget_loop.simps)
qed

theorem lineget_reads_line_witness:
  "\<exists>cap'. lineget (Some 300) (''ls'' @ [NL] @ ''exit'') = Inr (''ls'' @ [NL], ''exit'', cap') \<and> 2 < cap'"
  using lineget_reads_line [of "Some 300" "''ls'' @ [NL] @ ''exit''"] by auto

section \<open>Splitting into arguments\<close>

text \<open>The separators of a line: the spaces not followed by a space.\<close>

fun separators :: "string \<Rightarrow> nat" where
  "separators [] = 0"
| "separators (c # cs) =
     (if c = CHR '' '' \<and> \<not> (cs \<noteq> [] \<and> hd cs = CHR '' '') then 1 else 0) + separators cs"

lemma count_words_newline: "count_words (l @ [NL]) = separators l"
proof (induction l rule: count_words.induct)
  case (3 c d cs)
  then show ?case by simp
qed simp_all

lemma init_args_in_bounds:
  "length ws + separators cs + 1 < cap \<Longrightarrow> \<exists>d' args. init_args cap d ws w cs = Inr (d', args) \<and> args \<noteq> []
     \<and> length args < cap"
proof (induction cap d ws w cs rule: init_args.induct)
  case (2 cap d ws w c cs)
  then show ?case by (auto split: if_splits)
qed auto

lemma strip_newline_line [simp]: "NL \<notin> set l \<Longrightarrow> strip_newline (l @ NL # r) = l"
  by (induction l) (auto simp: strip_newline_def)

text \<open>
  For every line that ends with a newline the argument vector that
  \<open>getArgumentLength\<close> sizes is large enough for \<open>initArgs\<close>: all words and the closing NULL
  fit into its slots.
\<close>

theorem initArgs_in_bounds:
  assumes "NL \<notin> set l"
  shows "\<exists>d args. initArgs is_daemon (l @ [NL]) = Inr (d, args)
    \<and> args \<noteq> [] \<and> length args + 1 \<le> getArgumentLength (l @ [NL]) + 1"
  using init_args_in_bounds [of "[]" l "getArgumentLength (l @ [NL]) + 1" is_daemon "[]"] assms
  by (auto simp: initArgs_def getArgumentLength_def count_words_newline)

theorem initArgs_in_bounds_witness:
  "\<exists>d args. initArgs False (''  ls   -l '' @ [NL]) = Inr (d, args) \<and> length args \<le> 4"
proof -
  have "getArgumentLength (''  ls   -l '' @ [NL]) = 4" by (simp add: getArgumentLength_def)
  then show ?thesis using initArgs_in_bounds [of "''  ls   -l ''" False] by auto
qed

text \<open>Words printed with one or more spaces between them.\<close>

fun spaced :: "(string \<times> nat) list \<Rightarrow> string" where
  "spaced [] = []"
| "spaced [(w, n)] = w"
| "spaced ((w, n) # p # ps) = w @ replicate (Suc n) (CHR '' '') @ spaced (p # ps)"

definition plain_word :: "string \<Rightarrow> bool" where
  "plain_word w \<longleftrightarrow> w \<noteq> [] \<and> CHR '' '' \<notin> set w \<and> NL \<notin> set w"

lemma init_args_word:
  "CHR '' '' \<notin> set v \<Longrightarrow> length ws < cap \<Longrightarrow>
     init_args cap d ws w (v @ cs) = init_args cap d ws (w @ v) cs"
  by (induction v arbitrary: w) auto

lemma init_args_spaces:
  assumes "cs \<noteq> [] \<and> hd cs \<noteq> CHR '' ''" and "length ws < cap"
  shows "init_args cap d ws w (replicate (Suc n) (CHR '' '') @ cs)
    = (if ws = [] \<and> \<not> d \<and> w = ''daemonize'' then init_args cap True [] [] cs
       else init_args cap d (ws @ [w]) [] cs)"
proof (induction n)
  case (Suc n)
  have "init_args cap d ws w (replicate (Suc (Suc n)) (CHR '' '') @ cs)
      = init_args cap d ws w (replicate (Suc n) (CHR '' '') @ cs)" by simp
  then show ?case using Suc by (simp only:)
qed (use assms in auto)

lemma spaced_hd: "plain_word (fst p) \<Longrightarrow> spaced (p # ps) \<noteq> [] \<and> hd (spaced (p # ps)) \<noteq> CHR '' ''"
  by (cases p; cases ps; cases "fst p") (auto simp: plain_word_def)

lemma init_args_spaced:
  assumes "\<forall>p \<in> set ps. plain_word (fst p)" and "ps \<noteq> []" and "length ws + length ps < cap"
    and "ws \<noteq> [] \<or> d \<or> fst (hd ps) \<noteq> ''daemonize''"
  shows "init_args cap d ws [] (spaced ps) = Inr (d, ws @ map fst ps)"
  using assms
proof (induction ps arbitrary: ws rule: spaced.induct)
  case (2 w n)
  then show ?case using init_args_word [of w ws cap d "[]" "[]"] by (simp add: plain_word_def)
next
  case (3 w n p ps)
  have "init_args cap d ws [] (spaced ((w, n) # p # ps))
      = init_args cap d ws w (replicate (Suc n) (CHR '' '') @ spaced (p # ps))"
    using 3 by (simp add: init_args_word plain_word_def del: replicate.simps)
  also have "\<dots> = init_args cap d (ws @ [w]) [] (spaced (p # ps))"
    using 3 spaced_hd [of p ps] by (subst init_args_spaces) auto
  also have "\<dots> = Inr (d, (ws @ [w]) @ map fst (p # ps))"
    using 3 by (intro "3.IH") auto
  finally show ?case by simp
qed simp

lemma separators_append:
  "v \<noteq> [] \<Longrightarrow> hd v \<noteq> CHR '' '' \<Longrightarrow> separators (u @ v) = separators u + separators v"
proof (induction u)
  case (Cons c u)
  then show ?case by (cases u) auto
qed simp

lemma separators_word [simp]: "CHR '' '' \<notin> set w \<Longrightarrow> separators w = 0"
  by (induction w) auto

lemma separators_word_spaces [simp]:
  "CHR '' '' \<notin> set w \<Longrightarrow> separators (w @ replicate (Suc n) (CHR '' '')) = 1"
proof (induction w)
  case Nil
  then show ?case by (induction n) simp_all
qed auto

lemma separators_spaced: "\<forall>p \<in> set ps. plain_word (fst p) \<Longrightarrow> separators (spaced ps) = length ps - 1"
proof (induction ps rule: spaced.induct)
  case (3 w n p ps)
  have "separators (spaced ((w, n) # p # ps))
      = separators (w @ replicate (Suc n) (CHR '' '')) + separators (spaced (p # ps))"
    using 3 spaced_hd [of p ps] separators_append [of "spaced (p # ps)" "w @ replicate (Suc n) (CHR '' '')"]
    by simp
  then show ?case using 3 by (simp add: plain_word_def del: replicate.simps)
qed (simp_all add: plain_word_def)

lemma NL_spaced: "\<forall>p \<in> set ps. plain_word (fst p) \<Longrightarrow> NL \<notin> set (spaced ps)"
  by (induction ps rule: spaced.induct) (auto simp: plain_word_def)

lemma spaced_word:
  assumes "spaced ps = w" and "CHR '' '' \<notin> set w" and "ps \<noteq> []"
  shows "fst (hd ps) = w"
  using assms by (cases ps rule: spaced.cases) auto

lemma nul_free_spaced: "\<forall>p \<in> set ps. nul_free (fst p) \<Longrightarrow> nul_free (spaced ps)"
  by (induction ps rule: spaced.induct) (auto simp: nul_free_def)

lemma getArgumentLength_words:
  "\<forall>p \<in> set ps. plain_word (fst p) \<Longrightarrow> ps \<noteq> [] \<Longrightarrow> getArgumentLength (spaced ps @ [NL]) = length ps"
  by (simp add: getArgumentLength_def count_words_newline separators_spaced)

lemma initArgs_words:
  assumes "\<forall>p \<in> set ps. plain_word (fst p)" and "ps \<noteq> []" and "d \<or> fst (hd ps) \<noteq> ''daemonize''"
  shows "initArgs d (spaced ps @ [NL]) = Inr (d, map fst ps)"
  using init_args_spaced [OF assms(1,2), of "[]" "length ps + 1" d] assms(3)
  by (simp add: initArgs_def getArgumentLength_words [OF assms(1,2)] NL_spaced [OF assms(1)])

text \<open>
  C25. Splitting a line printed from words with any number of spaces between them gives
  back the words, and the number of arguments computed beforehand is their number; a
  leading \<open>daemonize\<close> is dropped and sets the daemon flag instead.
\<close>

theorem initArgs_roundtrip:
  assumes "\<forall>p \<in> set ps. plain_word (fst p)" and "ps \<noteq> []"
  shows "getArgumentLength (spaced ps @ [NL]) = length ps
    \<and> (is_daemon \<or> fst (hd ps) \<noteq> ''daemonize'' \<longrightarrow>
        initArgs is_daemon (spaced ps @ [NL]) = Inr (is_daemon, map fst ps))
    \<and> (\<not> is_daemon \<longrightarrow> initArgs False (spaced ((''daemonize'', n) # ps) @ [NL]) = Inr (True, map fst ps))"
proof -
  note len = getArgumentLength_words
  let ?qs = "(''daemonize'', n) # ps"
  have qs: "\<forall>p \<in> set ?qs. plain_word (fst p)" using assms(1) by (simp add: plain_word_def)
  obtain p ps' where ps: "ps = p # ps'" using assms(2) by (cases ps) auto
  have cap: "getArgumentLength (spaced ?qs @ [NL]) + 1 = length ps + 2"
    using len [OF qs] by simp
  have "initArgs False (spaced ?qs @ [NL])
      = init_args (length ps + 2) False [] [] (spaced ?qs)"
    using NL_spaced [OF qs] unfolding initArgs_def cap by simp
  also have "\<dots> = init_args (length ps + 2) False [] ''daemonize'' (replicate (Suc n) (CHR '' '') @ spaced ps)"
    using init_args_word [of "''daemonize''" "[]" "length ps + 2" False "[]" "replicate (Suc n) (CHR '' '') @ spaced ps"]
    by (simp add: ps del: replicate.simps)
  also have "\<dots> = init_args (length ps + 2) True [] [] (spaced ps)"
    using spaced_hd [of p ps'] assms(1) by (subst init_args_spaces) (auto simp: ps)
  also have "\<dots> = Inr (True, map fst ps)"
    using init_args_spaced [OF assms] by simp
  finally have d: "initArgs False (spaced ?qs @ [NL]) = Inr (True, map fst ps)" .
  have "initArgs is_daemon (spaced ps @ [NL]) = Inr (is_daemon, map fst ps)"
    if "is_daemon \<or> fst (hd ps) \<noteq> ''daemonize''"
    using initArgs_words [OF assms] that by simp
  with d len [OF assms] show ?thesis by blast
qed

theorem initArgs_roundtrip_witness:
  "initArgs False (''grep   -n x'' @ [NL]) = Inr (False, [''grep'', ''-n'', ''x''])"
  using initArgs_roundtrip [of "[(''grep'', 2), (''-n'', 0), (''x'', 0)]" False 0]
  by (simp add: plain_word_def numeral_eq_Suc)

section \<open>The search path\<close>

definition path_line :: "string \<Rightarrow> bool" where
  "path_line l \<longleftrightarrow> NL \<notin> set l \<and> nul_free l \<and> length l < 50"

lemma fgets_line:
  assumes "NL \<notin> set l" and "length l < n - 1"
  shows "fgets n (l @ NL # r) = (l @ [NL], r)"
proof -
  have "take (n - 1) (l @ NL # r) = l @ NL # take (n - 2 - length l) r"
  proof -
    have "n - 1 - length l = Suc (n - 2 - length l)" using assms(2) by simp
    then show ?thesis using assms(2) by simp
  qed
  moreover have "takeWhile (\<lambda>c. c \<noteq> NL) (l @ NL # x) = l" for x
    using assms(1) by (subst takeWhile_append2) auto
  ultimately show ?thesis by (simp add: fgets_def Let_def)
qed

lemma setPATH_loop_lines:
  assumes "\<forall>l \<in> set ls. path_line l" and "length PATH + length ls \<le> MAX_NUM_PATHS"
  shows "setPATH_loop PATH (concat (map (\<lambda>l. l @ [NL]) ls)) = Inr (PATH @ ls)"
  using assms
proof (induction ls arbitrary: PATH)
  case (Cons l ls)
  let ?r = "concat (map (\<lambda>l. l @ [NL]) ls)"
  have l: "NL \<notin> set l" "nul_free l" "length l < 50" using Cons.prems(1) by (simp_all add: path_line_def)
  have "fgets 256 (l @ NL # ?r) = (l @ [NL], ?r)" using l by (intro fgets_line) simp_all
  moreover have "takeWhile (\<lambda>c. c \<noteq> NL) (l @ [NL]) = l" using l(1) by (subst takeWhile_append2) auto
  ultimately have "setPATH_loop PATH (l @ NL # ?r) = setPATH_loop (PATH @ [l]) ?r"
    using l Cons.prems(2) by (simp add: setPATH_loop.simps [of PATH "l @ NL # ?r"])
  then show ?case using Cons by simp
qed (simp add: setPATH_loop.simps)

text \<open>
  From a configuration file of at most 100 lines of at most 49 characters, each ended
  by a newline, the search path is read exactly, in order; a file that does not end with a
  newline is scanned beyond the text that was read.
\<close>

theorem setPATH_reads_lines:
  assumes "\<forall>l \<in> set ls. path_line l" and "length ls < MAX_NUM_PATHS"
  shows "setPATH (Some (concat (map (\<lambda>l. l @ [NL]) ls))) = Inr (Some ls)
    \<and> (\<forall>l. path_line l \<and> l \<noteq> [] \<longrightarrow> setPATH (Some (concat (map (\<lambda>l. l @ [NL]) ls) @ l)) = Inl Uninitialised)"
proof -
  have step: "setPATH_loop PATH (concat (map (\<lambda>l. l @ [NL]) ls) @ l) = Inl Uninitialised"
    if "path_line l" "l \<noteq> []" "\<forall>l \<in> set ls. path_line l" "length PATH + length ls \<le> MAX_NUM_PATHS" for l ls PATH
    using that
  proof (induction ls arbitrary: PATH)
    case Nil
    then have "fgets 256 l = (l, [])" by (auto simp: fgets_def path_line_def Let_def)
    with Nil show ?case by (simp add: setPATH_loop.simps path_line_def)
  next
    case (Cons k ls)
    let ?r = "concat (map (\<lambda>l. l @ [NL]) ls) @ l"
    have k: "NL \<notin> set k" "nul_free k" "length k < 50" using Cons.prems(3) by (simp_all add: path_line_def)
    have "fgets 256 (k @ NL # ?r) = (k @ [NL], ?r)" using k by (intro fgets_line) simp_all
    moreover have "takeWhile (\<lambda>c. c \<noteq> NL) (k @ [NL]) = k" using k(1) by (subst takeWhile_append2) auto
    ultimately have "setPATH_loop PATH (k @ NL # ?r) = setPATH_loop (PATH @ [k]) ?r"
      using k Cons.prems(4) by (simp add: setPATH_loop.simps [of PATH "k @ NL # ?r"])
    then show ?case using Cons by simp
  qed
  show ?thesis
    using setPATH_loop_lines [OF assms(1), of "[]"] step [of _ ls "[]"] assms by (simp add: setPATH_def)
qed

theorem setPATH_reads_lines_witness:
  "setPATH (Some (''/bin/'' @ [NL] @ ''/usr/bin/'' @ [NL])) = Inr (Some [''/bin/'', ''/usr/bin/''])"
  using setPATH_reads_lines [of "[''/bin/'', ''/usr/bin/'']"] by (simp add: path_line_def)

section \<open>The prompt\<close>

lemma nth_replace_loop:
  assumes "2 \<le> n" and "n \<le> length str" and "length str \<le> length cur" and "1 \<le> i"
    and "i \<le> length str - n + 1"
  shows "length (replace_loop str n i cur) = length cur
    \<and> take i (replace_loop str n i cur) = take i cur
    \<and> (\<forall>k. i \<le> k \<and> k < length str - n + 1 \<longrightarrow> replace_loop str n i cur ! k = str ! (k + n - 1))
    \<and> replace_loop str n i cur ! (length str - n + 1) = NUL"
  using assms
proof (induction str n i cur rule: replace_loop.induct)
  case (1 str n i cur)
  show ?case
  proof (cases "i + n - 1 < length str")
    case True
    let ?cur = "cur[i := str ! (i + n - 1)]"
    let ?r = "replace_loop str n (Suc i) ?cur"
    have step: "replace_loop str n i cur = ?r"
      using True "1.prems" by (subst replace_loop.simps) auto
    have IH: "length ?r = length cur" "take (Suc i) ?r = take (Suc i) ?cur"
        "\<And>k. Suc i \<le> k \<Longrightarrow> k < length str - n + 1 \<Longrightarrow> ?r ! k = str ! (k + n - 1)"
        "?r ! (length str - n + 1) = NUL"
      using "1.IH" True "1.prems" by auto
    have "?r ! k = take (Suc i) ?r ! k" if "k \<le> i" for k using that by simp
    then have old: "?r ! k = ?cur ! k" if "k \<le> i" for k
      using that nth_take [of k "Suc i" ?cur] unfolding IH(2) by simp
    have "take i ?r = take i cur"
      using IH(1) old by (intro nth_equalityI) auto
    moreover have "?r ! i = str ! (i + n - 1)" using old [of i] "1.prems" True by simp
    then have "?r ! k = str ! (k + n - 1)" if "i \<le> k" "k < length str - n + 1" for k
      using that IH(3) [of k] by (cases "k = i") auto
    ultimately show ?thesis using IH(1,4) unfolding step by blast
  next
    case False
    then have i: "i = length str - n + 1" "i < length str" using "1.prems" by auto
    then have "replace_loop str n i cur = cur[i := NUL]" using False by (subst replace_loop.simps) auto
    then show ?thesis using i "1.prems" by auto
  qed
qed

lemma cstr_take_NUL:
  assumes "nul_free (take n b)" and "n < length b" and "b ! n = NUL"
  shows "cstr b = take n b"
proof -
  have "b = take n b @ NUL # drop (Suc n) b" using id_take_nth_drop [OF assms(2)] assms(3) by simp
  then show ?thesis using assms(1) by (metis cstr_append_NUL cstr_nul_free)
qed

text \<open>
  In the home directory or below it the prompt shows the path with the home part
  abbreviated to a tilde. Outside it the prompt is not updated: it keeps showing whatever
  directory it showed before.
\<close>

theorem replaceSubstring_prompt:
  assumes "length cur = 300" and "2 \<le> length HOME" and "nul_free HOME" and "nul_free rest"
    and "length (HOME @ rest) < 300"
  shows "cstr (replaceSubstring HOME (HOME @ rest) cur) = CHR ''~'' # rest
    \<and> (\<not> sublist HOME dir \<longrightarrow> cstr (replaceSubstring HOME dir cur) = cstr cur)"
proof -
  let ?str = "HOME @ rest" and ?cur = "cur[0 := CHR ''~'']"
  let ?r = "replaceSubstring HOME ?str cur"
  have "sublist HOME ?str" by (auto simp: sublist_def intro: exI [of _ "[]"])
  have "take (length rest + 1) ?r = CHR ''~'' # rest \<and> length ?r = 300 \<and> ?r ! (length rest + 1) = NUL"
  proof (cases "rest = []")
    case True
    obtain a b cs where "cur = a # b # cs"
      using assms(1) by (cases cur; cases "tl cur") auto
    then show ?thesis using True \<open>sublist HOME ?str\<close> assms(1) by (simp add: replaceSubstring_def)
  next
    case False
    let ?l = "replace_loop ?str (length HOME) 1 ?cur"
    have r: "?r = ?l" using False \<open>sublist HOME ?str\<close> by (simp add: replaceSubstring_def)
    have l: "length ?l = 300" "take 1 ?l = take 1 ?cur" "?l ! (length rest + 1) = NUL"
        "\<And>k. 1 \<le> k \<Longrightarrow> k < length rest + 1 \<Longrightarrow> ?l ! k = ?str ! (k + length HOME - 1)"
      using nth_replace_loop [of "length HOME" ?str ?cur 1] assms(1,2,5) False by auto
    have "?l ! 0 = CHR ''~''" using arg_cong [OF l(2), of "\<lambda>x. x ! 0"] l(1) assms(1) by simp
    then have "take (length rest + 1) ?l = CHR ''~'' # rest"
      using l(1,4) assms(5) by (intro nth_equalityI) (auto simp: nth_Cons nth_append split: nat.split)
    then show ?thesis using l(1,3) r by simp
  qed
  then have "cstr ?r = CHR ''~'' # rest"
    using cstr_take_NUL [of "length rest + 1" ?r] assms(2,4,5) by simp
  then show ?thesis by (simp add: replaceSubstring_def)
qed

theorem replaceSubstring_prompt_witness:
  "cstr (replaceSubstring ''/root'' ''/root/src'' (replicate 300 NUL)) = ''~/src''"
  using replaceSubstring_prompt [of "replicate 300 NUL" "''/root''" "''/src''" "[]"] by simp

end
