(* ===== verification/Shell_Pipe.thy ===== *)
theory Shell_Pipe
  imports Shell_Jobs Shell_Parse
begin

text \<open>
  Pipes, redirection and the message-queue and shared-memory broadcasts of
  \<open>MyShell/shell.c\<close>. A command is the list of its words up to the closing NULL. Processes
  are not run: a child is described by the program it becomes and by what its standard
  input and output are connected to.
\<close>

section \<open>State\<close>

datatype ptype = NONE | PIPE | MSG | SHM

record shell = shell_jobs +
  PATH :: "string list"
  isBackground :: bool
  bgcount :: int
  argVector :: "string list"
  argLength :: nat
  redirection_in_pipe :: bool
  redirection_out_pipe :: bool
  badRedirectpipe :: bool
  pipeCount :: nat
  redirect :: bool
  pipeargCount :: nat
  lastPipe :: nat
  ignorePATH :: bool
  noinit_cmd :: bool
  is_daemon :: bool
  pipeType :: ptype
  commands :: "string list list"
  current_directory :: bytes

section \<open>Finding a program\<close>

text \<open>The loops over the search path: the first directory in which the program can be executed.\<close>

fun exec_search :: "os \<Rightarrow> string list \<Rightarrow> string \<Rightarrow> string option" where
  "exec_search os [] name = None"
| "exec_search os (p # ps) name =
     (if runnable os (str_concat p name) then Some (str_concat p name) else exec_search os ps name)"

text \<open>
  A child that finds no program either exits or returns into the main loop of the shell; a
  command without words crashes the child.
\<close>

definition exec_child :: "child \<Rightarrow> os \<Rightarrow> string list \<Rightarrow> string list \<Rightarrow> child" where
  "exec_child otherwise os path args = (case args of
       [] \<Rightarrow> (if path = [] then otherwise else Exits)
     | name # _ \<Rightarrow> (case exec_search os path name of
          Some prog \<Rightarrow> Runs prog args
        | None \<Rightarrow> otherwise))"

section \<open>Splitting at pipes\<close>

definition is_pipe :: "string \<Rightarrow> bool" where
  "is_pipe a \<longleftrightarrow> a = ''|'' \<or> a = ''#'' \<or> a = ''S''"

fun pipe_type :: "ptype \<Rightarrow> string list \<Rightarrow> ptype" where
  "pipe_type t [] = t"
| "pipe_type t (a # as) =
     pipe_type (if a = ''|'' then PIPE else if a = ''#'' then MSG else if a = ''S'' then SHM else t) as"

definition count_pipes :: "shell \<Rightarrow> shell" where
  "count_pipes s =
     (let counter = length (filter is_pipe (argVector s));
          s = s\<lparr>pipeType := pipe_type (pipeType s) (argVector s)\<rparr>
      in if counter = 0 then s\<lparr>noinit_cmd := True\<rparr> else s\<lparr>commands := []\<rparr>)"

text \<open>The words of the command that ends at the pipe at position \<open>i\<close>; a row has 20 slots.\<close>

definition command_before :: "nat \<Rightarrow> shell \<Rightarrow> string list" where
  "command_before i s =
     (if lastPipe s = 0 then take i (argVector s) else drop (lastPipe s + 1) (take i (argVector s)))"

definition end_command :: "nat \<Rightarrow> shell \<Rightarrow> cerror + shell" where
  "end_command i s =
     (if 20 \<le> length (command_before i s) then Inl Overflow
      else Inr (s\<lparr>commands := commands s @ [command_before i s], lastPipe := i, pipeCount := pipeCount s + 1\<rparr>))"

function pipe_loop :: "nat \<Rightarrow> shell \<Rightarrow> cerror + shell" where
  "pipe_loop i s =
     (if length (argVector s) \<le> i then Inr s
      else let s1 = s\<lparr>pipeargCount := pipeargCount s + 1\<rparr> in
        if \<not> is_pipe (argVector s ! i) then pipe_loop (Suc i) s1
        else if 2 < i \<and> argVector s ! (i - 2) = ''<'' \<and> redirection_in_pipe s
        then Inr (emits [Printf (''myShell: Multiple Indirection Operators with Pipes'' @ [NL])]
                    (s1\<lparr>badRedirectpipe := True\<rparr>))
        else case end_command i (if 2 < i \<and> argVector s ! (i - 2) = ''<''
                                 then s1\<lparr>redirection_in_pipe := True\<rparr> else s1) of
            Inl e \<Rightarrow> Inl e
          | Inr s2 \<Rightarrow> pipe_loop (Suc i) s2)"
  by pat_completeness auto

termination
  by (relation "measure (\<lambda>(i, s). length (argVector s) - i)")
     (auto simp: end_command_def split: if_splits)

declare pipe_loop.simps [simp del]

definition pipe_filter :: "shell \<Rightarrow> cerror + shell" where
  "pipe_filter s = pipe_loop 0 (count_pipes s)"

section \<open>Running a pipeline\<close>

text \<open>
  The first word equal to one of the operators cuts the command; the word behind it is the
  file. The result is the command without the operator, the operator and the file, if any.
\<close>

fun cut_at :: "string set \<Rightarrow> string list \<Rightarrow> string list \<times> (string \<times> string option) option" where
  "cut_at ops [] = ([], None)"
| "cut_at ops (w # ws) =
     (if w \<in> ops then ([], Some (w, case ws of [] \<Rightarrow> None | f # _ \<Rightarrow> Some f))
      else let (ws', r) = cut_at ops ws in (w # ws', r))"

definition no_redirect_file :: event where
  "no_redirect_file = Printf (''myShell: Redirection File does not exist'' @ [NL])"

definition no_such_file :: "string option \<Rightarrow> event" where
  "no_such_file f = Printf (''myShell: No such file or directory : ''
     @ (case f of None \<Rightarrow> ''(null)'' | Some n \<Rightarrow> n) @ [NL])"

definition redirect_mode_of :: "string \<Rightarrow> redirect_mode" where
  "redirect_mode_of w = (if w = ''>'' then Truncate_not else Append)"

text \<open>
  The children of a pipeline. The first child duplicates descriptor 0 onto itself and then
  closes it, so its standard input is closed.
\<close>

fun spawn_pipeline :: "os \<Rightarrow> string list \<Rightarrow> sink \<Rightarrow> nat \<Rightarrow> string list list \<Rightarrow> event list" where
  "spawn_pipeline os path out k [] = []"
| "spawn_pipeline os path out k (c # cs) =
     Spawn (exec_child Exits os path c) (if k = 0 then Closed_in else Pipe_in (k - 1))
       (if cs = [] then out else Pipe_out k)
     # spawn_pipeline os path out (Suc k) cs"

definition run_commands :: "os \<Rightarrow> shell \<Rightarrow> sink \<Rightarrow> string list list \<Rightarrow> event list" where
  "run_commands os s out cmd = (case pipeType s of
       PIPE \<Rightarrow> spawn_pipeline os (PATH s) out 0 cmd
     | MSG \<Rightarrow> Stdin_closed # replicate (length cmd) Forks_in_place
     | _ \<Rightarrow> [])"

definition executePipe_out :: "os \<Rightarrow> string option \<Rightarrow> string list list \<Rightarrow> shell \<Rightarrow> shell" where
  "executePipe_out os replaced cmd s =
     (if redirection_out_pipe s
      then (case cut_at {''>'', ''>>''} (last cmd) of
              (c, Some (w, None)) \<Rightarrow>
                emits ([no_redirect_file] @ (case replaced of None \<Rightarrow> [] | Some f \<Rightarrow> [Stdin_replaced f])) s
            | (c, Some (w, Some f)) \<Rightarrow>
                emits (run_commands os s (File_out f (redirect_mode_of w)) (butlast cmd @ [c])) s
            | (c, None) \<Rightarrow> emits (run_commands os s Stdout cmd) s)
      else emits (run_commands os s Stdout cmd) s)"

definition executePipe :: "os \<Rightarrow> string list list \<Rightarrow> shell \<Rightarrow> shell" where
  "executePipe os cmd s =
     (if redirection_in_pipe s
      then (case cut_at {''<''} (hd cmd) of
              (c, Some (w, None)) \<Rightarrow> emits [no_redirect_file] s
            | (c, Some (w, Some f)) \<Rightarrow>
                if file_exists os f then executePipe_out os (Some f) (c # tl cmd) s
                else emits [no_such_file (Some f)] s
            | (c, None) \<Rightarrow> executePipe_out os None cmd s)
      else executePipe_out os None cmd s)"

text \<open>
  The command behind the last pipe. Its row is closed, and then a slot of the released row
  behind it is written.
\<close>

definition output_redirection :: "os \<Rightarrow> shell \<Rightarrow> cerror + shell" where
  "output_redirection os s =
     (let row = drop (lastPipe s + 1) (argVector s);
          n = pipeargCount s;
          out = (2 \<le> n \<and> (argVector s ! (n - 2) = ''>'' \<or> argVector s ! (n - 2) = ''>>''))
      in if 20 \<le> length row then Inl Overflow
         else if list_ex is_pipe row then Inl Uninitialised
         else let s = emits [Use_after_free] (s\<lparr>commands := commands s @ [row]\<rparr>) in
           if out \<and> redirection_out_pipe s
           then Inr (emits [Printf (''myShell: Multiple Outdirection Operators with Pipes'' @ [NL])]
                       (s\<lparr>badRedirectpipe := True\<rparr>))
           else Inr (executePipe os (commands s)
                       (if out then s\<lparr>redirection_out_pipe := True\<rparr> else s)))"

section \<open>Redirection without pipes\<close>

definition spawn_redirected :: "os \<Rightarrow> string list \<Rightarrow> string list \<Rightarrow> source \<Rightarrow> sink \<Rightarrow> event" where
  "spawn_redirected os path cmd1 inp out = Spawn (exec_child Returns_to_loop os path cmd1) inp out"

text \<open>Opening the file NULL fails, and the child then keeps the standard output.\<close>

definition execRedirect :: "os \<Rightarrow> nat \<Rightarrow> string list \<Rightarrow> string list \<Rightarrow> shell \<Rightarrow> shell" where
  "execRedirect os redirection cmd1 cmd2 s =
     (if 1 < length cmd2
      then emits [Printf (''myShell: Can only redirect to a File'' @ [NL])] s
      else let file = (case cmd2 of [] \<Rightarrow> None | f # _ \<Rightarrow> Some f) in
        if redirection = 1
        then (case file of
            Some f \<Rightarrow> if file_exists os f
               then emits [spawn_redirected os (PATH s) cmd1 (File_in f) Stdout] s
               else emits [no_such_file file] s
          | None \<Rightarrow> emits [no_such_file None] s)
        else emits [spawn_redirected os (PATH s) cmd1 Stdin (case file of None \<Rightarrow> Stdout
               | Some f \<Rightarrow> File_out f (if redirection = 0 then Truncate_not else Append))] s)"

text \<open>Only the first five slots of \<open>redirectcmd1\<close> and \<open>redirectcmd2\<close> point to memory.\<close>

definition redirect_to :: "os \<Rightarrow> nat \<Rightarrow> string list \<Rightarrow> string list \<Rightarrow> shell \<Rightarrow> cerror + shell" where
  "redirect_to os mode cmd1 cmd2 s =
     (if 5 < length cmd1 \<or> 5 < length cmd2 then Inl Segfault
      else Inr ((execRedirect os mode cmd1 cmd2 s)\<lparr>redirect := True\<rparr>))"

section \<open>Broadcast by message queue and shared memory\<close>

text \<open>
  The commands behind the operator, separated by commas: 20 rows of 5 slots. The last row is
  closed only after its last word; without a last word its slots are uninitialised. The length
  of row \<open>k\<close> is stored at index \<open>k\<close> of an array that is allocated for one integer, also for the row
  that a comma begins.
\<close>

definition array_size :: nat where "array_size = 1"

fun ipc_rows :: "nat \<Rightarrow> string list \<Rightarrow> string list \<Rightarrow> cerror + string list list" where
  "ipc_rows k cur [] = Inl Uninitialised"
| "ipc_rows k cur [t] =
     (if t = '','' then (if length cur < 5 \<and> k + 1 < 20 \<and> k + 1 < array_size then Inl Uninitialised else Inl Overflow)
      else if length cur + 1 < 5 \<and> k + 1 < 20 then Inr [cur @ [t]] else Inl Overflow)"
| "ipc_rows k cur (t # u # ts) =
     (if t = '',''
      then (if length cur < 5 \<and> k + 1 < 20 \<and> k + 1 < array_size
            then rbind (ipc_rows (k + 1) [] (u # ts)) (\<lambda>rows. Inr (cur # rows)) else Inl Overflow)
      else if length cur < 5 then ipc_rows k (cur @ [t]) (u # ts) else Inl Overflow)"

text \<open>What the reading loop leaves in the buffer: the last block of at most \<open>n\<close> bytes.\<close>

function last_chunk :: "nat \<Rightarrow> string \<Rightarrow> string" where
  "last_chunk n str = (if length str \<le> n \<or> n = 0 then str else last_chunk n (drop n str))"
  by pat_completeness auto

termination
  by (relation "measure (\<lambda>(n, str). length str)") auto

declare last_chunk.simps [simp del]

text \<open>
  What the first command writes. When no program is found the process that should have become
  it prints a message and goes on as a copy of the reader: for the message queue it exits, and
  the message is read like any output; for shared memory it reads from a null stream and ends
  before the message leaves its buffer.
\<close>

definition producer_output :: "os \<Rightarrow> string list \<Rightarrow> string list \<Rightarrow> string" where
  "producer_output os path cmd = (case exec_child Exits os path cmd of
       Runs p args \<Rightarrow> output_of os (Runs p args)
     | _ \<Rightarrow> (case cmd of [] \<Rightarrow> [] | c # _ \<Rightarrow> ''myShell: '' @ c @ '' - Command not found'' @ [NL]))"

definition shm_producer_output :: "os \<Rightarrow> string list \<Rightarrow> string list \<Rightarrow> string" where
  "shm_producer_output os path cmd = (case exec_child Exits os path cmd of
       Runs p args \<Rightarrow> output_of os (Runs p args)
     | _ \<Rightarrow> [])"

definition consumers :: "os \<Rightarrow> string list \<Rightarrow> string \<Rightarrow> string list list \<Rightarrow> event list" where
  "consumers os path txt outputs =
     map (\<lambda>c. Spawn (exec_child Exits os path c) (Text txt) Stdout) outputs"

text \<open>
  The message holds a long, the text and its NUL, and at most 8192 bytes are sent and
  received; the shared segment has 4096 bytes.
\<close>

definition shellMsgQ :: "os \<Rightarrow> string list \<Rightarrow> string list list \<Rightarrow> shell \<Rightarrow> cerror + shell" where
  "shellMsgQ os cmd outputs s =
     (let out = producer_output os (PATH s) cmd; txt = cstr (last_chunk 8191 out) in
      if out = [] then Inl Uninitialised
      else if 8192 < 8 + length txt + 1 then Inr (emits [Not_delivered] s)
      else Inr (emits (consumers os (PATH s) txt outputs) s))"

definition shellShm :: "os \<Rightarrow> string list \<Rightarrow> string list list \<Rightarrow> shell \<Rightarrow> cerror + shell" where
  "shellShm os cmd outputs s =
     (let out = shm_producer_output os (PATH s) cmd; txt = cstr (last_chunk 8191 out) in
      if out = [] then Inl Uninitialised
      else if 4096 \<le> length txt then Inl Overflow
      else Inr (emits (consumers os (PATH s) txt outputs) s))"

section \<open>The operator of a line\<close>

fun find_operator :: "nat \<Rightarrow> string list \<Rightarrow> (nat \<times> string) option" where
  "find_operator i [] = None"
| "find_operator i (a # as) =
     (if a \<in> {''>'', ''>>'', ''<'', ''##'', ''SS''} then Some (i, a) else find_operator (Suc i) as)"

definition redirection_with_pipes_and_ipc :: "os \<Rightarrow> shell \<Rightarrow> cerror + bool \<times> shell" where
  "redirection_with_pipes_and_ipc os s = (case find_operator 0 (argVector s) of
       None \<Rightarrow> Inr (False, s)
     | Some (i, w) \<Rightarrow>
         let before = take i (argVector s); behind = drop (i + 1) (argVector s) in
         if w = ''>'' \<or> w = ''>>'' then
           (if i \<le> lastPipe s
            then Inr (False, emits [Printf (''myShell: Output Redirection before a pipe'' @ [NL])]
                               (s\<lparr>redirect := True\<rparr>))
            else rbind (redirect_to os (if w = ''>'' then 0 else 2)
                          (if 0 < lastPipe s then drop (lastPipe s + 1) before else before) behind s)
                   (\<lambda>s. Inr (False, s)))
         else if w = ''<'' then rbind (redirect_to os 1 before behind s) (\<lambda>s. Inr (False, s))
         else rbind (ipc_rows 0 [] behind) (\<lambda>rows.
                rbind (if w = ''##'' then shellMsgQ os before rows s else shellShm os before rows s)
                  (\<lambda>s. Inr (True, s))))"

section \<open>What a pipeline means\<close>

fun split_pipes :: "string list \<Rightarrow> string list list" where
  "split_pipes [] = [[]]"
| "split_pipes (a # as) =
     (if is_pipe a then [] # split_pipes as else (a # hd (split_pipes as)) # tl (split_pipes as))"

lemma split_pipes_nonempty [simp]: "split_pipes xs \<noteq> []"
  by (cases xs) auto

lemma split_pipes_pipe: "is_pipe p \<Longrightarrow> split_pipes (xs @ p # ys) = split_pipes xs @ split_pipes ys"
  by (induction xs) auto

lemma split_pipes_word:
  "\<not> is_pipe a \<Longrightarrow> split_pipes (xs @ [a]) = butlast (split_pipes xs) @ [last (split_pipes xs) @ [a]]"
proof (induction xs)
  case (Cons x xs)
  then show ?case by (cases "split_pipes xs" rule: rev_cases; cases "butlast (split_pipes xs)") auto
qed simp

lemma split_pipes_no_pipe: "r \<in> set (split_pipes xs) \<Longrightarrow> a \<in> set r \<Longrightarrow> \<not> is_pipe a"
proof (induction xs arbitrary: r)
  case (Cons x xs)
  from Cons.IH [of "hd (split_pipes xs)"] Cons.IH [of r] Cons.prems show ?case
    by (cases "split_pipes xs") (auto split: if_splits)
qed simp

definition pipe_inv :: "string list \<Rightarrow> nat \<Rightarrow> shell \<Rightarrow> bool" where
  "pipe_inv args i s \<longleftrightarrow> argVector s = args \<and> (0 < lastPipe s \<longrightarrow> lastPipe s < i)
     \<and> commands s @ [command_before i s] = split_pipes (take i args)
     \<and> pipeCount s = length (commands s) \<and> pipeargCount s = i
     \<and> (lastPipe s = 0 \<longrightarrow> commands s = [])"

text \<open>The parts of the state that the splitting leaves alone.\<close>

definition same_setup :: "shell \<Rightarrow> shell \<Rightarrow> bool" where
  "same_setup s t \<longleftrightarrow> log t = log s \<and> PATH t = PATH s \<and> pipeType t = pipeType s
     \<and> redirection_in_pipe t = redirection_in_pipe s \<and> redirection_out_pipe t = redirection_out_pipe s
     \<and> badRedirectpipe t = badRedirectpipe s \<and> isBackground t = isBackground s \<and> jobSet t = jobSet s"

lemma pipe_loop_splits:
  assumes "pipe_inv args i s" and "i \<le> length args" and "args \<noteq> []" and "\<not> is_pipe (hd args)"
    and "''<'' \<notin> set args" and "\<forall>r \<in> set (split_pipes args). length r < 20"
  shows "\<exists>t. pipe_loop i s = Inr t \<and> pipe_inv args (length args) t \<and> same_setup s t"
  using assms(1,2)
proof (induction "length args - i" arbitrary: i s)
  case 0
  then show ?case by (subst pipe_loop.simps) (auto simp: pipe_inv_def same_setup_def)
next
  case (Suc n)
  let ?a = "args ! i" and ?s1 = "s\<lparr>pipeargCount := pipeargCount s + 1\<rparr>"
  have i: "i < length args" and av: "argVector s = args"
    using Suc.hyps(2) Suc.prems(1) by (auto simp: pipe_inv_def)
  have n: "n = length args - Suc i" using Suc.hyps(2) by simp
  have take: "take (Suc i) args = take i args @ [?a]" using i by (simp add: take_Suc_conv_app_nth)
  have no_lt: "args ! k \<noteq> ''<''" if "k < length args" for k using that assms(5) by (metis nth_mem)
  show ?case
  proof (cases "is_pipe ?a")
    case False
    have "split_pipes (take (Suc i) args) = commands s @ [command_before i s @ [?a]]"
      using Suc.prems(1) unfolding take split_pipes_word [OF False] pipe_inv_def
      by (metis butlast_snoc last_snoc)
    moreover have "command_before (Suc i) ?s1 = command_before i s @ [?a]"
      using Suc.prems i take by (auto simp: command_before_def pipe_inv_def)
    ultimately have "pipe_inv args (Suc i) ?s1"
      using Suc.prems by (auto simp: pipe_inv_def)
    with Suc.hyps(1) [OF n, of ?s1] i obtain t where
      t: "pipe_loop (Suc i) ?s1 = Inr t" "pipe_inv args (length args) t" "same_setup ?s1 t" by auto
    have "pipe_loop i s = Inr t"
      using t(1) i av False by (subst pipe_loop.simps) simp
    then show ?thesis using t by (auto simp: same_setup_def)
  next
    case True
    let ?s2 = "?s1\<lparr>commands := commands s @ [command_before i s], lastPipe := i, pipeCount := pipeCount s + 1\<rparr>"
    have "i \<noteq> 0" using True assms(3,4) by (metis hd_conv_nth)
    have "split_pipes args = split_pipes (take i args) @ split_pipes (drop (Suc i) args)"
      using split_pipes_pipe [OF True, of "take i args" "drop (Suc i) args"] id_take_nth_drop [OF i] by simp
    then have "command_before i s \<in> set (split_pipes args)"
      using Suc.prems(1) by (metis Un_iff list.set_intros(1) pipe_inv_def set_append)
    then have "length (command_before i s) < 20" using assms(6) by blast
    moreover have "command_before i ?s1 = command_before i s" by (simp add: command_before_def)
    ultimately have e: "end_command i ?s1 = Inr ?s2" by (simp add: end_command_def)
    have "command_before (Suc i) ?s2 = []"
      using \<open>i \<noteq> 0\<close> by (simp add: command_before_def)
    moreover have "length (split_pipes (take i args)) = Suc (length (commands s))"
      using Suc.prems(1) by (metis length_append_singleton pipe_inv_def)
    ultimately have "pipe_inv args (Suc i) ?s2"
      using Suc.prems(1) take split_pipes_pipe [OF True, of "take i args" "[]"] \<open>i \<noteq> 0\<close>
      by (simp add: pipe_inv_def)
    with Suc.hyps(1) [OF n, of ?s2] i obtain t where
      t: "pipe_loop (Suc i) ?s2 = Inr t" "pipe_inv args (length args) t" "same_setup ?s2 t" by auto
    then have "pipe_loop i s = Inr t"
      using e i av True no_lt by (subst pipe_loop.simps) (auto simp: Let_def)
    then show ?thesis using t by (auto simp: same_setup_def)
  qed
qed

lemma spawn_pipeline_map:
  "spawn_pipeline os path out k cs = map (\<lambda>i.
     Spawn (exec_child Exits os path (cs ! (i - k))) (if i = 0 then Closed_in else Pipe_in (i - 1))
       (if i + 1 = k + length cs then out else Pipe_out i)) [k..<k + length cs]"
proof (induction cs arbitrary: k)
  case (Cons c cs)
  have "[k..<k + length (c # cs)] = k # [Suc k..<Suc k + length cs]" by (subst upt_conv_Cons) simp_all
  moreover have "(c # cs) ! (i - k) = cs ! (i - Suc k)" if "Suc k \<le> i" for i
    using that by (simp add: nth_Cons')
  ultimately show ?case
    using Cons [of "Suc k"] by (auto simp del: upt_Suc intro!: map_cong)
qed simp

lemma pipe_type_PIPE:
  "\<forall>a \<in> set args. a \<noteq> ''#'' \<and> a \<noteq> ''S'' \<Longrightarrow> ''|'' \<in> set args \<or> t = PIPE \<Longrightarrow> pipe_type t args = PIPE"
  by (induction args arbitrary: t) auto

lemma pipe_in_filter: "''|'' \<in> set args \<Longrightarrow> filter is_pipe args \<noteq> []"
  by (auto simp: filter_empty_conv is_pipe_def)

lemma length_split_pipes: "length (split_pipes args) = Suc (length (filter is_pipe args))"
  by (induction args) auto

text \<open>The state in which the last command of a line of commands joined by pipes is taken up.\<close>

lemma split_line:
  assumes "pipe_inv args 0 s" and "args \<noteq> []" and "\<not> is_pipe (hd args)" and "''|'' \<in> set args"
    and "\<forall>a \<in> set args. a \<notin> {''<'', ''>'', ''>>''}" and "\<forall>r \<in> set (split_pipes args). length r < 20"
  obtains t row where "pipe_loop 0 s = Inr t" "same_setup s t" "argVector t = args" "row = drop (Suc (lastPipe t)) args"
    "commands t @ [row] = split_pipes args" "length row < 20" "\<forall>a \<in> set row. \<not> is_pipe a"
    "args ! (pipeargCount t - 2) \<notin> {''>'', ''>>''}"
proof -
  obtain t where t: "pipe_loop 0 s = Inr t" "pipe_inv args (length args) t" "same_setup s t"
    using pipe_loop_splits [of args 0 s] assms by auto
  have cmds: "commands t @ [command_before (length args) t] = split_pipes args" and av: "argVector t = args"
    and n: "pipeargCount t = length args" and lp0: "lastPipe t = 0 \<longrightarrow> commands t = []"
    using t(2) by (simp_all add: pipe_inv_def)
  have "lastPipe t \<noteq> 0"
  proof
    assume "lastPipe t = 0"
    then have "length (split_pipes args) = 1" using lp0 cmds [symmetric] by simp
    then show False using pipe_in_filter [OF assms(4)] by (simp add: length_split_pipes)
  qed
  then have row: "command_before (length args) t = drop (Suc (lastPipe t)) args"
    using av by (simp add: command_before_def)
  have in_rows: "drop (Suc (lastPipe t)) args \<in> set (split_pipes args)" using cmds row by (metis in_set_conv_decomp)
  have "args ! k \<notin> {''>'', ''>>''}" if "k < length args" for k
    using that assms(5) nth_mem by fastforce
  then have "args ! (pipeargCount t - 2) \<notin> {''>'', ''>>''}" using assms(2) n by simp
  moreover have "length (drop (Suc (lastPipe t)) args) < 20" using in_rows assms(6) by blast
  ultimately show thesis
    using that [OF t(1,3) av refl] cmds row split_pipes_no_pipe [OF in_rows] by simp
qed

definition fresh_line :: "shell \<Rightarrow> bool" where
  "fresh_line s \<longleftrightarrow> pipeType s = NONE \<and> lastPipe s = 0 \<and> pipeCount s = 0 \<and> pipeargCount s = 0
     \<and> \<not> redirection_in_pipe s \<and> \<not> redirection_out_pipe s"

text \<open>
  C22. A line of commands joined by bars, without redirections, is split exactly at the bars
  and run as a pipeline: the k-th child reads the pipe that the child before it writes, and
  the last writes the standard output. The standard input of the first child is closed, and
  on the way the shell writes into a row it has released.
\<close>

theorem pipeline_wiring:
  assumes "fresh_line s" and "argVector s \<noteq> []" and "hd (argVector s) \<noteq> ''|''" and "''|'' \<in> set (argVector s)"
    and "\<forall>a \<in> set (argVector s). a \<notin> {''#'', ''S'', ''<'', ''>'', ''>>''}"
    and "\<forall>r \<in> set (split_pipes (argVector s)). length r < 20"
  shows "\<exists>t. rbind (pipe_filter s) (output_redirection os) = Inr t
    \<and> commands t = split_pipes (argVector s)
    \<and> log t = log s @ Use_after_free # map (\<lambda>k.
        Spawn (exec_child Exits os (PATH s) (split_pipes (argVector s) ! k))
          (if k = 0 then Closed_in else Pipe_in (k - 1))
          (if k + 1 = length (split_pipes (argVector s)) then Stdout else Pipe_out k))
        [0..<length (split_pipes (argVector s))]"
proof -
  let ?args = "argVector s" and ?s = "count_pipes s"
  have s: "?s = s\<lparr>pipeType := PIPE, commands := []\<rparr>"
    using pipe_in_filter [OF assms(4)] pipe_type_PIPE [of ?args] assms(4,5)
    by (simp add: count_pipes_def Let_def)
  have "pipe_inv ?args 0 ?s" "\<not> is_pipe (hd ?args)"
    using assms(1-3,5) by (auto simp: s pipe_inv_def command_before_def fresh_line_def is_pipe_def)
  then obtain t row where t: "pipe_filter s = Inr t" "same_setup ?s t" "argVector t = ?args" "row = drop (Suc (lastPipe t)) ?args"
      "commands t @ [row] = split_pipes ?args" "length row < 20" "\<forall>a \<in> set row. \<not> is_pipe a"
      "?args ! (pipeargCount t - 2) \<notin> {''>'', ''>>''}"
    using split_line [of ?args ?s] assms(2-6) unfolding pipe_filter_def by auto
  then show ?thesis using assms(1)
    by (simp add: output_redirection_def Let_def executePipe_def executePipe_out_def run_commands_def
        same_setup_def s fresh_line_def spawn_pipeline_map [where k = 0, simplified] list_ex_iff)
qed

definition initial_shell :: "string list \<Rightarrow> job list \<Rightarrow> shell" where
  "initial_shell path jobs =
     \<lparr>jobSet = jobs, isSuspended = False, parentPID = 0, log = [], PATH = path, isBackground = False,
      bgcount = -1, argVector = [], argLength = 0, redirection_in_pipe = False, redirection_out_pipe = False,
      badRedirectpipe = False, pipeCount = 0, redirect = False, pipeargCount = 0, lastPipe = 0,
      ignorePATH = False, noinit_cmd = False, is_daemon = False, pipeType = NONE, commands = [],
      current_directory = replicate 300 NUL\<rparr>"

abbreviation example_shell :: "string list \<Rightarrow> shell" where
  "example_shell args \<equiv> (initial_shell [''/bin/''] [example_shell_job])\<lparr>argVector := args\<rparr>"

theorem pipeline_wiring_witness:
  "\<exists>t. rbind (pipe_filter (example_shell [''ls'', ''|'', ''wc''])) (output_redirection example_os) = Inr t
    \<and> log t = [Use_after_free, Spawn (Runs ''/bin/ls'' [''ls'']) Closed_in (Pipe_out 0),
               Spawn (Runs ''/bin/wc'' [''wc'']) (Pipe_in 0) Stdout]"
  using pipeline_wiring [of "example_shell [''ls'', ''|'', ''wc'']" example_os]
  by (auto simp: initial_shell_def fresh_line_def is_pipe_def exec_child_def str_concat_def upt_rec)

section \<open>What a redirection means\<close>

definition operator_free :: "string list \<Rightarrow> bool" where
  "operator_free ws \<longleftrightarrow> (\<forall>w \<in> set ws. w \<notin> {''>'', ''>>'', ''<'', ''##'', ''SS''})"

lemma find_operator_first:
  "operator_free ws \<Longrightarrow> w \<in> {''>'', ''>>'', ''<'', ''##'', ''SS''} \<Longrightarrow>
     find_operator i (ws @ w # rest) = Some (i + length ws, w)"
  by (induction ws arbitrary: i) (auto simp: operator_free_def)

text \<open>
  Redirecting the output of a command of at most five words to a file runs it with
  that file as its output, and its standard input untouched; with more than five words the
  shell writes through a NULL pointer. A child that finds no program returns into the main
  loop as a second shell.
\<close>

theorem output_redirection_effect:
  assumes "argVector s = cmd @ [op, file]" and "op = ''>'' \<or> op = ''>>''"
    and "operator_free cmd" and "cmd \<noteq> []" and "lastPipe s = 0"
  shows "redirection_with_pipes_and_ipc os s =
    (if 5 < length cmd then Inl Segfault
     else Inr (False, (emits [Spawn (exec_child Returns_to_loop os (PATH s) cmd) Stdin
                               (File_out file (redirect_mode_of op))] s)\<lparr>redirect := True\<rparr>))"
  using assms find_operator_first [of cmd op 0 "[file]"]
  by (auto simp: redirection_with_pipes_and_ipc_def redirect_to_def execRedirect_def Let_def
      spawn_redirected_def redirect_mode_of_def)

theorem output_redirection_effect_witness:
  "redirection_with_pipes_and_ipc example_os
     (example_shell [''a'', ''b'', ''c'', ''d'', ''e'', ''f'', ''>'', ''out'']) = Inl Segfault"
  using output_redirection_effect [of "example_shell [''a'', ''b'', ''c'', ''d'', ''e'', ''f'', ''>'', ''out'']"
      "[''a'', ''b'', ''c'', ''d'', ''e'', ''f'']" "''>''" "''out''" example_os]
  by (simp add: initial_shell_def operator_free_def)

section \<open>What a broadcast means\<close>

fun commas :: "string list list \<Rightarrow> string list" where
  "commas [] = []"
| "commas [r] = r"
| "commas (r # q # rs) = r @ '','' # commas (q # rs)"

definition ipc_row :: "string list \<Rightarrow> bool" where
  "ipc_row r \<longleftrightarrow> r \<noteq> [] \<and> length r < 5 \<and> '','' \<notin> set r"

lemma ipc_rows_last: "ipc_row (cur @ r) \<Longrightarrow> r \<noteq> [] \<Longrightarrow> k + 1 < 20 \<Longrightarrow> ipc_rows k cur r = Inr [cur @ r]"
  by (induction k cur r rule: ipc_rows.induct) (auto simp: ipc_row_def)

lemma ipc_rows_comma: "'','' \<notin> set r \<Longrightarrow> ipc_rows 0 cur (r @ '','' # rest) = Inl Overflow"
proof (induction r arbitrary: cur)
  case Nil
  then show ?case by (cases rest) (simp_all add: array_size_def)
next
  case (Cons t r)
  have "ipc_rows 0 cur ((t # r) @ '','' # rest)
      = (if length cur < 5 then ipc_rows 0 (cur @ [t]) (r @ '','' # rest) else Inl Overflow)"
    using Cons.prems by (cases r) auto
  then show ?case using Cons.IH [of "cur @ [t]"] Cons.prems by simp
qed

lemma last_chunk_short: "length str \<le> n \<Longrightarrow> last_chunk n str = str"
  by (simp add: last_chunk.simps)

text \<open>
  C23. The message-queue and shared-memory operators deliver the complete output of the first
  command to the command behind the operator, provided the first command is found, its output
  is not empty, has no NUL, and fits: with its NUL and the long before it into 8192 bytes for a
  message, with its NUL into 4096 for shared memory. With a list of two or more commands they
  write behind an array before any command is started.
\<close>

theorem broadcast_delivers:
  assumes "argVector s = cmd @ op # commas rows" and "operator_free cmd" and "\<forall>r \<in> set rows. ipc_row r" and "rows \<noteq> []"
    and "op = ''##'' \<and> length out + 9 \<le> 8192 \<or> op = ''SS'' \<and> length out < 4096"
    and "exec_child Exits os (PATH s) cmd = Runs prog args" and "output_of os (Runs prog args) = out"
    and "out \<noteq> []" and "nul_free out"
  shows "redirection_with_pipes_and_ipc os s =
    (if length rows = 1 then Inr (True, emits [Spawn (exec_child Exits os (PATH s) (hd rows)) (Text out) Stdout] s)
     else Inl Overflow)"
proof -
  have f: "find_operator 0 (cmd @ op # commas rows) = Some (length cmd, op)"
    using assms(5) find_operator_first [OF assms(2), of op 0] by auto
  have out: "producer_output os (PATH s) cmd = out" "shm_producer_output os (PATH s) cmd = out"
    using assms(6,7) by (simp_all add: producer_output_def shm_producer_output_def)
  have text_out: "cstr (last_chunk 8191 out) = out" using assms(5,9) last_chunk_short [of out 8191] by auto
  show ?thesis
  proof (cases "length rows = 1")
    case True
    then obtain r where r: "rows = [r]" by (metis One_nat_def length_0_conv length_Suc_conv)
    have rows: "ipc_rows 0 [] (commas rows) = Inr rows" using ipc_rows_last [of "[]" r 0] assms(3) by (simp add: r ipc_row_def)
    have "op = ''##'' \<Longrightarrow> shellMsgQ os cmd rows s = Inr (emits (consumers os (PATH s) out rows) s)"
      using assms(5,8) by (simp add: shellMsgQ_def out text_out)
    moreover have "op = ''SS'' \<Longrightarrow> shellShm os cmd rows s = Inr (emits (consumers os (PATH s) out rows) s)"
      using assms(5,8) by (simp add: shellShm_def out text_out)
    ultimately show ?thesis
      using assms(5) f rows r by (elim disjE) (simp_all add: redirection_with_pipes_and_ipc_def assms(1) consumers_def)
  next
    case False
    then obtain r q rs where r: "rows = r # q # rs" using assms(4) by (cases rows rule: commas.cases) auto
    then have "ipc_rows 0 [] (commas rows) = Inl Overflow" using ipc_rows_comma [of r] assms(3) by (simp add: ipc_row_def)
    then show ?thesis
      using assms(5) f False by (elim disjE) (simp_all add: redirection_with_pipes_and_ipc_def assms(1))
  qed
qed

theorem broadcast_delivers_witness:
  "redirection_with_pipes_and_ipc example_os (example_shell [''ls'', ''##'', ''sort'', ''-r''])
    = Inr (True, emits [Spawn (Runs ''/bin/sort'' [''sort'', ''-r'']) (Text ''out'') Stdout]
             (example_shell [''ls'', ''##'', ''sort'', ''-r'']))
   \<and> redirection_with_pipes_and_ipc example_os (example_shell [''ls'', ''SS'', ''wc'', '','', ''sort'']) = Inl Overflow"
  using broadcast_delivers [of "example_shell [''ls'', ''##'', ''sort'', ''-r'']" "[''ls'']" "''##''"
      "[[''sort'', ''-r'']]" "''out''" example_os "''/bin/ls''" "[''ls'']"]
    broadcast_delivers [of "example_shell [''ls'', ''SS'', ''wc'', '','', ''sort'']" "[''ls'']" "''SS''"
      "[[''wc''], [''sort'']]" "''out''" example_os "''/bin/ls''" "[''ls'']"]
  by (simp add: initial_shell_def operator_free_def ipc_row_def exec_child_def str_concat_def)

end
