(* ===== verification/Shell_Main.thy ===== *)
theory Shell_Main
  imports Shell_Pipe
begin

text \<open>
  The main loop of \<open>MyShell/shell.c\<close>: one input line is taken through the blank-line test,
  the reaping of background jobs, the built-in commands, background and daemon execution,
  pipelines, redirection and finally a child process of its own. A session is a sequence of
  lines, each with the answers of the operating system while it is processed.
\<close>

section \<open>Built-in commands\<close>

definition arg0 :: "shell \<Rightarrow> string option" where
  "arg0 s = (case argVector s of [] \<Rightarrow> None | a # _ \<Rightarrow> Some a)"

definition builtin :: "os \<Rightarrow> shell \<Rightarrow> cerror + bool \<times> shell" where
  "builtin os s = (case argVector s of
       [] \<Rightarrow> Inl Segfault
     | [a] \<Rightarrow>
         if take 2 a = ''./'' then
           (if a = ''./'' then Inr (True, emits [Printf (''myShell: Executabe must be a valid string'' @ [NL])] s)
            else Inr (False, s\<lparr>argVector := [tl a], ignorePATH := True\<rparr>))
         else Inr (False, s)
     | a # b # _ \<Rightarrow>
         if a = ''cd'' then
           rbind (cd_target (HOME os) b) (\<lambda>dir.
             Inr (True, emits [Chdir dir]
               (s\<lparr>current_directory := replaceSubstring (HOME os) (cwd_after os dir) (current_directory s)\<rparr>)))
         else Inr (False, s))"

text \<open>A job is named by its pid, or by its name behind a percent sign.\<close>

definition exec_fg :: "os \<Rightarrow> shell \<Rightarrow> cerror + shell" where
  "exec_fg os s =
     (if jobSet s = [] then Inr (emits [Printf (''No background jobs!'' @ [NL]), Prompt] (s\<lparr>isBackground := False\<rparr>))
      else case argVector s of
        _ # a # _ \<Rightarrow>
          let name = tl a; p = getPIDfromname (jobSet s) name in
          if a \<noteq> [] \<and> hd a = CHR ''%'' \<and> name \<noteq> [] \<and> p = 0
          then Inr (emits [Printf (''myShell: fg '' @ name @ '': no such job'' @ [NL]), Prompt] (s\<lparr>isBackground := False\<rparr>))
          else let q = (if a \<noteq> [] \<and> hd a = CHR ''%'' \<and> name \<noteq> [] \<and> p \<noteq> -1 then p else atoi a) in
            rbind (shellfgCommand os q s) (\<lambda>s. Inr (emits [Prompt] (s\<lparr>isBackground := False\<rparr>)))
      | _ \<Rightarrow> Inl Segfault)"

text \<open>The test of the second character behind the percent sign runs past a lone percent sign.\<close>

definition exec_bg :: "os \<Rightarrow> shell \<Rightarrow> cerror + shell" where
  "exec_bg os s =
     (if jobSet s = [] then Inr (emits [Printf (''No suspended jobs!'' @ [NL]), Prompt] (s\<lparr>isBackground := False\<rparr>))
      else case argVector s of
        _ # a # _ \<Rightarrow>
          if a = ''%'' then Inl Uninitialised
          else
            let name = tl a; p = getPIDfromname (jobSet s) name;
                by_name = (a \<noteq> [] \<and> hd a = CHR ''%'' \<and> 2 \<le> length name) in
            if by_name \<and> p = 0
            then Inr (emits [Printf (''myShell: bg '' @ name @ '': no such job'' @ [NL]), Prompt] (s\<lparr>isBackground := False\<rparr>))
            else Inr (emits [Prompt]
                   ((shellbgCommand os (if by_name \<and> p \<noteq> -1 then p else atoi a) s)\<lparr>isBackground := False\<rparr>))
      | _ \<Rightarrow> Inl Segfault)"

definition daemonizeProcess :: "os \<Rightarrow> shell \<Rightarrow> int \<times> shell" where
  "daemonizeProcess os s =
     (if forked os < 0 then (-1, emits [Printf (''myShell: Unable to fork() to daemon process'' @ [NL])] s)
      else (forked os, emits [Daemon (exec_child Exits os (PATH s) (argVector s))] s))"

text \<open>The failure test compares with 1, not with -1.\<close>

definition run_daemon :: "os \<Rightarrow> shell \<Rightarrow> shell" where
  "run_daemon os s =
     (let (p, s) = daemonizeProcess os s in
      emits [Printf (if p \<noteq> 1 then ''Daemon started with PID = '' @ string_of_int p @ [NL]
                     else ''myShell: Daemon initialization failed'' @ [NL]), Prompt]
        (s\<lparr>is_daemon := False\<rparr>))"

section \<open>Children\<close>

definition execute_child :: "os \<Rightarrow> shell \<Rightarrow> child" where
  "execute_child os s =
     (if ignorePATH s
      then (case argVector s of
              [] \<Rightarrow> Exits
            | a # _ \<Rightarrow> let prog = str_concat (cwd_after os ''.'') a in
                if runnable os prog then Runs prog (argVector s) else Exits)
      else if PATH s = [] then Returns_to_loop
      else exec_child Exits os (PATH s) (argVector s))"

text \<open>A failing \<open>fork\<close> returns -1, which takes the branch of the parent: there is no child.\<close>

definition run_command :: "os \<Rightarrow> shell \<Rightarrow> cerror + shell" where
  "run_command os s =
     (let s = emits ((if forked os < 0 then [] else [Spawn (execute_child os s) Stdin Stdout]) @ [Setpgid 0 0])
                (s\<lparr>parentPID := self os\<rparr>) in
      rbind (if isBackground s then insert_background_job os (arg0 s) (forked os) s
             else job_wait os (arg0 s) (forked os) s)
        (\<lambda>s. Inr (emits [Tcsetpgrp 0 (self os), Tcsetpgrp 1 (self os), Prompt]
                   (s\<lparr>isBackground := False, noinit_cmd := False, lastPipe := 0, ignorePATH := False\<rparr>))))"

section \<open>One line\<close>

definition back_to_prompt :: "shell \<Rightarrow> shell" where
  "back_to_prompt s = emits [Prompt] (s\<lparr>noinit_cmd := False, lastPipe := 0\<rparr>)"

definition execute_line :: "os \<Rightarrow> shell \<Rightarrow> cerror + shell" where
  "execute_line os s =
     rbind (pipe_filter s) (\<lambda>s.
       if badRedirectpipe s then Inr (back_to_prompt s)
       else if 0 < pipeCount s
       then rbind (output_redirection os s) (\<lambda>s. Inr (back_to_prompt s))
       else rbind (redirection_with_pipes_and_ipc os s) (\<lambda>(result, s).
         if result \<or> redirect s then Inr (back_to_prompt (s\<lparr>redirect := False\<rparr>))
         else run_command os s))"

definition dispatch_args :: "os \<Rightarrow> shell \<Rightarrow> cerror + shell" where
  "dispatch_args os s =
     rbind (builtin os s) (\<lambda>(done, s).
       if done then Inr (emits [Prompt] s)
       else if last (argVector s) = ''&''
       then execute_line os (s\<lparr>isBackground := True, bgcount := int (length (argVector s)) - 1,
                               argVector := butlast (argVector s)\<rparr>)
       else if arg0 s = Some ''fg'' then rbind (exec_fg os s) (\<lambda>s. Inr (emits [Prompt] s))
       else if arg0 s = Some ''bg'' then rbind (exec_bg os s) (\<lambda>s. Inr (emits [Prompt] s))
       else if is_daemon s then Inr (run_daemon os s)
       else execute_line os s)"

definition start_line :: "string \<Rightarrow> shell \<Rightarrow> shell" where
  "start_line buffer s = s\<lparr>argLength := getArgumentLength buffer, redirection_in_pipe := False,
     redirection_out_pipe := False, pipeCount := 0, pipeargCount := 0, bgcount := -1\<rparr>"

text \<open>The flag of the result says whether the shell exits.\<close>

definition handle_line :: "os \<Rightarrow> string \<Rightarrow> shell \<Rightarrow> cerror + shell \<times> bool" where
  "handle_line os line s =
     (let s = s\<lparr>pipeType := NONE\<rparr> in
      if line = [NL] then Inr (emits [Prompt] s, False)
      else let s = start_line line s; buffer = strip_newline line in
        rbind (reap (waitpid_nohang os) (jobSet s)) (\<lambda>js. let s = s\<lparr>jobSet := js\<rparr> in
          if buffer = ''exit'' then Inr (s, True)
          else if buffer = ''printlist'' then Inr (emits [Printf (printList (jobSet s)), Prompt] s, False)
          else rbind (initArgs (is_daemon s) line) (\<lambda>(d, args).
            rbind (dispatch_args os (s\<lparr>is_daemon := d, argVector := args\<rparr>)) (\<lambda>s. Inr (s, False)))))"

text \<open>
  A session in which no \<open>fork\<close> fails: from the initial state, one line after the other, where
  a new process has a positive pid other than that of the shell.
\<close>

inductive session :: "string list \<Rightarrow> int \<Rightarrow> shell \<Rightarrow> bool" for path me where
  start: "session path me
     (initial_shell path [\<lparr>jpid = me, jname = name, jstatus = STATUS_FOREGROUND, jgid = me\<rparr>])"
| line: "session path me s \<Longrightarrow> self os = me \<Longrightarrow> 0 < forked os \<Longrightarrow> forked os \<noteq> me \<Longrightarrow>
     handle_line os l s = Inr (t, False) \<Longrightarrow> session path me t"

inductive_cases session_cases: "session path me s"

section \<open>The job table through a session\<close>

definition shell_ok :: "int \<Rightarrow> shell \<Rightarrow> bool" where
  "shell_ok me s \<longleftrightarrow> jobs_ok me (jobSet s) \<and> \<not> isSuspended s"

definition shell_leads :: "int \<Rightarrow> shell \<Rightarrow> bool" where
  "shell_leads me s \<longleftrightarrow> shell_first me (jobSet s) \<and> \<not> isSuspended s"

named_theorems keeps_jobs \<open>operations that leave the job table alone\<close>

lemma shell_ok_cong: "jobSet t = jobSet s \<Longrightarrow> isSuspended t = isSuspended s \<Longrightarrow> shell_ok me t = shell_ok me s"
  by (simp add: shell_ok_def)

lemma count_pipes_jobs [keeps_jobs, simp]:
  "jobSet (count_pipes s) = jobSet s" "isSuspended (count_pipes s) = isSuspended s"
  by (simp_all add: count_pipes_def Let_def)

lemma end_command_jobs: "end_command i s = Inr t \<Longrightarrow> jobSet t = jobSet s \<and> isSuspended t = isSuspended s"
  by (auto simp: end_command_def split: if_splits)

lemma pipe_loop_jobs: "pipe_loop i s = Inr t \<Longrightarrow> jobSet t = jobSet s \<and> isSuspended t = isSuspended s"
proof (induction i s rule: pipe_loop.induct)
  case (1 i s)
  let ?s1 = "s\<lparr>pipeargCount := pipeargCount s + 1\<rparr>"
  let ?lt = "2 < i \<and> argVector s ! (i - 2) = ''<''"
  let ?s2 = "if ?lt then ?s1\<lparr>redirection_in_pipe := True\<rparr> else ?s1"
  consider "length (argVector s) \<le> i" | "i < length (argVector s)" "\<not> is_pipe (argVector s ! i)"
    | "i < length (argVector s)" "is_pipe (argVector s ! i)" "?lt \<and> redirection_in_pipe s"
    | "i < length (argVector s)" "is_pipe (argVector s ! i)" "\<not> (?lt \<and> redirection_in_pipe s)"
    by linarith
  then show ?case
  proof cases
    case 2
    then show ?thesis using "1.prems" "1.IH"(1) by (simp add: pipe_loop.simps [of i s])
  next
    case 4
    have "pipe_loop i s = (case end_command i ?s2 of Inl e \<Rightarrow> Inl e | Inr s3 \<Rightarrow> pipe_loop (Suc i) s3)"
      by (subst pipe_loop.simps) (use 4 in \<open>auto simp: Let_def\<close>)
    then obtain s3 where s3: "end_command i ?s2 = Inr s3" "pipe_loop (Suc i) s3 = Inr t"
      using "1.prems" by (cases "end_command i ?s2") simp_all
    have "jobSet t = jobSet s3 \<and> isSuspended t = isSuspended s3"
      using "1.IH"(2) [of ?s1 s3] 4 s3 by auto
    then show ?thesis using end_command_jobs [OF s3(1)] by (simp split: if_splits)
  qed (use "1.prems" in \<open>simp_all add: pipe_loop.simps [of i s] Let_def\<close>, auto)
qed

lemma pipe_filter_jobs [keeps_jobs]: "pipe_filter s = Inr t \<Longrightarrow> jobSet t = jobSet s \<and> isSuspended t = isSuspended s"
  using pipe_loop_jobs [of 0 "count_pipes s" t] by (simp add: pipe_filter_def)

lemma executePipe_jobs [keeps_jobs, simp]:
  "jobSet (executePipe os cmd s) = jobSet s" "isSuspended (executePipe os cmd s) = isSuspended s"
  by (auto simp: executePipe_def executePipe_out_def split: prod.split option.split)

lemma output_redirection_jobs [keeps_jobs]:
  "output_redirection os s = Inr t \<Longrightarrow> jobSet t = jobSet s \<and> isSuspended t = isSuspended s"
  by (auto simp: output_redirection_def Let_def split: if_splits)

lemma execRedirect_jobs [keeps_jobs, simp]:
  "jobSet (execRedirect os k c d s) = jobSet s" "isSuspended (execRedirect os k c d s) = isSuspended s"
  by (auto simp: execRedirect_def Let_def split: option.split)

lemma redirect_to_jobs [keeps_jobs]:
  "redirect_to os k c d s = Inr t \<Longrightarrow> jobSet t = jobSet s \<and> isSuspended t = isSuspended s"
  by (auto simp: redirect_to_def split: if_splits)

lemma shellMsgQ_jobs [keeps_jobs]:
  "shellMsgQ os c d s = Inr t \<Longrightarrow> jobSet t = jobSet s \<and> isSuspended t = isSuspended s"
  by (auto simp: shellMsgQ_def Let_def split: if_splits)

lemma shellShm_jobs [keeps_jobs]:
  "shellShm os c d s = Inr t \<Longrightarrow> jobSet t = jobSet s \<and> isSuspended t = isSuspended s"
  by (auto simp: shellShm_def Let_def split: if_splits)

lemma redirection_jobs [keeps_jobs]:
  assumes "redirection_with_pipes_and_ipc os s = Inr (b, t)"
  shows "jobSet t = jobSet s \<and> isSuspended t = isSuspended s"
proof (cases "find_operator 0 (argVector s)")
  case None
  then show ?thesis using assms by (simp add: redirection_with_pipes_and_ipc_def)
next
  case (Some p)
  obtain i w where p: "p = (i, w)" by (cases p)
  have m: "w = ''>'' \<or> w = ''>>'' \<or> w = ''<'' \<or> \<not> (w = ''>'' \<or> w = ''>>'' \<or> w = ''<'')" by blast
  show ?thesis
    using assms unfolding redirection_with_pipes_and_ipc_def Some p option.case prod.case Let_def
    by (simp only: rbind_eq_Inr split: if_splits)
       (auto dest!: redirect_to_jobs shellMsgQ_jobs shellShm_jobs)
qed

lemma back_to_prompt_jobs [simp]:
  "jobSet (back_to_prompt s) = jobSet s" "isSuspended (back_to_prompt s) = isSuspended s"
  by (simp_all add: back_to_prompt_def)

lemma background_job_leads:
  assumes "insert_background_job os a p s = Inr t" and "shell_leads me s" and "0 < p" and "p \<noteq> me"
  shows "shell_leads me t"
proof (cases a)
  case (Some n)
  obtain js where "insert_job (jobSet s) \<lparr>jpid = p, jname = n, jstatus = STATUS_BACKGROUND, jgid = p\<rparr> = Inr js" "shell_first me js"
    by (rule insert_job_first [of me "jobSet s" "\<lparr>jpid = p, jname = n, jstatus = STATUS_BACKGROUND, jgid = p\<rparr>"])
       (use assms(2-4) in \<open>simp_all add: shell_leads_def\<close>)
  then show ?thesis using assms(1,2) Some by (auto simp: insert_background_job_def shell_leads_def)
qed (use assms(1) in \<open>simp add: insert_background_job_def\<close>)

lemma job_wait_leads:
  assumes "job_wait os a p s = Inr t" and "shell_leads me s" and "0 < p" and "p \<noteq> me"
  shows "shell_leads me t"
proof (cases "WSTOPSIG (wait_status os p) = 0")
  case False
  then obtain n where n: "a = Some n" using assms(1) by (cases a) (simp_all add: job_wait_def Let_def)
  let ?j = "\<lparr>jpid = p, jname = n, jstatus = STATUS_SUSPENDED, jgid = pgid_of os (self os)\<rparr>"
  obtain js where "insert_job (jobSet s) ?j = Inr js" "shell_first me js"
    by (rule insert_job_first [of me "jobSet s" ?j]) (use assms(2-4) in \<open>simp_all add: shell_leads_def\<close>)
  then show ?thesis using assms(1,2) False n by (auto simp: job_wait_def Let_def shell_leads_def)
qed (use assms(1,2) in \<open>auto simp: job_wait_def Let_def shell_leads_def\<close>)

lemma shell_leads_simps [simp]:
  "shell_leads me (emits es s) = shell_leads me s"
  "shell_leads me (s\<lparr>parentPID := p\<rparr>) = shell_leads me s"
  "shell_leads me (s\<lparr>isBackground := b, noinit_cmd := c, lastPipe := n, ignorePATH := d\<rparr>) = shell_leads me s"
  by (simp_all add: shell_leads_def)

lemma shell_leads_run_command:
  assumes "shell_leads me s" and "0 < forked os" and "forked os \<noteq> me" and "run_command os s = Inr t"
  shows "shell_leads me t"
proof -
  let ?u = "emits ((if forked os < 0 then [] else [Spawn (execute_child os s) Stdin Stdout]) @ [Setpgid 0 0]) (s\<lparr>parentPID := self os\<rparr>)"
  obtain v where v: "(if isBackground s then insert_background_job os (arg0 ?u) (forked os) ?u
      else job_wait os (arg0 ?u) (forked os) ?u) = Inr v"
    "t = emits [Tcsetpgrp 0 (self os), Tcsetpgrp 1 (self os), Prompt]
       (v\<lparr>isBackground := False, noinit_cmd := False, lastPipe := 0, ignorePATH := False\<rparr>)"
    using assms(4) unfolding run_command_def Let_def by (auto simp del: if_split_asm split: if_split_asm)
  have u: "shell_leads me ?u" using assms(1) by (simp add: shell_leads_def)
  have "shell_leads me v"
    using v(1) background_job_leads [OF _ u assms(2,3), of os "arg0 ?u" v] job_wait_leads [OF _ u assms(2,3), of os "arg0 ?u" v]
    by (cases "isBackground s") (simp_all only: if_True if_False)
  then show ?thesis using v(2) by (simp add: shell_leads_def)
qed

lemma shell_leads_execute_line:
  assumes "shell_leads me s" and "0 < forked os" and "forked os \<noteq> me"
    and "execute_line os s = Inr t"
  shows "shell_leads me t"
proof -
  obtain s1 where s1: "pipe_filter s = Inr s1" using assms(4) by (auto simp: execute_line_def)
  note same = pipe_filter_jobs [OF s1]
  show ?thesis
  proof (cases "badRedirectpipe s1 \<or> 0 < pipeCount s1")
    case True
    then show ?thesis
      using assms(1,4) s1 same
      by (auto simp: execute_line_def shell_leads_def dest!: output_redirection_jobs split: if_splits)
  next
    case False
    then obtain b s2 where s2: "redirection_with_pipes_and_ipc os s1 = Inr (b, s2)"
        "(if b \<or> redirect s2 then Inr (back_to_prompt (s2\<lparr>redirect := False\<rparr>)) else run_command os s2) = Inr t"
      using assms(4) s1 by (auto simp: execute_line_def)
    have "shell_leads me s2" using assms(1) same redirection_jobs [OF s2(1)] by (simp add: shell_leads_def)
    then show ?thesis
      using s2(2) shell_leads_run_command [of me s2 os t] assms(2,3) same redirection_jobs [OF s2(1)]
      by (auto simp: shell_leads_def split: if_splits)
  qed
qed

lemma shell_leads_fg: "shell_leads me s \<Longrightarrow> exec_fg os s = Inr t \<Longrightarrow> shell_leads me t"
proof -
  assume s: "shell_leads me s" and t: "exec_fg os s = Inr t"
  have ok: "shell_leads me u" if "shellfgCommand os p s = Inr u" for p u
    using shellfgCommand_first [of me s os p] s that by (auto simp: shell_leads_def)
  show "shell_leads me t"
    using s t by (auto simp: exec_fg_def Let_def shell_leads_def dest!: ok split: if_splits list.splits)
qed

lemma shell_leads_bg: "shell_leads me s \<Longrightarrow> exec_bg os s = Inr t \<Longrightarrow> shell_leads me t"
proof -
  assume s: "shell_leads me s" and t: "exec_bg os s = Inr t"
  have "shell_leads me (shellbgCommand os p s)" for p
    using shellbgCommand_first [of me s os p] s by (simp add: shell_leads_def)
  then show "shell_leads me t"
    using s t by (auto simp: exec_bg_def Let_def shell_leads_def split: if_splits list.splits)
qed

lemma builtin_jobs: "builtin os s = Inr (b, t) \<Longrightarrow> jobSet t = jobSet s \<and> isSuspended t = isSuspended s"
  by (auto simp: builtin_def split: list.splits if_splits)

lemma shell_leads_dispatch:
  assumes "shell_leads me s" and "0 < forked os" and "forked os \<noteq> me"
    and "dispatch_args os s = Inr t"
  shows "shell_leads me t"
proof -
  obtain b s1 where s1: "builtin os s = Inr (b, s1)"
    using assms(4) by (auto simp: dispatch_args_def)
  note same = builtin_jobs [OF s1]
  have ok: "shell_leads me s1" using assms(1) same by (simp add: shell_leads_def)
  show ?thesis
  proof (cases "last (argVector s1) = ''&''")
    case True
    let ?s2 = "s1\<lparr>isBackground := True, bgcount := int (length (argVector s1)) - 1, argVector := butlast (argVector s1)\<rparr>"
    have "shell_leads me ?s2" using ok by (simp add: shell_leads_def)
    then show ?thesis
      using assms(2-4) s1 same True ok shell_leads_execute_line [of me ?s2 os t]
      by (auto simp: dispatch_args_def shell_leads_def split: if_splits)
  next
    case False
    have "shell_leads me (run_daemon os s1)"
      using ok by (simp add: run_daemon_def daemonizeProcess_def Let_def shell_leads_def)
    moreover have "shell_leads me (emits es u)" if "shell_leads me u" for u es
      using that by (simp add: shell_leads_def)
    ultimately show ?thesis
      using assms(2-4) s1 same False ok shell_leads_execute_line [OF ok, of os t] shell_leads_fg [OF ok] shell_leads_bg [OF ok]
      by (auto simp: dispatch_args_def split: if_splits)
  qed
qed

lemma shell_leads_handle_line:
  assumes ok: "shell_leads me s" and "0 < forked os" and "forked os \<noteq> me" and "handle_line os l s = Inr (t, b)"
  shows "shell_leads me t"
proof (cases "l = [NL]")
  case True
  then show ?thesis using assms by (auto simp: handle_line_def shell_leads_def)
next
  case False
  obtain js where r: "reap (waitpid_nohang os) (jobSet s) = Inr js" "shell_first me js"
    by (rule reap_first [of me "jobSet s"]) (use ok in \<open>simp_all add: shell_leads_def\<close>)
  let ?s = "(start_line l (s\<lparr>pipeType := NONE\<rparr>))\<lparr>jobSet := js\<rparr>"
  have "shell_leads me (?s\<lparr>is_daemon := d, argVector := args\<rparr>)" for d args
    using r(2) ok by (simp add: shell_leads_def start_line_def)
  then have "shell_leads me u" if "dispatch_args os (?s\<lparr>is_daemon := d, argVector := args\<rparr>) = Inr u" for d args u
    using shell_leads_dispatch [OF _ assms(2,3) that] by auto
  moreover have "jobSet (start_line l (s\<lparr>pipeType := NONE\<rparr>)) = jobSet s" by (simp add: start_line_def)
  moreover have "shell_leads me ?s" "shell_leads me (emits es ?s)" for es
    using r(2) ok by (simp_all add: shell_leads_def start_line_def)
  ultimately show ?thesis
    using assms(4) False r(1) by (auto simp: handle_line_def Let_def split: if_splits)
qed

section \<open>Lines of words\<close>

definition reaped :: "os \<Rightarrow> shell \<Rightarrow> job list" where
  "reaped os s = filter (\<lambda>j. \<not> (jstatus j = STATUS_BACKGROUND \<and> waitpid_nohang os (jpid j) \<noteq> 0)) (jobSet s)"

lemma reap_reaped: "shell_ok me s \<Longrightarrow> 0 < me \<Longrightarrow> reap (waitpid_nohang os) (jobSet s) = Inr (reaped os s)"
  using reap_from_filter [of me "jobSet s" 0] by (simp add: reap_def shell_ok_def reaped_def)

lemma reaped_nonempty: "shell_ok me s \<Longrightarrow> reaped os s \<noteq> []"
  using jobs_ok_filter [of me "jobSet s"] by (fastforce simp: shell_ok_def reaped_def jobs_ok_def)

lemma handle_words:
  assumes ok: "shell_ok me s" "0 < me" and ps: "\<forall>p \<in> set ps. plain_word (fst p)" "ps \<noteq> []"
    and hd: "fst (hd ps) \<notin> {''exit'', ''printlist'', ''daemonize''}"
  shows "handle_line os (spaced ps @ [NL]) s =
    rbind (dispatch_args os ((start_line (spaced ps @ [NL]) (s\<lparr>pipeType := NONE\<rparr>))
        \<lparr>jobSet := reaped os s, argVector := map fst ps\<rparr>)) (\<lambda>s. Inr (s, False))"
proof -
  have "initArgs (is_daemon s) (spaced ps @ [NL]) = Inr (is_daemon s, map fst ps)"
    using initArgs_words [OF ps] hd by simp
  moreover have "spaced ps \<noteq> ''exit''" "spaced ps \<noteq> ''printlist''" "spaced ps @ [NL] \<noteq> [NL]"
    using spaced_word [of ps "''exit''"] spaced_word [of ps "''printlist''"] spaced_word [of ps "[]"] ps hd
    by (auto simp: plain_word_def)
  ultimately show ?thesis
    using reap_reaped [OF ok, of os]
    by (simp add: handle_line_def Let_def start_line_def NL_spaced [OF ps(1)])
qed

lemma pipe_loop_no_pipes:
  assumes "filter is_pipe (argVector s) = []" and "i \<le> length (argVector s)"
  shows "pipe_loop i s = Inr (s\<lparr>pipeargCount := pipeargCount s + (length (argVector s) - i)\<rparr>)"
  using assms
proof (induction "length (argVector s) - i" arbitrary: i s)
  case 0
  then show ?case by (subst pipe_loop.simps) simp
next
  case (Suc n)
  let ?s1 = "s\<lparr>pipeargCount := pipeargCount s + 1\<rparr>"
  have i: "i < length (argVector s)" using Suc.hyps(2) by simp
  then have "\<not> is_pipe (argVector s ! i)" using Suc.prems(1) by (metis filter_empty_conv nth_mem)
  then have "pipe_loop i s = pipe_loop (Suc i) ?s1" using i by (subst pipe_loop.simps) simp
  also have "\<dots> = Inr (?s1\<lparr>pipeargCount := pipeargCount ?s1 + (length (argVector ?s1) - Suc i)\<rparr>)"
    using Suc i by (intro Suc.hyps(1)) auto
  finally show ?case using i by (simp add: Suc_diff_Suc)
qed

lemma pipe_filter_no_pipes:
  assumes "filter is_pipe (argVector s) = []"
  shows "pipe_filter s = Inr ((count_pipes s)\<lparr>pipeargCount := pipeargCount s + length (argVector s)\<rparr>)"
  using pipe_loop_no_pipes [of "count_pipes s" 0] assms by (simp add: pipe_filter_def count_pipes_def Let_def)

lemma find_operator_None: "operator_free ws \<Longrightarrow> find_operator i ws = None"
  by (induction ws arbitrary: i) (auto simp: operator_free_def)

text \<open>Words that name a program to run: no operator, no built-in command, not in the background.\<close>

definition ordinary :: "string list \<Rightarrow> bool" where
  "ordinary args \<longleftrightarrow> args \<noteq> [] \<and> operator_free args \<and> filter is_pipe args = [] \<and> last args \<noteq> ''&''
     \<and> hd args \<notin> {''exit'', ''printlist'', ''daemonize'', ''fg'', ''bg'', ''cd''} \<and> take 2 (hd args) \<noteq> ''./''"

lemma builtin_ordinary: "ordinary (argVector s) \<Longrightarrow> builtin os s = Inr (False, s)"
  by (auto simp: builtin_def ordinary_def split: list.split)

lemma dispatch_ordinary:
  "ordinary (argVector s) \<Longrightarrow> \<not> is_daemon s \<Longrightarrow> dispatch_args os s = execute_line os s"
  by (cases "argVector s") (auto simp: dispatch_args_def builtin_ordinary arg0_def ordinary_def)

lemma execute_ordinary:
  assumes "ordinary (argVector s)"
  shows "execute_line os s =
    (let u = (count_pipes s)\<lparr>pipeargCount := pipeargCount s + length (argVector s)\<rparr> in
     if badRedirectpipe s then Inr (back_to_prompt u)
     else if 0 < pipeCount s then rbind (output_redirection os u) (\<lambda>s. Inr (back_to_prompt s))
     else if redirect s then Inr (back_to_prompt (u\<lparr>redirect := False\<rparr>)) else run_command os u)"
  using assms find_operator_None [of "argVector s" 0] pipe_filter_no_pipes [of s]
  by (simp add: execute_line_def ordinary_def redirection_with_pipes_and_ipc_def count_pipes_def Let_def)

definition idle :: "shell \<Rightarrow> bool" where
  "idle s \<longleftrightarrow> \<not> is_daemon s \<and> \<not> isBackground s \<and> \<not> redirect s \<and> lastPipe s = 0 \<and> \<not> ignorePATH s \<and> PATH s \<noteq> []"

text \<open>What running an ordinary command line asks of the system.\<close>

definition command_events :: "os \<Rightarrow> string list \<Rightarrow> string list \<Rightarrow> event list" where
  "command_events os path args = [Spawn (exec_child Exits os path args) Stdin Stdout, Setpgid 0 0,
     Waitpid (forked os), Tcsetpgrp 0 (self os), Tcsetpgrp 1 (self os), Prompt]"

text \<open>A shell that is ready to run ordinary commands.\<close>

definition shell_ready :: "int \<Rightarrow> shell \<Rightarrow> bool" where
  "shell_ready me s \<longleftrightarrow> shell_ok me s \<and> idle s \<and> \<not> badRedirectpipe s"

lemma shell_ok_reaped: "shell_ok me s \<Longrightarrow> jobs_ok me (reaped os s)"
  by (auto simp: shell_ok_def reaped_def intro: jobs_ok_filter)

lemma command_line_step:
  assumes "shell_ready me s" and "0 < me" and "\<forall>p \<in> set ps. plain_word (fst p)" and "ordinary (map fst ps)"
    and "0 < forked os" and "wait_status os (forked os) = exit_status 0"
  shows "\<exists>t. handle_line os (spaced ps @ [NL]) s = Inr (t, False) \<and> shell_ready me t \<and> PATH t = PATH s
    \<and> jobSet t = reaped os s \<and> log t = log s @ command_events os (PATH s) (map fst ps)"
proof -
  have ps: "ps \<noteq> []" "fst (hd ps) \<notin> {''exit'', ''printlist'', ''daemonize''}" "filter is_pipe (map fst ps) = []"
    using assms(4) by (cases ps; auto simp: ordinary_def)+
  have ok: "shell_ok me s" "idle s" "\<not> badRedirectpipe s" using assms(1) by (auto simp: shell_ready_def)
  show ?thesis
    unfolding handle_words [OF ok(1) assms(2,3) ps(1,2)]
    using ok assms(4-6) ps(3) shell_ok_reaped [OF ok(1), of os]
    by (simp add: shell_ready_def shell_ok_def dispatch_ordinary execute_ordinary idle_def start_line_def run_command_def job_wait_def
        count_pipes_def execute_child_def command_events_def Let_def)
qed

text \<open>
  An ordinary command line, words separated by any number of spaces, forks one child
  that becomes the program found first in the search path, with exactly those words as its
  arguments, and waits for it; when it exits with code 0 the job table is unchanged except
  for the finished background jobs, and the shell is back at the prompt.
\<close>

theorem command_line_runs:
  assumes "shell_ok me s" and "0 < me" and "idle s" and "\<not> badRedirectpipe s"
    and "\<forall>p \<in> set ps. plain_word (fst p)" and "ordinary (map fst ps)"
    and "0 < forked os" and "wait_status os (forked os) = exit_status 0"
  shows "\<exists>t. handle_line os (spaced ps @ [NL]) s = Inr (t, False) \<and> idle t
    \<and> jobSet t = reaped os s
    \<and> log t = log s @ [Spawn (exec_child Exits os (PATH s) (map fst ps)) Stdin Stdout, Setpgid 0 0,
                       Waitpid (forked os), Tcsetpgrp 0 (self os), Tcsetpgrp 1 (self os), Prompt]"
  using command_line_step [of me s ps os] assms by (auto simp: shell_ready_def command_events_def)

theorem command_line_runs_witness:
  "\<exists>t. handle_line (example_os\<lparr>wait_status := (\<lambda>_. 0)\<rparr>) (''ls -l'' @ [NL]) (initial_shell [''/bin/''] [example_shell_job])
       = Inr (t, False)
     \<and> log t = [Spawn (Runs ''/bin/ls'' [''ls'', ''-l'']) Stdin Stdout, Setpgid 0 0, Waitpid 103,
                Tcsetpgrp 0 100, Tcsetpgrp 1 100, Prompt]"
  using command_line_runs [of 100 "initial_shell [''/bin/''] [example_shell_job]" "[(''ls'', 0), (''-l'', 0)]"
      "example_os\<lparr>wait_status := (\<lambda>_. 0)\<rparr>"]
  by (auto simp: initial_shell_def shell_ok_def jobs_ok_def idle_def plain_word_def ordinary_def operator_free_def
      is_pipe_def exit_status_def exec_child_def str_concat_def)

section \<open>The job table of a session\<close>

text \<open>
  C20. As long as no \<open>fork\<close> fails, the job table keeps the shell in its first place and in the
  foreground, whatever is typed, and no other entry is a foreground job or has the shell's pid,
  even when the system reuses the pids of processes the table still lists. So the removal of
  finished jobs before the next line never fails and never removes the shell.
\<close>

theorem session_jobs_ok:
  assumes "session path me s"
  shows "shell_first me (jobSet s) \<and> \<not> isSuspended s
    \<and> (\<exists>js. reap wait (jobSet s) = Inr js \<and> shell_first me js)"
proof -
  from assms have "shell_leads me s"
  proof (induction rule: session.induct)
    case (start name)
    then show ?case by (simp add: initial_shell_def shell_leads_def shell_first_def)
  next
    case (line s os l t)
    then show ?case using shell_leads_handle_line by blast
  qed
  then show ?thesis by (metis reap_first shell_leads_def)
qed

lemma example_line:
  "\<exists>t. handle_line example_os (''ls'' @ [NL]) (initial_shell [''/bin/''] [example_shell_job]) = Inr (t, False)
     \<and> map jpid (jobSet t) = [100, 103]"
proof -
  let ?s = "initial_shell [''/bin/''] [example_shell_job]"
  have "shell_ok 100 ?s" by (simp add: initial_shell_def shell_ok_def jobs_ok_def)
  from handle_words [OF this, of "[(''ls'', 0)]" example_os] show ?thesis
    by (simp add: plain_word_def initial_shell_def reaped_def dispatch_ordinary execute_ordinary ordinary_def operator_free_def
        is_pipe_def start_line_def count_pipes_def run_command_def job_wait_def WSTOPSIG_def arg0_def Let_def)
qed

theorem session_jobs_ok_witness:
  "\<exists>t. handle_line example_os (''ls'' @ [NL]) (initial_shell [''/bin/''] [example_shell_job]) = Inr (t, False)
     \<and> map jpid (jobSet t) = [100, 103] \<and> shell_first 100 (jobSet t)"
proof -
  let ?s = "initial_shell [''/bin/''] [example_shell_job]"
  have s: "session [''/bin/''] 100 ?s" by (rule session.start)
  from example_line obtain t where t: "handle_line example_os (''ls'' @ [NL]) ?s = Inr (t, False)" "map jpid (jobSet t) = [100, 103]"
    by (elim exE conjE)
  have "session [''/bin/''] 100 t" by (rule session.line [OF s _ _ _ t(1)]) simp_all
  from session_jobs_ok [OF this, THEN conjunct1] t show ?thesis by (intro exI [of _ t] conjI)
qed

section \<open>Defects of the main loop\<close>

text \<open>
  Once a line with two input redirections in a pipeline has set \<open>badRedirectpipe\<close>, which
  nothing resets, no ordinary command is run any more: every such line only prints the
  prompt, and the flag stays set.
\<close>

theorem bad_redirect_sticks:
  assumes "shell_ok me s" and "0 < me" and "idle s" and "badRedirectpipe s"
    and "\<forall>p \<in> set ps. plain_word (fst p)" and "ordinary (map fst ps)"
  shows "\<exists>t. handle_line os (spaced ps @ [NL]) s = Inr (t, False)
    \<and> log t = log s @ [Prompt] \<and> badRedirectpipe t \<and> idle t"
proof -
  have ps: "ps \<noteq> []" "fst (hd ps) \<notin> {''exit'', ''printlist'', ''daemonize''}" "filter is_pipe (map fst ps) = []"
    using assms(6) by (cases ps; auto simp: ordinary_def)+
  show ?thesis
    unfolding handle_words [OF assms(1,2,5) ps(1,2)]
    using assms(3,4,6) ps(3)
    by (simp add: dispatch_ordinary execute_ordinary idle_def start_line_def back_to_prompt_def
        count_pipes_def Let_def)
qed

theorem bad_redirect_sticks_witness:
  "\<exists>t. handle_line example_os (''ls'' @ [NL])
         ((initial_shell [''/bin/''] [example_shell_job])\<lparr>badRedirectpipe := True\<rparr>) = Inr (t, False)
     \<and> log t = [Prompt] \<and> badRedirectpipe t"
  using bad_redirect_sticks [of 100 "(initial_shell [''/bin/''] [example_shell_job])\<lparr>badRedirectpipe := True\<rparr>"
      "[(''ls'', 0)]" example_os]
  by (auto simp: initial_shell_def shell_ok_def jobs_ok_def idle_def plain_word_def ordinary_def operator_free_def
      is_pipe_def)

text \<open>
  Three lines of one word crash the shell whatever jobs it has: an ampersand alone
  copies the name of the background job from NULL, and fg and bg without an argument read
  through NULL.
\<close>

theorem one_word_crashes:
  assumes "shell_ok me s" and "0 < me" and "\<not> badRedirectpipe s" and "\<not> redirect s"
  shows "handle_line os (''&'' @ [NL]) s = Inl Segfault \<and> handle_line os (''fg'' @ [NL]) s = Inl Segfault
    \<and> handle_line os (''bg'' @ [NL]) s = Inl Segfault"
proof -
  have w: "handle_line os (w @ [NL]) s =
    rbind (dispatch_args os ((start_line (w @ [NL]) (s\<lparr>pipeType := NONE\<rparr>))
        \<lparr>jobSet := reaped os s, argVector := [w]\<rparr>)) (\<lambda>s. Inr (s, False))"
    if "plain_word w" "w \<notin> {''exit'', ''printlist'', ''daemonize''}" for w
    using handle_words [OF assms(1,2), of "[(w, 0)]"] that by simp
  have "pipe_filter u = Inr ((count_pipes u)\<lparr>pipeargCount := pipeargCount u\<rparr>)" if "argVector u = []" for u
    using pipe_filter_no_pipes [of u] that by simp
  then have "execute_line os u = Inl Segfault"
    if "argVector u = []" "isBackground u" "\<not> badRedirectpipe u" "\<not> redirect u" "pipeCount u = 0" for u
    using that by (simp add: execute_line_def redirection_with_pipes_and_ipc_def count_pipes_def Let_def
        run_command_def insert_background_job_def arg0_def)
  then have "handle_line os (''&'' @ [NL]) s = Inl Segfault"
    using w [of "''&''"] assms(3,4) by (simp add: plain_word_def dispatch_args_def builtin_def start_line_def)
  then show ?thesis
    using w [of "''fg''"] w [of "''bg''"] reaped_nonempty [OF assms(1), of os]
    by (simp add: plain_word_def dispatch_args_def builtin_def arg0_def exec_fg_def exec_bg_def)
qed

theorem one_word_crashes_witness:
  "handle_line example_os (''fg'' @ [NL]) (initial_shell [''/bin/''] [example_shell_job]) = Inl Segfault"
  using one_word_crashes [of 100 "initial_shell [''/bin/''] [example_shell_job]" example_os]
  by (simp add: initial_shell_def shell_ok_def jobs_ok_def)

end
