(* ===== verification/Line_Source.thy ===== *)
theory Line_Source
  imports Shell_Parse
begin

text \<open>
  Reading lines: what the programs that read commands rely on, as the locale \<open>line_source\<close>, the
  loop over the lines they share, and the interpretation on the line reader of the shell.
\<close>

section \<open>The loop over the lines\<close>

text \<open>
  \<open>read\<close> takes the buffer of the call before and the input, and returns the text read, the input
  left and the buffer. The body gets the line as a C string; it says whether the loop is left.
  One element of the list is what the environment answers during one iteration.
\<close>

fun line_loop ::
  "('b \<Rightarrow> string \<Rightarrow> cerror + string \<times> string \<times> 'b) \<Rightarrow> ('e \<Rightarrow> string \<Rightarrow> 's \<Rightarrow> cerror + 's \<times> bool)
     \<Rightarrow> 'e list \<Rightarrow> 'b \<Rightarrow> string \<Rightarrow> 's \<Rightarrow> cerror + 's \<times> bool" where
  "line_loop read body [] b input s = Inr (s, False)"
| "line_loop read body (e # es) b input s =
     rbind (read b input) (\<lambda>(l, rest, b').
       rbind (body e (cstr l) s) (\<lambda>(s, left).
         if left then Inr (s, True) else line_loop read body es b' rest s))"

text \<open>The same loop over lines that are already there.\<close>

fun over_lines :: "('e \<Rightarrow> string \<Rightarrow> 's \<Rightarrow> cerror + 's \<times> bool) \<Rightarrow> ('e \<times> string) list \<Rightarrow> 's \<Rightarrow> cerror + 's \<times> bool" where
  "over_lines body [] s = Inr (s, False)"
| "over_lines body ((e, l) # els) s =
     rbind (body e l s) (\<lambda>(s, left). if left then Inr (s, True) else over_lines body els s)"

lemma over_lines_append:
  "over_lines body (xs @ ys) s =
     rbind (over_lines body xs s) (\<lambda>(s, left). if left then Inr (s, True) else over_lines body ys s)"
proof (induction xs arbitrary: s)
  case (Cons x xs)
  then show ?case by (cases x; cases "body (fst x) (snd x) s") auto
qed simp

definition text_line :: "string \<Rightarrow> bool" where
  "text_line l \<longleftrightarrow> NL \<notin> set l \<and> nul_free l"

definition as_text :: "string list \<Rightarrow> string" where
  "as_text ls = concat (map (\<lambda>l. l @ [NL]) ls)"

lemma as_text_simps [simp]: "as_text [] = []" "as_text (l # ls) = l @ NL # as_text ls"
  by (simp_all add: as_text_def)

section \<open>The interface\<close>

locale line_source =
  fixes read :: "'b \<Rightarrow> string \<Rightarrow> cerror + string \<times> string \<times> 'b"
    and good :: "'b \<Rightarrow> bool"
  assumes reads_line: "good b \<Longrightarrow> NL \<notin> set l \<Longrightarrow> \<exists>b'. read b (l @ NL # rest) = Inr (l @ [NL], rest, b') \<and> good b'"
    and reads_end: "good b \<Longrightarrow> NL \<notin> set l \<Longrightarrow> \<exists>b'. read b l = Inr (l, [], b') \<and> good b'"
begin

lemma loop_reads:
  assumes "good b" and "\<forall>l \<in> set ls. text_line l" and "length es = length ls"
  shows "\<exists>b'. good b' \<and> line_loop read body (es @ fs) b (as_text ls @ rest) s =
    rbind (over_lines body (zip es (map (\<lambda>l. l @ [NL]) ls)) s) (\<lambda>(s, left).
      if left then Inr (s, True) else line_loop read body fs b' rest s)"
  using assms
proof (induction ls arbitrary: es b s)
  case Nil
  then show ?case by auto
next
  case (Cons l ls)
  then obtain e es' where es: "es = e # es'" by (cases es) auto
  obtain b1 where b1: "read b (l @ NL # as_text ls @ rest) = Inr (l @ [NL], as_text ls @ rest, b1)" "good b1"
    using reads_line [OF Cons.prems(1), of l "as_text ls @ rest"] Cons.prems(2) by (auto simp: text_line_def)
  have c: "cstr (l @ [NL]) = l @ [NL]" using Cons.prems(2) by (simp add: text_line_def)
  show ?case
  proof (cases "body e (l @ [NL]) s")
    case (Inr p)
    then show ?thesis
      using Cons.IH [of b1 es' "fst p"] Cons.prems b1 c es by (cases p) (auto split: if_splits)
  qed (use b1 c es in auto)
qed

text \<open>At the end of the input the loop does not stop: the body gets empty lines.\<close>

lemma loop_at_end:
  assumes "good b"
  shows "line_loop read body es b [] s = over_lines body (map (\<lambda>e. (e, [])) es) s"
  using assms
proof (induction es arbitrary: b s)
  case (Cons e es)
  obtain b1 where "read b [] = Inr ([], [], b1)" "good b1" using reads_end [OF Cons.prems, of "[]"] by auto
  then show ?case using Cons.IH [of b1] by (cases "body e [] s") auto
qed simp

end

section \<open>The line reader of the shell\<close>

definition shell_read :: "nat option \<Rightarrow> string \<Rightarrow> cerror + string \<times> string \<times> nat option" where
  "shell_read buffer input = rbind (lineget buffer input) (\<lambda>(l, rest, cap). Inr (l, rest, Some cap))"

definition large_buffer :: "nat option \<Rightarrow> bool" where
  "large_buffer buffer \<longleftrightarrow> (case buffer of None \<Rightarrow> True | Some cap \<Rightarrow> 300 \<le> cap)"

lemma lineget_reads:
  assumes "large_buffer buffer"
  shows "\<exists>cap. lineget buffer input
      = Inr (takeWhile (\<lambda>c. c \<noteq> NL) input @ (if NL \<in> set input then [NL] else []),
             drop (length (takeWhile (\<lambda>c. c \<noteq> NL) input) + 1) input, cap) \<and> 300 \<le> cap"
  using lineget_loop_line [of 300 "[]" 300 "case buffer of None \<Rightarrow> 300 | Some cap \<Rightarrow> cap" 300 input] assms
  by (fastforce simp: lineget_def large_buffer_def simp del: lineget_loop.simps split: option.splits)

lemma takeWhile_line [simp]: "NL \<notin> set l \<Longrightarrow> takeWhile (\<lambda>c. c \<noteq> NL) (l @ NL # r) = l"
  using strip_newline_line [of l r] unfolding strip_newline_def by blast

lemma takeWhile_no_line [simp]: "NL \<notin> set l \<Longrightarrow> takeWhile (\<lambda>c. c \<noteq> NL) l = l"
  by (induction l) auto

interpretation shell_lines: line_source shell_read large_buffer
proof
  show "\<exists>b'. shell_read b (l @ NL # rest) = Inr (l @ [NL], rest, b') \<and> large_buffer b'"
    if "large_buffer b" "NL \<notin> set l" for b l rest
    using lineget_reads [OF that(1), of "l @ NL # rest"] that(2) by (auto simp: shell_read_def large_buffer_def)
  show "\<exists>b'. shell_read b l = Inr (l, [], b') \<and> large_buffer b'" if "large_buffer b" "NL \<notin> set l" for b l
    using lineget_reads [OF that(1), of l] that(2) by (auto simp: shell_read_def large_buffer_def)
qed

end
