(* ===== verification/Shell_Session.thy ===== *)
theory Shell_Session
  imports Shell_Main Line_Source
begin

text \<open>
  The whole shell, from its configuration file and its standard input: the start of \<open>main\<close> in
  \<open>MyShell/shell.c\<close> and its loop over \<open>lineget\<close>, which is left at the line \<open>exit\<close> only.
\<close>

section \<open>The program\<close>

text \<open>
  The result is None when the configuration file is missing. Otherwise it is the state, and
  whether the loop was left, after as many lines as there are answers of the system.
\<close>

definition shell_main ::
  "bytes option \<Rightarrow> string \<Rightarrow> os \<Rightarrow> os list \<Rightarrow> string \<Rightarrow> cerror + (shell \<times> bool) option" where
  "shell_main rc name os answers input =
     rbind (setPATH rc) (\<lambda>p. case p of
         None \<Rightarrow> Inr None
       | Some path \<Rightarrow>
           if 150 \<le> length name then Inl Overflow
           else let s = initial_shell path (initStuff os name);
                    s = s\<lparr>current_directory := replaceSubstring (HOME os) (cwd_after os ''.'') (current_directory s)\<rparr>
             in rbind (line_loop shell_read handle_line answers None input (emits [Prompt] s)) (\<lambda>r. Inr (Some r)))"

section \<open>Scripts of commands\<close>

text \<open>
  A command of a script: its words and spaces, and the answers of the system while it runs.
  Its process can be created, and it exits with code 0; with any other code the shell would
  take it for a stopped job.
\<close>

definition script_command :: "os \<times> (string \<times> nat) list \<Rightarrow> bool" where
  "script_command c \<longleftrightarrow> (\<forall>p \<in> set (snd c). plain_word (fst p) \<and> nul_free (fst p))
     \<and> ordinary (map fst (snd c)) \<and> 0 < forked (fst c)
     \<and> wait_status (fst c) (forked (fst c)) = exit_status 0"

definition script :: "(os \<times> (string \<times> nat) list) list \<Rightarrow> string" where
  "script cs = as_text (map (\<lambda>c. spaced (snd c)) cs)"

definition script_events :: "string list \<Rightarrow> (os \<times> (string \<times> nat) list) list \<Rightarrow> event list" where
  "script_events path cs = concat (map (\<lambda>c. command_events (fst c) path (map fst (snd c))) cs)"

lemma script_lines: "\<forall>c \<in> set cs. script_command c \<Longrightarrow> \<forall>l \<in> set (map (\<lambda>c. spaced (snd c)) cs). text_line l"
proof -
  have "text_line (spaced (snd c))" if "script_command c" for c
    using that NL_spaced [of "snd c"] nul_free_spaced [of "snd c"] by (auto simp: script_command_def text_line_def)
  then show "\<forall>c \<in> set cs. script_command c \<Longrightarrow> ?thesis" by auto
qed

lemma script_commands_run:
  assumes "shell_ready me s" and "0 < me" and "\<forall>c \<in> set cs. script_command c"
  shows "\<exists>t. over_lines handle_line (map (\<lambda>c. (fst c, spaced (snd c) @ [NL])) cs) s = Inr (t, False)
    \<and> shell_ready me t \<and> log t = log s @ script_events (PATH s) cs"
  using assms(1,3)
proof (induction cs arbitrary: s)
  case Nil
  then show ?case by (simp add: script_events_def)
next
  case (Cons c cs)
  obtain t where t: "handle_line (fst c) (spaced (snd c) @ [NL]) s = Inr (t, False)" "shell_ready me t" "PATH t = PATH s"
      "log t = log s @ command_events (fst c) (PATH s) (map fst (snd c))"
    using command_line_step [OF Cons.prems(1) assms(2), of "snd c" "fst c"] Cons.prems(2) by (auto simp: script_command_def)
  then show ?case using Cons.IH [OF t(2)] Cons.prems(2) by (auto simp: script_events_def)
qed

lemma handle_exit:
  assumes "shell_ok me s" and "0 < me"
  shows "\<exists>t. handle_line os (''exit'' @ [NL]) s = Inr (t, True) \<and> log t = log s \<and> jobSet t = reaped os s"
  using reap_reaped [OF assms, of os] strip_newline_line [of "''exit''" "[]"]
  by (simp add: handle_line_def Let_def start_line_def)

lemma started_shell:
  assumes "\<forall>l \<in> set path. path_line l" and "length path \<le> MAX_NUM_PATHS" and "path \<noteq> []" and "length name < 150"
  obtains s where "shell_ready (self os) s" "PATH s = path" "log s = [Prompt]" "jobSet s = initStuff os name"
    "shell_main (Some (as_text path)) name os answers input
       = rbind (line_loop shell_read handle_line answers None input s) (\<lambda>r. Inr (Some r))"
proof -
  let ?s = "initial_shell path (initStuff os name)"
  let ?t = "emits [Prompt] (?s\<lparr>current_directory := replaceSubstring (HOME os) (cwd_after os ''.'') (current_directory ?s)\<rparr>)"
  have "setPATH (Some (as_text path)) = Inr (Some path)"
    using setPATH_loop_lines [of path "[]"] assms(1,2) by (simp add: setPATH_def as_text_def)
  then have "shell_main (Some (as_text path)) name os answers input
       = rbind (line_loop shell_read handle_line answers None input ?t) (\<lambda>r. Inr (Some r))"
    using assms(4) by (simp add: shell_main_def Let_def)
  moreover have "shell_ready (self os) ?t"
    using assms(3) jobs_ok_initStuff [of os name] by (simp add: shell_ready_def shell_ok_def idle_def initial_shell_def)
  ultimately show thesis using that [of ?t] by (simp add: initial_shell_def)
qed

text \<open>
  C6. The shell as a whole. Started with a configuration file that lists the search path, and
  fed with a text of ordinary commands, one per line and in any spacing, that ends with the
  line \<open>exit\<close>, where every \<open>fork\<close> succeeds and every command exits with code 0, it starts exactly
  the programs of these commands, each once and in order, each found in the search path and
  waited for, and leaves its loop without reading further.
\<close>

theorem shell_runs_script:
  assumes "\<forall>l \<in> set path. path_line l" and "length path \<le> MAX_NUM_PATHS" and "path \<noteq> []"
    and "length name < 150" and "0 < self os" and "\<forall>c \<in> set cs. script_command c"
  shows "\<exists>t. shell_main (Some (as_text path)) name os (map fst cs @ last_os # more_os) (script cs @ ''exit'' @ NL # rest)
      = Inr (Some (t, True))
    \<and> log t = Prompt # script_events path cs"
proof -
  let ?answers = "map fst cs @ last_os # more_os" and ?input = "script cs @ ''exit'' @ NL # rest"
  obtain s where s: "shell_ready (self os) s" "PATH s = path" "log s = [Prompt]"
      "shell_main (Some (as_text path)) name os ?answers ?input
         = rbind (line_loop shell_read handle_line ?answers None ?input s) (\<lambda>r. Inr (Some r))"
    using started_shell [OF assms(1-4)] by metis
  obtain t where t: "over_lines handle_line (map (\<lambda>c. (fst c, spaced (snd c) @ [NL])) cs) s = Inr (t, False)"
      "shell_ready (self os) t" "log t = log s @ script_events path cs"
    using script_commands_run [OF s(1) assms(5,6)] s(2) by auto
  obtain u where u: "handle_line last_os (''exit'' @ [NL]) t = Inr (u, True)" "log u = log t"
    using handle_exit [OF _ assms(5), of t last_os] t(2) by (auto simp: shell_ready_def)
  note lines = script_lines [OF assms(6)]
  have z: "zip (map fst cs) (map (\<lambda>l. l @ [NL]) (map (\<lambda>c. spaced (snd c)) cs)) = map (\<lambda>c. (fst c, spaced (snd c) @ [NL])) cs"
    by (induction cs) auto
  have e: "\<forall>l \<in> set [''exit'']. text_line l" by (simp add: text_line_def)
  obtain b where b: "large_buffer b"
      "line_loop shell_read handle_line ?answers None ?input s = line_loop shell_read handle_line (last_os # more_os) b (''exit'' @ NL # rest) t"
    using shell_lines.loop_reads [OF _ lines, of None "map fst cs" handle_line "last_os # more_os" "''exit'' @ NL # rest" s] t(1)
    unfolding z by (auto simp: script_def large_buffer_def)
  have exits: "line_loop shell_read handle_line (last_os # more_os) b (''exit'' @ NL # rest) t = Inr (u, True)"
    using shell_lines.loop_reads [OF b(1) e, of "[last_os]" handle_line "more_os" rest t] u(1) by auto
  have "shell_main (Some (as_text path)) name os ?answers ?input = Inr (Some (u, True))"
    unfolding s(4) b(2) exits by simp
  then show ?thesis using s(3) t(3) u(2) by simp
qed

theorem shell_runs_script_witness:
  "\<exists>t. shell_main (Some (''/bin/'' @ [NL])) ''./shell'' example_os
        [example_os\<lparr>wait_status := (\<lambda>_. 0)\<rparr>, example_os\<lparr>wait_status := (\<lambda>_. 0)\<rparr>, example_os]
        (''ls -l'' @ [NL] @ ''ls'' @ [NL] @ ''exit'' @ [NL] @ ''ls'')
      = Inr (Some (t, True))
    \<and> log t = Prompt # concat (map (\<lambda>args. [Spawn (Runs ''/bin/ls'' args) Stdin Stdout, Setpgid 0 0, Waitpid 103,
                Tcsetpgrp 0 100, Tcsetpgrp 1 100, Prompt]) [[''ls'', ''-l''], [''ls'']])"
proof -
  let ?os = "example_os\<lparr>wait_status := (\<lambda>_. 0)\<rparr>"
  let ?cs = "[(?os, [(''ls'', 0), (''-l'', 0)]), (?os, [(''ls'', 0)])]"
  have "\<forall>c \<in> set ?cs. script_command c"
    by (simp add: script_command_def plain_word_def ordinary_def operator_free_def is_pipe_def exit_status_def)
  moreover have "path_line ''/bin/''" by (simp add: path_line_def)
  ultimately show ?thesis
    using shell_runs_script [of "[''/bin/'']" "''./shell''" example_os ?cs example_os "[]" "''ls''"]
    by (simp add: script_def script_events_def command_events_def exec_child_def str_concat_def)
qed

section \<open>The end of the input\<close>

lemma handle_empty_line:
  assumes "shell_ready me s" and "0 < me" and "0 < forked os" and "wait_status os (forked os) = exit_status 0"
  shows "\<exists>t. handle_line os [] s = Inr (t, False) \<and> shell_ready me t \<and> PATH t = PATH s
    \<and> log t = log s @ command_events os (PATH s) [[]]"
proof -
  have ok: "shell_ok me s" "idle s" "\<not> badRedirectpipe s" using assms(1) by (auto simp: shell_ready_def)
  have "ordinary [[]]" by (simp add: ordinary_def operator_free_def is_pipe_def)
  moreover have "initArgs (is_daemon s) [] = Inr (is_daemon s, [[]])"
    by (simp add: initArgs_def strip_newline_def getArgumentLength_def)
  ultimately show ?thesis
    using ok assms(3,4) reap_reaped [OF ok(1) assms(2), of os] shell_ok_reaped [OF ok(1), of os]
    by (simp add: handle_line_def Let_def shell_ready_def shell_ok_def dispatch_ordinary execute_ordinary idle_def start_line_def run_command_def job_wait_def
        count_pipes_def execute_child_def command_events_def strip_newline_def is_pipe_def)
qed

text \<open>
  At the end of the input the shell does not stop: as often as its children return it starts
  another child for the command of no characters.
\<close>

theorem shell_never_ends:
  assumes "\<forall>l \<in> set path. path_line l" and "length path \<le> MAX_NUM_PATHS" and "path \<noteq> []"
    and "length name < 150" and "0 < self os" and "\<forall>a \<in> set answers. 0 < forked a \<and> wait_status a (forked a) = exit_status 0"
  shows "\<exists>t. shell_main (Some (as_text path)) name os answers [] = Inr (Some (t, False))
    \<and> log t = Prompt # concat (map (\<lambda>a. command_events a path [[]]) answers)"
proof -
  obtain s where s: "shell_ready (self os) s" "PATH s = path" "log s = [Prompt]"
      "shell_main (Some (as_text path)) name os answers []
         = rbind (line_loop shell_read handle_line answers None [] s) (\<lambda>r. Inr (Some r))"
    using started_shell [OF assms(1-4)] by metis
  have "\<exists>t. over_lines handle_line (map (\<lambda>e. (e, [])) es) s = Inr (t, False)
      \<and> log t = log s @ concat (map (\<lambda>a. command_events a (PATH s) [[]]) es)"
    if "shell_ready (self os) s" "\<forall>a \<in> set es. 0 < forked a \<and> wait_status a (forked a) = exit_status 0" for es s
    using that
  proof (induction es arbitrary: s)
    case (Cons e es)
    obtain t where t: "handle_line e [] s = Inr (t, False)" "shell_ready (self os) t" "PATH t = PATH s"
        "log t = log s @ command_events e (PATH s) [[]]"
      using handle_empty_line [OF Cons.prems(1) assms(5), of e] Cons.prems(2) by auto
    then show ?case using Cons.IH [OF t(2)] Cons.prems(2) by auto
  qed simp
  from this [OF s(1) assms(6)] show ?thesis
    using s shell_lines.loop_at_end [of None handle_line answers s] by (auto simp: large_buffer_def)
qed

theorem shell_never_ends_witness:
  "\<exists>t. shell_main (Some (''/bin/'' @ [NL])) ''./shell'' example_os (replicate 3 (example_os\<lparr>wait_status := (\<lambda>_. 0)\<rparr>)) []
      = Inr (Some (t, False)) \<and> length (log t) = 19"
proof -
  have "path_line ''/bin/''" by (simp add: path_line_def)
  then show ?thesis
    using shell_never_ends [of "[''/bin/'']" "''./shell''" example_os "replicate 3 (example_os\<lparr>wait_status := (\<lambda>_. 0)\<rparr>)"]
    by (auto simp: exit_status_def command_events_def numeral_3_eq_3)
qed

end
