(* ===== verification/Common_Shell.thy ===== *)
theory Common_Shell
  imports Shell_Session
begin

text \<open>
  The shell of \<open>ClusterShell/common.c\<close>, a variant of \<open>MyShell/shell.c\<close>: bars are the only pipes,
  the first command of a pipeline keeps the standard input, and the broadcasts hand their
  commands to \<open>/bin/sh\<close>. The functions whose text is the same in both files are those of the
  theories of the shell; here are the functions that differ, and those that call them. The field
  for the type of a pipe, which this version does not have, is left as it is.
\<close>

section \<open>Pipelines\<close>

definition cm_count_pipes :: "shell \<Rightarrow> shell" where
  "cm_count_pipes s =
     (if length (filter (\<lambda>a. a = ''|'') (argVector s)) = 0 then s\<lparr>noinit_cmd := True\<rparr> else s\<lparr>commands := []\<rparr>)"

function cm_pipe_loop :: "nat \<Rightarrow> shell \<Rightarrow> cerror + shell" where
  "cm_pipe_loop i s =
     (if length (argVector s) \<le> i then Inr s
      else let s1 = s\<lparr>pipeargCount := pipeargCount s + 1\<rparr> in
        if argVector s ! i \<noteq> ''|'' then cm_pipe_loop (Suc i) s1
        else if 2 < i \<and> argVector s ! (i - 2) = ''<'' \<and> redirection_in_pipe s
        then Inr (emits [Printf (''myShell: Multiple Indirection Operators with Pipes'' @ [NL])]
                    (s1\<lparr>badRedirectpipe := True\<rparr>))
        else case end_command i (if 2 < i \<and> argVector s ! (i - 2) = ''<''
                                 then s1\<lparr>redirection_in_pipe := True\<rparr> else s1) of
            Inl e \<Rightarrow> Inl e
          | Inr s2 \<Rightarrow> cm_pipe_loop (Suc i) s2)"
  by pat_completeness auto

termination
  by (relation "measure (\<lambda>(i, s). length (argVector s) - i)")
     (auto simp: end_command_def split: if_splits)

declare cm_pipe_loop.simps [simp del]

definition cm_pipe_filter :: "shell \<Rightarrow> cerror + shell" where
  "cm_pipe_filter s = cm_pipe_loop 0 (cm_count_pipes s)"

text \<open>The first child reads what the standard input of the shell is at that moment.\<close>

fun cm_spawn_pipeline :: "os \<Rightarrow> string list \<Rightarrow> source \<Rightarrow> sink \<Rightarrow> nat \<Rightarrow> string list list \<Rightarrow> event list" where
  "cm_spawn_pipeline os path inp out k [] = []"
| "cm_spawn_pipeline os path inp out k (c # cs) =
     Spawn (exec_child Exits os path c) (if k = 0 then inp else Pipe_in (k - 1)) (if cs = [] then out else Pipe_out k)
     # cm_spawn_pipeline os path inp out (Suc k) cs"

definition cm_executePipe_out :: "os \<Rightarrow> string option \<Rightarrow> string list list \<Rightarrow> shell \<Rightarrow> shell" where
  "cm_executePipe_out os replaced cmd s =
     (let inp = (case replaced of None \<Rightarrow> Stdin | Some f \<Rightarrow> File_in f) in
      if redirection_out_pipe s
      then (case cut_at {''>'', ''>>''} (last cmd) of
              (c, Some (w, None)) \<Rightarrow>
                emits ([no_redirect_file] @ (case replaced of None \<Rightarrow> [] | Some f \<Rightarrow> [Stdin_replaced f])) s
            | (c, Some (w, Some f)) \<Rightarrow>
                emits (cm_spawn_pipeline os (PATH s) inp (File_out f (redirect_mode_of w)) 0 (butlast cmd @ [c])) s
            | (c, None) \<Rightarrow> emits (cm_spawn_pipeline os (PATH s) inp Stdout 0 cmd) s)
      else emits (cm_spawn_pipeline os (PATH s) inp Stdout 0 cmd) s)"

definition cm_executePipe :: "os \<Rightarrow> string list list \<Rightarrow> shell \<Rightarrow> shell" where
  "cm_executePipe os cmd s =
     (if redirection_in_pipe s
      then (case cut_at {''<''} (hd cmd) of
              (c, Some (w, None)) \<Rightarrow> emits [no_redirect_file] s
            | (c, Some (w, Some f)) \<Rightarrow>
                if file_exists os f then cm_executePipe_out os (Some f) (c # tl cmd) s
                else emits [no_such_file (Some f)] s
            | (c, None) \<Rightarrow> cm_executePipe_out os None cmd s)
      else cm_executePipe_out os None cmd s)"

definition cm_output_redirection :: "os \<Rightarrow> shell \<Rightarrow> cerror + shell" where
  "cm_output_redirection os s =
     (let row = drop (lastPipe s + 1) (argVector s);
          n = pipeargCount s;
          out = (2 \<le> n \<and> (argVector s ! (n - 2) = ''>'' \<or> argVector s ! (n - 2) = ''>>''))
      in if 20 \<le> length row then Inl Overflow
         else if ''|'' \<in> set row then Inl Uninitialised
         else let s = emits [Use_after_free] (s\<lparr>commands := commands s @ [row]\<rparr>) in
           if out \<and> redirection_out_pipe s
           then Inr (emits [Printf ''myShell: Multiple Outdirection Operators with Pipes''] (s\<lparr>badRedirectpipe := True\<rparr>))
           else Inr (emits [Prompt] (cm_executePipe os (commands s)
                       (if out then s\<lparr>redirection_out_pipe := True\<rparr> else s))))"

section \<open>Broadcasts\<close>

text \<open>The words of a command with spaces between them; without a word the buffer is uninitialised.\<close>

fun cm_joined :: "string list \<Rightarrow> cerror + string" where
  "cm_joined [] = Inl Uninitialised"
| "cm_joined [w] = Inr w"
| "cm_joined (w # v # ws) = rbind (cm_joined (v # ws)) (\<lambda>t. Inr (w @ '' '' @ t))"

definition sh_c :: "string \<Rightarrow> child" where
  "sh_c line = Runs ''/bin/sh'' [''sh'', ''-c'', line]"

fun cm_consumers :: "string \<Rightarrow> string list list \<Rightarrow> cerror + event list" where
  "cm_consumers txt [] = Inr []"
| "cm_consumers txt (c # cs) = rbind (cm_joined c) (\<lambda>t.
     rbind (cm_consumers txt cs) (\<lambda>es. Inr (Spawn (sh_c (''/bin/'' @ t)) (Text txt) Stdout # es)))"

definition cm_shellMsgQ :: "os \<Rightarrow> string list \<Rightarrow> string list list \<Rightarrow> shell \<Rightarrow> cerror + shell" where
  "cm_shellMsgQ os cmd outputs s = rbind (cm_joined cmd) (\<lambda>temp.
     let out = output_of os (sh_c temp); txt = cstr (last_chunk 8191 out) in
     if out = [] then Inl Uninitialised
     else if 8192 < 8 + length txt + 1 then Inr (emits [Not_delivered] s)
     else rbind (cm_consumers txt outputs) (\<lambda>es. Inr (emits es s)))"

definition cm_shellShm :: "os \<Rightarrow> string list \<Rightarrow> string list list \<Rightarrow> shell \<Rightarrow> cerror + shell" where
  "cm_shellShm os cmd outputs s = rbind (cm_joined cmd) (\<lambda>temp.
     let out = output_of os (sh_c temp); txt = cstr (last_chunk 8191 out) in
     if out = [] then Inl Uninitialised
     else if 4096 \<le> length txt then Inl Overflow
     else rbind (cm_consumers txt outputs) (\<lambda>es. Inr (emits es s)))"

definition cm_redirection_with_pipes_and_ipc :: "os \<Rightarrow> shell \<Rightarrow> cerror + bool \<times> shell" where
  "cm_redirection_with_pipes_and_ipc os s = (case find_operator 0 (argVector s) of
       None \<Rightarrow> Inr (False, s)
     | Some (i, w) \<Rightarrow>
         let before = take i (argVector s); behind = drop (i + 1) (argVector s) in
         if w = ''>'' \<or> w = ''>>'' then
           (if i \<le> lastPipe s
            then Inr (False, emits [Printf (''myShell: Output Redirection before a pipe'' @ [NL])]
                               (s\<lparr>redirect := True\<rparr>))
            else rbind (redirect_to os (if w = ''>'' then 0 else 2)
                          (if 0 < lastPipe s then drop (lastPipe s + 1) before else before) behind s)
                   (\<lambda>s. Inr (False, s)))
         else if w = ''<'' then rbind (redirect_to os 1 before behind s) (\<lambda>s. Inr (False, s))
         else rbind (ipc_rows 0 [] behind) (\<lambda>rows.
                rbind (if w = ''##'' then cm_shellMsgQ os before rows s else cm_shellShm os before rows s)
                  (\<lambda>s. Inr (True, s))))"

section \<open>The main loop\<close>

definition cm_execute_line :: "os \<Rightarrow> shell \<Rightarrow> cerror + shell" where
  "cm_execute_line os s =
     rbind (cm_pipe_filter s) (\<lambda>s.
       if badRedirectpipe s then Inr (back_to_prompt s)
       else if 0 < pipeCount s
       then rbind (cm_output_redirection os s) (\<lambda>s. Inr (back_to_prompt s))
       else rbind (cm_redirection_with_pipes_and_ipc os s) (\<lambda>(result, s).
         if result \<or> redirect s then Inr (back_to_prompt (s\<lparr>redirect := False\<rparr>))
         else run_command os s))"

definition cm_dispatch_args :: "os \<Rightarrow> shell \<Rightarrow> cerror + shell" where
  "cm_dispatch_args os s =
     rbind (builtin os s) (\<lambda>(done, s).
       if done then Inr (emits [Prompt] s)
       else if last (argVector s) = ''&''
       then cm_execute_line os (s\<lparr>isBackground := True, bgcount := int (length (argVector s)) - 1,
                               argVector := butlast (argVector s)\<rparr>)
       else if arg0 s = Some ''fg'' then rbind (exec_fg os s) (\<lambda>s. Inr (emits [Prompt] s))
       else if arg0 s = Some ''bg'' then rbind (exec_bg os s) (\<lambda>s. Inr (emits [Prompt] s))
       else if is_daemon s then Inr (run_daemon os s)
       else cm_execute_line os s)"

definition cm_handle_line :: "os \<Rightarrow> string \<Rightarrow> shell \<Rightarrow> cerror + shell \<times> bool" where
  "cm_handle_line os line s =
     (if line = [NL] then Inr (emits [Prompt] s, False)
      else let s = start_line line s; buffer = strip_newline line in
        rbind (reap (waitpid_nohang os) (jobSet s)) (\<lambda>js. let s = s\<lparr>jobSet := js\<rparr> in
          if buffer = ''exit'' then Inr (s, True)
          else if buffer = ''printlist'' then Inr (emits [Printf (printList (jobSet s)), Prompt] s, False)
          else rbind (initArgs (is_daemon s) line) (\<lambda>(d, args).
            rbind (cm_dispatch_args os (s\<lparr>is_daemon := d, argVector := args\<rparr>)) (\<lambda>s. Inr (s, False)))))"

definition cm_main :: "bytes option \<Rightarrow> string \<Rightarrow> os \<Rightarrow> os list \<Rightarrow> string \<Rightarrow> cerror + (shell \<times> bool) option" where
  "cm_main rc name os answers input =
     rbind (setPATH rc) (\<lambda>p. case p of
         None \<Rightarrow> Inr None
       | Some path \<Rightarrow>
           if 150 \<le> length name then Inl Overflow
           else let s = initial_shell path (initStuff os name);
                    s = s\<lparr>current_directory := replaceSubstring (HOME os) (cwd_after os ''.'') (current_directory s)\<rparr>
             in rbind (line_loop shell_read cm_handle_line answers None input (emits [Prompt] s)) (\<lambda>r. Inr (Some r)))"

section \<open>Splitting at bars\<close>

definition bars_only :: "string list \<Rightarrow> bool" where
  "bars_only ws \<longleftrightarrow> ''#'' \<notin> set ws \<and> ''S'' \<notin> set ws"

lemma is_pipe_bar: "bars_only ws \<Longrightarrow> a \<in> set ws \<Longrightarrow> is_pipe a \<longleftrightarrow> a = ''|''"
  by (auto simp: is_pipe_def bars_only_def)

lemma end_command_args: "end_command i s = Inr t \<Longrightarrow> argVector t = argVector s"
  by (auto simp: end_command_def split: if_splits)

lemma cm_pipe_loop_eq: "bars_only (argVector s) \<Longrightarrow> cm_pipe_loop i s = pipe_loop i s"
proof (induction i s rule: pipe_loop.induct)
  case (1 i s)
  let ?s1 = "s\<lparr>pipeargCount := pipeargCount s + 1\<rparr>"
  let ?s2 = "if 2 < i \<and> argVector s ! (i - 2) = ''<'' then ?s1\<lparr>redirection_in_pipe := True\<rparr> else ?s1"
  show ?case
  proof (cases "i < length (argVector s)")
    case True
    then have p: "is_pipe (argVector s ! i) \<longleftrightarrow> argVector s ! i = ''|''" using is_pipe_bar [OF 1(3)] nth_mem by blast
    show ?thesis
    proof (cases "argVector s ! i = ''|''")
      case False
      then show ?thesis using 1(1) [OF _ refl] 1(3) True p
        by (simp add: pipe_loop.simps [of i s] cm_pipe_loop.simps [of i s])
    next
      case bar: True
      have args: "argVector ?s2 = argVector s" by simp
      show ?thesis
      proof (cases "2 < i \<and> argVector s ! (i - 2) = ''<'' \<and> redirection_in_pipe s")
        case False
        have "cm_pipe_loop (Suc i) t = pipe_loop (Suc i) t" if "end_command i ?s2 = Inr t" for t
          using 1(2) [OF _ refl _ False that] 1(3) end_command_args [OF that] args True p bar by simp
        then have "(case end_command i ?s2 of Inl e \<Rightarrow> Inl e | Inr t \<Rightarrow> cm_pipe_loop (Suc i) t)
            = (case end_command i ?s2 of Inl e \<Rightarrow> Inl e | Inr t \<Rightarrow> pipe_loop (Suc i) t)"
          by (cases "end_command i ?s2") simp_all
        moreover have "cm_pipe_loop i s = (case end_command i ?s2 of Inl e \<Rightarrow> Inl e | Inr t \<Rightarrow> cm_pipe_loop (Suc i) t)"
          by (subst cm_pipe_loop.simps) (use True bar False in \<open>auto simp: Let_def\<close>)
        moreover have "pipe_loop i s = (case end_command i ?s2 of Inl e \<Rightarrow> Inl e | Inr t \<Rightarrow> pipe_loop (Suc i) t)"
          by (subst pipe_loop.simps) (use True bar False p in \<open>auto simp: Let_def\<close>)
        ultimately show ?thesis by simp
      qed (use True bar p in \<open>simp add: pipe_loop.simps [of i s] cm_pipe_loop.simps [of i s] Let_def\<close>)
    qed
  qed (simp add: pipe_loop.simps [of i s] cm_pipe_loop.simps [of i s])
qed

section \<open>Lines without pipes and broadcasts\<close>

definition no_ipc :: "string list \<Rightarrow> bool" where
  "no_ipc ws \<longleftrightarrow> set ws \<inter> {''|'', ''#'', ''S'', ''##'', ''SS''} = {}"

lemma pipeType_same: "pipeType s = NONE \<Longrightarrow> s\<lparr>pipeType := NONE\<rparr> = s"
  by (cases s) simp

lemma pipe_type_none: "no_ipc ws \<Longrightarrow> pipe_type t ws = t"
  by (induction ws) (auto simp: no_ipc_def)

lemma no_ipc_pipes: "no_ipc ws \<Longrightarrow> filter is_pipe ws = [] \<and> filter (\<lambda>a. a = ''|'') ws = [] \<and> bars_only ws"
  by (auto simp: no_ipc_def is_pipe_def filter_empty_conv bars_only_def)

lemma cm_pipe_filter_eq:
  assumes "no_ipc (argVector s)" and "pipeType s = NONE"
  shows "cm_pipe_filter s = pipe_filter s"
proof -
  have "count_pipes s = (s\<lparr>pipeType := NONE\<rparr>)\<lparr>noinit_cmd := True\<rparr>"
    using no_ipc_pipes [OF assms(1)] by (simp add: count_pipes_def pipe_type_none [OF assms(1)] assms(2))
  then have "cm_count_pipes s = count_pipes s"
    using no_ipc_pipes [OF assms(1)] by (simp add: cm_count_pipes_def pipeType_same [OF assms(2)])
  moreover have "bars_only (argVector (count_pipes s))"
    using no_ipc_pipes [OF assms(1)] by (simp add: count_pipes_def Let_def)
  ultimately show ?thesis by (simp add: cm_pipe_filter_def pipe_filter_def cm_pipe_loop_eq)
qed

lemma find_operator_set: "find_operator i ws = Some (j, w) \<Longrightarrow> w \<in> set ws \<and> w \<in> {''>'', ''>>'', ''<'', ''##'', ''SS''}"
  by (induction ws arbitrary: i) (auto split: if_splits)

lemma cm_redirection_eq:
  assumes "no_ipc (argVector s)"
  shows "cm_redirection_with_pipes_and_ipc os s = redirection_with_pipes_and_ipc os s"
proof (cases "find_operator 0 (argVector s)")
  case (Some p)
  obtain i w where p: "p = (i, w)" by (cases p)
  then have "w = ''>'' \<or> w = ''>>'' \<or> w = ''<''"
    using find_operator_set [of 0 "argVector s" i w] Some assms by (auto simp: no_ipc_def)
  then show ?thesis
    unfolding cm_redirection_with_pipes_and_ipc_def redirection_with_pipes_and_ipc_def Some p option.case prod.case Let_def
    by (elim disjE) simp_all
qed (simp add: cm_redirection_with_pipes_and_ipc_def redirection_with_pipes_and_ipc_def)

lemma pipe_filter_plain:
  assumes "no_ipc (argVector s)" and "pipe_filter s = Inr t"
  shows "argVector t = argVector s \<and> pipeCount t = pipeCount s \<and> pipeType t = pipeType s"
proof -
  have "t = (count_pipes s)\<lparr>pipeargCount := pipeargCount s + length (argVector s)\<rparr>"
    using pipe_filter_no_pipes no_ipc_pipes [OF assms(1)] assms(2) by simp
  then show ?thesis using no_ipc_pipes [OF assms(1)] by (simp add: count_pipes_def Let_def pipe_type_none [OF assms(1)])
qed

lemma cm_execute_line_eq:
  assumes "no_ipc (argVector s)" and "pipeType s = NONE" and "pipeCount s = 0"
  shows "cm_execute_line os s = execute_line os s"
proof (cases "pipe_filter s")
  case (Inr t)
  then show ?thesis
    using pipe_filter_plain [OF assms(1) Inr] cm_pipe_filter_eq [OF assms(1,2)] cm_redirection_eq [of t os] assms(1,3)
    by (simp add: cm_execute_line_def execute_line_def)
qed (use cm_pipe_filter_eq [OF assms(1,2)] in \<open>simp add: cm_execute_line_def execute_line_def\<close>)

text \<open>What a line without these operators leaves alone.\<close>

lemma run_command_type: "run_command os s = Inr t \<Longrightarrow> pipeType t = pipeType s"
  by (auto simp: run_command_def Let_def insert_background_job_def job_wait_def split: if_splits option.splits)

lemma redirect_to_type: "redirect_to os k c d s = Inr t \<Longrightarrow> pipeType t = pipeType s"
  by (auto simp: redirect_to_def execRedirect_def Let_def split: if_splits option.splits)

lemma redirection_type:
  assumes "no_ipc (argVector s)" and "redirection_with_pipes_and_ipc os s = Inr (b, t)"
  shows "pipeType t = pipeType s"
proof (cases "find_operator 0 (argVector s)")
  case (Some p)
  obtain i w where p: "p = (i, w)" by (cases p)
  then have "w = ''>'' \<or> w = ''>>'' \<or> w = ''<''"
    using find_operator_set [of 0 "argVector s" i w] Some assms(1) by (auto simp: no_ipc_def)
  then show ?thesis
    using assms(2) unfolding redirection_with_pipes_and_ipc_def Some p option.case prod.case Let_def
    by (elim disjE) (auto split: if_splits dest!: redirect_to_type)
qed (use assms(2) in \<open>simp add: redirection_with_pipes_and_ipc_def\<close>)

lemma execute_line_type:
  assumes "no_ipc (argVector s)" and "pipeCount s = 0" and "execute_line os s = Inr t"
  shows "pipeType t = pipeType s"
proof -
  obtain s1 where s1: "pipe_filter s = Inr s1" using assms(3) by (auto simp: execute_line_def)
  note same = pipe_filter_plain [OF assms(1) s1]
  have r: "pipeType s2 = pipeType s" if "redirection_with_pipes_and_ipc os s1 = Inr (b, s2)" for b s2
    using redirection_type [OF _ that] same assms(1) by simp
  show ?thesis
    using assms(2,3) s1 same
    by (auto simp: execute_line_def back_to_prompt_def split: if_splits dest!: r run_command_type)
qed

lemma exec_fg_type: "exec_fg os s = Inr t \<Longrightarrow> pipeType t = pipeType s"
  by (auto simp: exec_fg_def Let_def shellfgCommand_def split: if_splits list.splits option.splits)

lemma exec_bg_type: "exec_bg os s = Inr t \<Longrightarrow> pipeType t = pipeType s"
  by (auto simp: exec_bg_def Let_def shellbgCommand_def split: if_splits list.splits option.splits)

lemma builtin_plain:
  assumes "builtin os s = Inr (b, t)" and "no_ipc (argVector s)"
  shows "no_ipc (argVector t) \<and> pipeType t = pipeType s \<and> pipeCount t = pipeCount s"
proof -
  have "no_ipc [tl a]" if "take 2 a = ''./''" for a
    using that by (cases a; cases "tl a") (auto simp: no_ipc_def)
  then show ?thesis using assms by (auto simp: builtin_def split: list.splits if_splits)
qed

lemma no_ipc_butlast: "no_ipc ws \<Longrightarrow> no_ipc (butlast ws)"
  by (auto simp: no_ipc_def dest: in_set_butlastD)

lemma cm_dispatch_eq:
  assumes "no_ipc (argVector s)" and "pipeType s = NONE" and "pipeCount s = 0"
  shows "cm_dispatch_args os s = dispatch_args os s \<and> (\<forall>t. dispatch_args os s = Inr t \<longrightarrow> pipeType t = NONE)"
proof (cases "builtin os s")
  case (Inr p)
  obtain b s1 where p: "p = (b, s1)" by (cases p)
  note plain = builtin_plain [OF Inr [unfolded p] assms(1)]
  let ?s2 = "s1\<lparr>isBackground := True, bgcount := int (length (argVector s1)) - 1, argVector := butlast (argVector s1)\<rparr>"
  have "cm_execute_line os s1 = execute_line os s1" "cm_execute_line os ?s2 = execute_line os ?s2"
    using plain assms(2,3) by (auto intro!: cm_execute_line_eq no_ipc_butlast)
  moreover have "pipeType t = NONE" if "execute_line os s1 = Inr t \<or> execute_line os ?s2 = Inr t" for t
    using that execute_line_type [of s1 os t] execute_line_type [of ?s2 os t] plain assms(2,3)
    by (auto intro: no_ipc_butlast)
  moreover have "pipeType (run_daemon os s1) = NONE"
    using plain assms(2) by (simp add: run_daemon_def daemonizeProcess_def Let_def)
  ultimately show ?thesis
    using Inr p plain assms(2)
    by (auto simp: cm_dispatch_args_def dispatch_args_def dest!: exec_fg_type exec_bg_type split: if_splits)
qed (simp add: cm_dispatch_args_def dispatch_args_def)

section \<open>The two shells agree\<close>

text \<open>The characters of the words are characters of the line, and those of the line of the input.\<close>

lemma init_args_chars:
  "init_args cap d ws w cs = Inr (d', args) \<Longrightarrow> \<Union> (set ` set args) \<subseteq> \<Union> (set ` set ws) \<union> set w \<union> set cs"
proof (induction cap d ws w cs rule: init_args.induct)
  case (1 cap d ws w)
  then show ?case by (auto split: if_splits)
next
  case (2 cap d ws w c cs)
  consider "c = CHR '' '' \<and> cs \<noteq> [] \<and> hd cs = CHR '' ''" | "\<not> (c = CHR '' '' \<and> cs \<noteq> [] \<and> hd cs = CHR '' '')" by blast
  then show ?case using 2 by cases (auto split: if_splits)
qed

lemma lineget_loop_chars:
  "lineget_loop len lenmax cap acc input = Inr (l, rest, cap') \<Longrightarrow> set l \<subseteq> set acc \<union> set input \<and> set rest \<subseteq> set input"
proof (induction input arbitrary: len lenmax cap acc)
  case Nil
  then show ?case by (auto simp: lineget_end_def split: if_splits)
next
  case (Cons c cs)
  obtain a b k where "(if len - 1 = 0 then (lenmax, 2 * lenmax, 2 * lenmax) else (len - 1, lenmax, cap)) = (a, b, k)"
    using prod_cases3 by blast
  then show ?case using Cons.prems Cons.IH [of a b k "acc @ [c]"]
    by (auto simp: lineget_end_def simp del: One_nat_def split: if_splits)
qed

lemma shell_read_chars: "shell_read b input = Inr (l, rest, b') \<Longrightarrow> set l \<subseteq> set input \<and> set rest \<subseteq> set input"
  using lineget_loop_chars [of 300 300 "case b of None \<Rightarrow> 300 | Some cap \<Rightarrow> cap" "[]" input l rest]
  by (auto simp: shell_read_def lineget_def simp del: lineget_loop.simps)

definition plain_text :: "string \<Rightarrow> bool" where
  "plain_text t \<longleftrightarrow> set t \<inter> {CHR ''|'', CHR ''#'', CHR ''S''} = {}"

lemma plain_text_subset: "plain_text t \<Longrightarrow> set l \<subseteq> set t \<Longrightarrow> plain_text l"
  by (auto simp: plain_text_def)

lemma plain_text_words:
  assumes "plain_text line" and "initArgs d line = Inr (d', args)"
  shows "no_ipc args"
proof -
  have "\<Union> (set ` set args) \<subseteq> set (strip_newline line)"
    using init_args_chars [of _ d "[]" "[]" "strip_newline line" d' args] assms(2) by (simp add: initArgs_def)
  also have "\<dots> \<subseteq> set line" by (auto simp: strip_newline_def dest: set_takeWhileD)
  finally have "plain_text w" if "w \<in> set args" for w using assms(1) that by (auto simp: plain_text_def)
  then show ?thesis by (fastforce simp: no_ipc_def plain_text_def)
qed

lemma cm_handle_line_eq:
  assumes "plain_text line" and "pipeType s = NONE"
  shows "cm_handle_line os line s = handle_line os line s
    \<and> (\<forall>t b. handle_line os line s = Inr (t, b) \<longrightarrow> pipeType t = NONE)"
proof (cases "line = [NL]")
  case False
  let ?s = "start_line line s"
  have s: "pipeType ?s = NONE" "pipeCount ?s = 0" "is_daemon ?s = is_daemon s" using assms(2) by (simp_all add: start_line_def)
  show ?thesis
  proof (cases "reap (waitpid_nohang os) (jobSet ?s)")
    case (Inr js)
    have d: "cm_dispatch_args os u = dispatch_args os u \<and> (\<forall>t. dispatch_args os u = Inr t \<longrightarrow> pipeType t = NONE)"
      if "initArgs (is_daemon s) line = Inr (d, args)" "u = ?s\<lparr>jobSet := js, is_daemon := d, argVector := args\<rparr>" for u d args
      using cm_dispatch_eq [of u os] plain_text_words [OF assms(1) that(1)] s that(2) by simp
    show ?thesis
    proof (cases "initArgs (is_daemon s) line")
      case (Inr p)
      then show ?thesis using \<open>reap _ _ = Inr js\<close> False s d [of "fst p" "snd p", OF _ refl]
        by (cases p) (auto simp: cm_handle_line_def handle_line_def Let_def pipeType_same [OF assms(2)])
    qed (use Inr False s in \<open>auto simp: cm_handle_line_def handle_line_def Let_def pipeType_same [OF assms(2)]\<close>)
  qed (use False in \<open>simp add: cm_handle_line_def handle_line_def Let_def pipeType_same [OF assms(2)]\<close>)
qed (use assms(2) in \<open>simp add: cm_handle_line_def handle_line_def Let_def pipeType_same [OF assms(2)]\<close>)

lemma cm_line_loop_eq:
  assumes "plain_text input" and "pipeType s = NONE"
  shows "line_loop shell_read cm_handle_line answers b input s = line_loop shell_read handle_line answers b input s"
  using assms
proof (induction answers arbitrary: b input s)
  case (Cons os answers)
  show ?case
  proof (cases "shell_read b input")
    case (Inr p)
    obtain l rest b' where p: "p = (l, rest, b')" using prod_cases3 by blast
    have sub: "set (cstr l) \<subseteq> set input" "set rest \<subseteq> set input"
      using shell_read_chars [of b input l rest b'] Inr p by (auto simp: cstr_def dest: set_takeWhileD)
    note eq = cm_handle_line_eq [OF plain_text_subset [OF Cons.prems(1) sub(1)] Cons.prems(2), of os]
    show ?thesis
    proof (cases "handle_line os (cstr l) s")
      case (Inr q)
      obtain t left where q: "q = (t, left)" by (cases q)
      then have "pipeType t = NONE" using eq Inr by blast
      then show ?thesis using Cons.IH [OF plain_text_subset [OF Cons.prems(1) sub(2)], of t b'] eq Inr q p \<open>shell_read b input = Inr p\<close>
        by simp
    qed (use eq Inr p in simp)
  qed simp
qed simp

text \<open>
  C21. The shell of the cluster directory is the same program as the one it was taken from, as long as
  the input does not use what they differ in: for every configuration, every answer of the
  system and every input text without a bar, a number sign or a capital S the two programs do
  the same, line by line, down to the state they end in and the errors.
\<close>

theorem common_shell_equivalent:
  assumes "plain_text input"
  shows "cm_main rc name os answers input = shell_main rc name os answers input"
proof -
  have "line_loop shell_read cm_handle_line answers None input s = line_loop shell_read handle_line answers None input s"
    if "pipeType s = NONE" for s using cm_line_loop_eq [OF assms that] .
  moreover have "pipeType (emits [Prompt] (s\<lparr>current_directory := d\<rparr>)) = pipeType s" for s d by simp
  moreover have "pipeType (initial_shell path jobs) = NONE" for path jobs by (simp add: initial_shell_def)
  ultimately show ?thesis
    by (cases "setPATH rc") (auto simp: cm_main_def shell_main_def Let_def split: option.split)
qed

theorem common_shell_equivalent_witness:
  "cm_main (Some (''/bin/'' @ [NL])) ''sh'' example_os [example_os] (''ls -l'' @ [NL])
     = shell_main (Some (''/bin/'' @ [NL])) ''sh'' example_os [example_os] (''ls -l'' @ [NL])"
  using common_shell_equivalent [of "''ls -l'' @ [NL]"] by (simp add: plain_text_def)

section \<open>Pipelines of the variant\<close>

definition with_source :: "source \<Rightarrow> event \<Rightarrow> event" where
  "with_source inp e = (case e of Spawn c Closed_in out \<Rightarrow> Spawn c inp out | _ \<Rightarrow> e)"

lemma cm_spawn_pipeline_source:
  "cm_spawn_pipeline os path inp out k cs = map (with_source inp) (spawn_pipeline os path out k cs)"
  by (induction cs arbitrary: k) (simp_all add: with_source_def)

text \<open>
  A pipeline of this shell is wired like that of the other, except that its first command
  is not cut off from the standard input: the k-th child reads the pipe that the child before
  it writes, the first the standard input, and the last writes the standard output. The prompt is printed when the
  pipeline has ended, and again by the main loop.
\<close>

theorem common_pipeline_wiring:
  assumes "fresh_line s" and "argVector s \<noteq> []" and "hd (argVector s) \<noteq> ''|''" and "''|'' \<in> set (argVector s)"
    and "\<forall>a \<in> set (argVector s). a \<notin> {''#'', ''S'', ''<'', ''>'', ''>>''}"
    and "\<forall>r \<in> set (split_pipes (argVector s)). length r < 20"
  shows "\<exists>t. rbind (cm_pipe_filter s) (cm_output_redirection os) = Inr t
    \<and> commands t = split_pipes (argVector s)
    \<and> log t = log s @ Use_after_free # map (\<lambda>k.
        Spawn (exec_child Exits os (PATH s) (split_pipes (argVector s) ! k))
          (if k = 0 then Stdin else Pipe_in (k - 1))
          (if k + 1 = length (split_pipes (argVector s)) then Stdout else Pipe_out k))
        [0..<length (split_pipes (argVector s))] @ [Prompt]"
proof -
  let ?args = "argVector s" and ?s = "cm_count_pipes s"
  have "filter (\<lambda>a. a = ''|'') ?args \<noteq> []" using assms(4) by (auto simp: filter_empty_conv)
  then have s: "?s = s\<lparr>commands := []\<rparr>" by (simp add: cm_count_pipes_def)
  have bars: "bars_only (argVector ?s)" using assms(5) by (auto simp: s bars_only_def)
  have "pipe_inv ?args 0 ?s" "\<not> is_pipe (hd ?args)"
    using assms(1-3,5) by (auto simp: s pipe_inv_def command_before_def fresh_line_def is_pipe_def)
  then obtain t row where t: "cm_pipe_filter s = Inr t" "same_setup ?s t" "argVector t = ?args" "row = drop (Suc (lastPipe t)) ?args"
      "commands t @ [row] = split_pipes ?args" "length row < 20" "\<forall>a \<in> set row. \<not> is_pipe a"
      "?args ! (pipeargCount t - 2) \<notin> {''>'', ''>>''}"
    using split_line [of ?args ?s] assms(2-6) unfolding cm_pipe_filter_def cm_pipe_loop_eq [OF bars] by auto
  moreover have "''|'' \<notin> set row" using t(7) by (auto simp: is_pipe_def)
  ultimately show ?thesis using assms(1)
    by (auto simp: cm_output_redirection_def Let_def cm_executePipe_def cm_executePipe_out_def same_setup_def s fresh_line_def
        cm_spawn_pipeline_source spawn_pipeline_map [where k = 0, simplified] with_source_def)
qed

theorem common_pipeline_wiring_witness:
  "\<exists>t. rbind (cm_pipe_filter (example_shell [''ls'', ''|'', ''wc''])) (cm_output_redirection example_os) = Inr t
    \<and> log t = [Use_after_free, Spawn (Runs ''/bin/ls'' [''ls'']) Stdin (Pipe_out 0),
               Spawn (Runs ''/bin/wc'' [''wc'']) (Pipe_in 0) Stdout, Prompt]"
  using common_pipeline_wiring [of "example_shell [''ls'', ''|'', ''wc'']" example_os]
  by (auto simp: initial_shell_def fresh_line_def is_pipe_def exec_child_def str_concat_def upt_rec)

end
