(* ===== verification/Voting.thy ===== *)
theory Voting
  imports Line_Source
begin

text \<open>
  The voting program of \<open>Voting System/msg.c\<close>: the commands read from the terminal, the votes
  of the children, each sent as text through the message queue and read back by the parent
  before the next child is forked, and the decision. The coin tosses are a parameter. The
  array of votes is allocated for one integer; a vote stored behind it is an overflow.
\<close>

section \<open>The program\<close>

definition perform_vote :: "nat \<Rightarrow> nat" where
  "perform_vote rand = rand mod 2"

definition vote_lineget :: "string \<Rightarrow> cerror + string \<times> string \<times> nat" where
  "vote_lineget input = lineget_loop 100 100 100 [] input"

text \<open>The text a child sends; otherwise it is the text the message held before.\<close>

definition vote_text :: "string \<Rightarrow> nat \<Rightarrow> string" where
  "vote_text mtext result = (if result = 0 then ''0'' else if result = 1 then ''1'' else mtext)"

text \<open>
  One child after the other: the votes received and the last text in the message. The vote of
  child \<open>i\<close> is stored at index \<open>i\<close> of an array of one element.
\<close>

definition votes_size :: nat where "votes_size = 1"

fun collect_votes :: "string \<Rightarrow> nat \<Rightarrow> nat list \<Rightarrow> cerror + int list \<times> string" where
  "collect_votes mtext i [] = Inr ([], mtext)"
| "collect_votes mtext i (r # rands) =
     (let t = vote_text mtext (perform_vote r) in
      if votes_size \<le> i then Inl Overflow
      else rbind (collect_votes t (Suc i) rands) (\<lambda>(votes, last_text). Inr (atoi t # votes, last_text)))"

datatype decision = One_majority | Zero_majority | Equal

fun tally :: "nat \<Rightarrow> nat \<Rightarrow> int list \<Rightarrow> nat \<times> nat" where
  "tally one_count zero_count [] = (one_count, zero_count)"
| "tally one_count zero_count (v # vs) =
     (if v = 1 then tally (one_count + 1) zero_count vs else tally one_count (zero_count + 1) vs)"

definition decide :: "int list \<Rightarrow> decision" where
  "decide votes =
     (let (one_count, zero_count) = tally 0 0 votes in
      if one_count > zero_count then One_majority
      else if one_count < zero_count then Zero_majority else Equal)"

text \<open>
  The main loop over the input: every vote takes the tosses of its children from the list.
  The result is the list of decisions, None when the input or the tosses run out before
  \<open>exit\<close>.
\<close>

fun voting :: "nat \<Rightarrow> nat \<Rightarrow> string \<Rightarrow> nat list \<Rightarrow> string \<Rightarrow> cerror + decision list option" where
  "voting 0 n mtext rands input = Inr None"
| "voting (Suc fuel) n mtext rands input =
     rbind (vote_lineget input) (\<lambda>(line, rest, cap).
       let buffer = strip_newline (cstr line) in
       if 8192 \<le> length buffer then Inl Overflow
       else if buffer = ''exit'' then Inr (Some [])
       else if buffer = ''vote'' then
         (if length rands < n then Inr None
          else rbind (collect_votes buffer 0 (take n rands)) (\<lambda>(votes, last_txt).
            rbind (voting fuel n last_txt (drop n rands) rest)
              (\<lambda>r. Inr (map_option ((#) (decide votes)) r))))
       else voting fuel n buffer rands rest)"

section \<open>Votes and decision\<close>

lemma atoi_vote: "atoi (vote_text mtext (perform_vote r)) = int (r mod 2)"
proof -
  have "r mod 2 = 0 \<or> r mod 2 = 1" by linarith
  moreover have "atoi ''0'' = 0" "atoi ''1'' = 1"
    by (simp_all add: atoi_def is_space_def is_digit_def)
  ultimately show ?thesis by (auto simp: vote_text_def perform_vote_def)
qed

lemma collect_votes_values:
  "if i + length rands \<le> votes_size \<or> rands = []
   then \<exists>last_text. collect_votes mtext i rands = Inr (map (\<lambda>r. int (r mod 2)) rands, last_text)
   else collect_votes mtext i rands = Inl Overflow"
proof (induction rands arbitrary: mtext i)
  case (Cons r rands)
  from Cons [where i = "Suc i"] show ?case
    by (cases "votes_size \<le> i"; cases rands) (auto simp: atoi_vote Let_def votes_size_def split: if_splits)
qed simp

lemma tally_counts:
  "tally a b vs = (a + length (filter (\<lambda>v. v = 1) vs), b + length (filter (\<lambda>v. v \<noteq> 1) vs))"
  by (induction vs arbitrary: a b) auto

text \<open>The number of children that toss a one.\<close>

definition ones :: "nat list \<Rightarrow> nat" where
  "ones rands = length (filter odd rands)"

lemma decide_votes:
  "decide (map (\<lambda>r. int (r mod 2)) rands) =
     (if length rands < 2 * ones rands then One_majority
      else if 2 * ones rands < length rands then Zero_majority else Equal)"
proof -
  have "length (filter (\<lambda>v. v = 1) (map (\<lambda>r. int (r mod 2)) rands)) = ones rands"
    by (induction rands) (auto simp: ones_def odd_iff_mod_2_eq_one)
  moreover have "length (filter (\<lambda>v. v = 1) (map (\<lambda>r. int (r mod 2)) rands))
      + length (filter (\<lambda>v. v \<noteq> 1) (map (\<lambda>r. int (r mod 2)) rands)) = length rands"
    using sum_length_filter_compl [of "\<lambda>v. v = 1" "map (\<lambda>r. int (r mod 2)) rands"] by simp
  ultimately show ?thesis by (simp add: decide_def tally_counts)
qed

definition majority :: "nat list \<Rightarrow> decision" where
  "majority rands = (if length rands < 2 * ones rands then One_majority
     else if 2 * ones rands < length rands then Zero_majority else Equal)"

interpretation vote_lines: line_source "\<lambda>_. vote_lineget" "\<lambda>_. True"
proof
  show "\<exists>b'. vote_lineget (l @ NL # rest) = Inr (l @ [NL], rest, b') \<and> True" if "NL \<notin> set l" for l rest
    using lineget_loop_line [of 100 "[]" 100 100 100 "l @ NL # rest"] that by (auto simp: vote_lineget_def)
  show "\<exists>b'. vote_lineget l = Inr (l, [], b') \<and> True" if "NL \<notin> set l" for l
    using lineget_loop_line [of 100 "[]" 100 100 100 l] that by (auto simp: vote_lineget_def)
qed

lemma vote_line:
  assumes "NL \<notin> set l" and "nul_free l"
  obtains cap where "vote_lineget (l @ NL # rest) = Inr (l @ [NL], rest, cap)" "strip_newline (cstr (l @ [NL])) = l"
proof -
  obtain cap where "vote_lineget (l @ NL # rest) = Inr (l @ [NL], rest, cap)"
    using vote_lines.reads_line [OF TrueI assms(1), of rest] by auto
  moreover have "cstr (l @ [NL]) = l @ [NL]" using assms(2) by simp
  ultimately show thesis using that assms(1) by simp
qed

text \<open>
  C40. A session of \<open>k\<close> votes and an exit. With at most one child it prints \<open>k\<close> decisions, and each
  is the majority among the tosses of the children of that vote, whatever was in the message
  before: every vote survives its way as text through the queue. With two or more children the
  first vote writes behind the array of votes.
\<close>

theorem voting_session:
  assumes "length rands = k * n" and "k < fuel"
  shows "voting fuel n mtext rands (concat (replicate k (''vote'' @ [NL])) @ ''exit'' @ [NL])
    = (if n \<le> 1 \<or> k = 0 then Inr (Some (map (\<lambda>i. majority (take n (drop (i * n) rands))) [0..<k])) else Inl Overflow)"
  using assms
proof (induction k arbitrary: fuel mtext rands)
  case 0
  then obtain f where f: "fuel = Suc f" by (cases fuel) auto
  obtain cap where "vote_lineget (''exit'' @ NL # []) = Inr (''exit'' @ [NL], [], cap)"
      "strip_newline (cstr (''exit'' @ [NL])) = ''exit''"
    using vote_line [of "''exit''" "[]"] by auto
  then show ?case by (simp add: f Let_def)
next
  case (Suc k)
  then obtain f where f: "fuel = Suc f" "k < f" by (cases fuel) auto
  let ?rest = "concat (replicate k (''vote'' @ [NL])) @ ''exit'' @ [NL]"
  obtain cap where v: "vote_lineget (''vote'' @ NL # ?rest) = Inr (''vote'' @ [NL], ?rest, cap)"
      "strip_newline (cstr (''vote'' @ [NL])) = ''vote''"
    using vote_line [of "''vote''" ?rest] by auto
  have len: "length (take n rands) = n" "take n rands = [] \<longleftrightarrow> n = 0" using Suc.prems(1) by auto
  note c = collect_votes_values [of 0 "take n rands" "''vote''", unfolded len votes_size_def]
  show ?case
  proof (cases "n \<le> 1")
    case True
    then obtain last_txt where c: "collect_votes ''vote'' 0 (take n rands) = Inr (map (\<lambda>r. int (r mod 2)) (take n rands), last_txt)"
      using c by auto
    have "voting f n last_txt (drop n rands) ?rest
        = Inr (Some (map (\<lambda>i. majority (take n (drop (i * n) (drop n rands)))) [0..<k]))"
      using Suc.prems(1) f(2) True Suc.IH [of "drop n rands" f last_txt] by simp
    moreover have "map (\<lambda>i. majority (take n (drop (i * n) rands))) [0..<Suc k]
        = majority (take n rands) # map (\<lambda>i. majority (take n (drop (i * n) (drop n rands)))) [0..<k]"
      by (simp add: upt_conv_Cons map_Suc_upt [symmetric] add.commute del: upt_Suc)
    ultimately show ?thesis
      using v c True Suc.prems(1) decide_votes [of "take n rands"] by (simp add: f(1) Let_def majority_def)
  next
    case False
    then have "collect_votes ''vote'' 0 (take n rands) = Inl Overflow" using c by auto
    then show ?thesis using v False Suc.prems(1) by (simp add: f(1) Let_def)
  qed
qed

theorem voting_session_witness:
  "voting 3 1 [] [5, 2] (''vote'' @ [NL] @ ''vote'' @ [NL] @ ''exit'' @ [NL]) = Inr (Some [One_majority, Zero_majority])
   \<and> voting 3 3 [] [5, 2, 7] (''vote'' @ [NL] @ ''exit'' @ [NL]) = Inl Overflow"
  using voting_session [of "[5, 2]" "Suc (Suc 0)" 1 3 "[]"] voting_session [of "[5, 2, 7]" "Suc 0" 3 3 "[]"]
  by (simp add: majority_def ones_def del: voting.simps)

text \<open>The decision of any list of votes is their majority; the overflow is not in the counting.\<close>

theorem decide_is_majority: "decide (map (\<lambda>r. int (r mod 2)) rands) = majority rands"
  by (simp add: decide_votes majority_def)

end
