(* ===== verification/Client_Registry.thy ===== *)
theory Client_Registry
  imports NP_Prelude
begin

text \<open>
  What the servers of the cluster shell expect of their lists of clients: the locale
  \<open>client_registry\<close>, a set of clients with pairwise different keys.
\<close>

datatype 'n change = Joins 'n | Leaves int

text \<open>The set of clients after a sequence of changes.\<close>

fun members :: "('n \<Rightarrow> int) \<Rightarrow> 'n change list \<Rightarrow> 'n set \<Rightarrow> 'n set" where
  "members key [] S = S"
| "members key (Joins n # cs) S = members key cs (insert n S)"
| "members key (Leaves k # cs) S = members key cs {n \<in> S. key n \<noteq> k}"

text \<open>Nobody joins under a key that is in use.\<close>

fun fresh_joins :: "('n \<Rightarrow> int) \<Rightarrow> 'n change list \<Rightarrow> 'n set \<Rightarrow> bool" where
  "fresh_joins key [] S = True"
| "fresh_joins key (Joins n # cs) S = (key n \<notin> key ` S \<and> fresh_joins key cs (insert n S))"
| "fresh_joins key (Leaves k # cs) S = fresh_joins key cs {n \<in> S. key n \<noteq> k}"

fun changed :: "('n list \<Rightarrow> 'n \<Rightarrow> 'n list) \<Rightarrow> ('n list \<Rightarrow> int \<Rightarrow> 'n list) \<Rightarrow> 'n change list \<Rightarrow> 'n list \<Rightarrow> 'n list" where
  "changed enter leave [] ns = ns"
| "changed enter leave (Joins n # cs) ns = changed enter leave cs (enter ns n)"
| "changed enter leave (Leaves k # cs) ns = changed enter leave cs (leave ns k)"

locale client_registry =
  fixes key :: "'n \<Rightarrow> int" and enter :: "'n list \<Rightarrow> 'n \<Rightarrow> 'n list" and leave :: "'n list \<Rightarrow> int \<Rightarrow> 'n list"
  assumes enter_set: "set (enter ns n) = insert n (set ns)"
    and enter_distinct: "distinct (map key ns) \<Longrightarrow> key n \<notin> key ` set ns \<Longrightarrow> distinct (map key (enter ns n))"
    and leave_set: "distinct (map key ns) \<Longrightarrow> set (leave ns k) = {n \<in> set ns. key n \<noteq> k}"
    and leave_distinct: "distinct (map key ns) \<Longrightarrow> distinct (map key (leave ns k))"
begin

lemma registry_members:
  assumes "distinct (map key ns)" and "fresh_joins key cs (set ns)"
  shows "set (changed enter leave cs ns) = members key cs (set ns) \<and> distinct (map key (changed enter leave cs ns))"
  using assms
proof (induction cs arbitrary: ns)
  case (Cons c cs)
  then show ?case
    by (cases c) (simp_all add: enter_set enter_distinct leave_set leave_distinct)
qed simp

lemma joined_and_left:
  assumes "distinct (map key ns)" and "key n \<notin> key ` set ns"
  shows "set (leave (enter ns n) (key n)) = set ns"
  using assms by (auto simp: leave_set enter_distinct enter_set) (metis image_eqI)

end

section \<open>Removing from a linked list\<close>

text \<open>
  The removal loop of both servers: the head is compared first, then always the node behind
  the current one.
\<close>

fun unlink_behind :: "('n \<Rightarrow> int) \<Rightarrow> 'n list \<Rightarrow> int \<Rightarrow> 'n list" where
  "unlink_behind key (x # y # ys) k = (if key y = k then x # ys else x # unlink_behind key (y # ys) k)"
| "unlink_behind key xs k = xs"

definition unlink :: "('n \<Rightarrow> int) \<Rightarrow> 'n list \<Rightarrow> int \<Rightarrow> 'n list" where
  "unlink key head k = (case head of
       [] \<Rightarrow> []
     | x # xs \<Rightarrow> if key x = k then xs else if xs = [] then [x] else unlink_behind key (x # xs) k)"

lemma unlink_behind_filter:
  "distinct (map key xs) \<Longrightarrow> unlink_behind key xs k = take 1 xs @ filter (\<lambda>x. key x \<noteq> k) (tl xs)"
proof (induction key xs k rule: unlink_behind.induct)
  case (1 key x y ys k)
  have "filter (\<lambda>x. key x \<noteq> k) ys = ys" if "key y = k" using 1(2) that by (auto simp: filter_id_conv) (metis image_eqI)
  then show ?case using 1 by auto
qed simp_all

lemma unlink_filter: "distinct (map key xs) \<Longrightarrow> unlink key xs k = filter (\<lambda>x. key x \<noteq> k) xs"
proof (cases xs)
  case (Cons x ys)
  assume d: "distinct (map key xs)"
  then have "filter (\<lambda>x. key x \<noteq> k) ys = ys" if "key x = k" using Cons that by (auto simp: filter_id_conv) (metis image_eqI)
  then show ?thesis using d Cons unlink_behind_filter [of key xs k] by (auto simp: unlink_def)
qed (simp add: unlink_def)

lemma linked_registry: "client_registry key (\<lambda>ns n. n # ns) (unlink key)"
  by unfold_locales (auto simp: unlink_filter distinct_map_filter)

end
