(* ===== verification/Cluster_Server.thy ===== *)
theory Cluster_Server
  imports Client_Registry "HOL-Library.Sublist"
begin

text \<open>
  The server of \<open>ClusterShell/clustershell_server.c\<close>: the list of clients, the configuration
  that maps node names to addresses, and the routing of messages between the threads that
  serve the clients. The shared variables are one record; a step is one message received by
  the thread of a socket, with the buffer and the counter that are local to the thread.
\<close>

section \<open>Clients\<close>

record client_node =
  cn_fd :: int
  cn_num :: int
  cn_addr :: string

definition addClient :: "int \<Rightarrow> client_node list \<Rightarrow> int \<Rightarrow> string \<Rightarrow> client_node list" where
  "addClient num_clients head fd addr =
     (if head = [] then [\<lparr>cn_fd = fd, cn_num = num_clients, cn_addr = addr\<rparr>]
      else \<lparr>cn_fd = fd, cn_num = num_clients, cn_addr = addr\<rparr> # head)"

definition removeClient :: "client_node list \<Rightarrow> int \<Rightarrow> client_node list" where
  "removeClient head removefd = unlink cn_fd head removefd"

definition send_to_all :: "client_node list \<Rightarrow> string \<Rightarrow> (int \<times> string) list" where
  "send_to_all head msg = map (\<lambda>c. (cn_fd c, msg)) head"

text \<open>The lines printed for a list of clients; \<open>cn_addr\<close> is the address as \<open>inet_ntoa\<close> writes it.\<close>

definition printClients :: "client_node list \<Rightarrow> string list" where
  "printClients head =
     map (\<lambda>(i, c). string_of_nat i @ ''. fd = '' @ string_of_int (cn_fd c) @ '', IP = '' @ cn_addr c @ [NL]) (enumerate 0 head)
     @ [[NL]]"

section \<open>Configuration\<close>

text \<open>
  A line is split at the first comma that is not its first character; the address keeps the
  newline. A line with nothing behind the comma does not count.
\<close>

fun comma_from :: "nat \<Rightarrow> string \<Rightarrow> nat option" where
  "comma_from i [] = None"
| "comma_from i (c # cs) = (if 0 < i \<and> c = CHR '','' then Some i else comma_from (Suc i) cs)"

definition config_line :: "string \<Rightarrow> (string \<times> string) option" where
  "config_line line = (case comma_from 0 line of
       None \<Rightarrow> None
     | Some i \<Rightarrow> if drop (i + 1) line = [] then None else Some (take i line, drop (i + 1) line))"

fun read_config :: "string list \<Rightarrow> (string \<times> string) list" where
  "read_config [] = []"
| "read_config (line # ls) =
     (if take 5 line = ''# End'' then []
      else if line \<noteq> [] \<and> hd line = CHR ''#'' then read_config ls
      else (case config_line line of None \<Rightarrow> read_config ls | Some e \<Rightarrow> e # read_config ls))"

section \<open>Shared state and routing\<close>

record cluster =
  client_list :: "client_node list"
  fds :: "int list"
  SEND_TO_FD :: int
  SEND_TO_FD_STAR :: int
  nodes :: "string list"
  sent :: "(int \<times> bytes) list"
  out :: "string list"

definition init_cluster :: "string list \<Rightarrow> cluster" where
  "init_cluster ns = \<lparr>client_list = [], fds = [], SEND_TO_FD = -1, SEND_TO_FD_STAR = -1, nodes = ns,
     sent = [], out = []\<rparr>"

text \<open>
  A new client: the list of clients gets the listening socket, the table of sockets the new
  one. The table has 200 entries.
\<close>

definition accept_cluster :: "int \<Rightarrow> int \<Rightarrow> string \<Rightarrow> cluster \<Rightarrow> cerror + cluster" where
  "accept_cluster sock client_sock addr s =
     (if 200 \<le> length (fds s) then Inl Overflow
      else Inr (s\<lparr>client_list := addClient 0 (client_list s) sock addr, fds := fds s @ [client_sock]\<rparr>))"

definition fd_of :: "cluster \<Rightarrow> nat \<Rightarrow> int" where
  "fd_of s i = (if i < length (fds s) then fds s ! i else 0)"

text \<open>
  The buffer of a thread after a message: what was received, a NUL behind it, and from there on
  what was in the buffer before.
\<close>

definition received :: "bytes \<Rightarrow> bytes \<Rightarrow> bytes" where
  "received data old = data @ NUL # drop (Suc (length data)) old"

text \<open>
  The message behind the address, of the length the code computes: one more than what is left
  of the text, so that the terminating NUL is sent too.
\<close>

definition behind_name :: "string \<Rightarrow> bytes \<Rightarrow> bytes" where
  "behind_name name msg = take (length (cstr (drop 2 msg)) - length name) (drop (3 + length name) msg)"

fun route :: "cluster \<Rightarrow> string list \<Rightarrow> nat \<Rightarrow> bytes \<Rightarrow> (int \<times> bytes) option" where
  "route s [] i msg = None"
| "route s (name # names) i msg =
     (if prefix name (cstr (drop 2 msg)) \<and> fd_of s i \<noteq> 0
      then Some (fd_of s i, behind_name name msg) else route s names (Suc i) msg)"

definition sendtoall :: "string \<Rightarrow> cluster \<Rightarrow> cluster" where
  "sendtoall msg s = s\<lparr>sent := sent s @ map (\<lambda>fd. (fd, msg)) (fds s)\<rparr>"

definition sendtoAllfds :: "int \<Rightarrow> string \<Rightarrow> cluster \<Rightarrow> cluster" where
  "sendtoAllfds sd buffer s =
     s\<lparr>sent := sent s @ map (\<lambda>fd. (fd, buffer)) (filter (\<lambda>fd. fd \<noteq> 0 \<and> fd \<noteq> sd) (map (fd_of s) [0..<200]))\<rparr>"

text \<open>
  One message, in the buffer of the thread that serves \<open>sock\<close>; the counter is the thread's own.
  This is the effect of the loop body when no other thread runs in between; \<open>Cluster_Race\<close> has its
  statements one by one.
\<close>

definition recvmg :: "int \<Rightarrow> bytes \<Rightarrow> nat \<Rightarrow> cluster \<Rightarrow> nat \<times> cluster" where
  "recvmg sock msg counter s0 =
     (let s = s0\<lparr>out := out s0 @ [''msg = '' @ cstr msg @ [NL]]\<rparr>;
          body = cstr (drop 2 msg) in
      if take 5 body = ''nodes'' then (counter, s\<lparr>out := out s @ printClients (client_list s)\<rparr>)
      else if SEND_TO_FD s \<noteq> -1 then (counter, s\<lparr>sent := sent s @ [(SEND_TO_FD s, cstr msg)], SEND_TO_FD := -1\<rparr>)
      else if SEND_TO_FD_STAR s \<noteq> -1 then
        (if 0 < counter then (counter - 1, s\<lparr>sent := sent s @ [(SEND_TO_FD_STAR s, cstr msg)]\<rparr>)
         else (counter, s\<lparr>SEND_TO_FD_STAR := -1\<rparr>))
      else
        let s1 = (case route s (nodes s) 0 msg of
                    None \<Rightarrow> s
                  | Some m \<Rightarrow> s\<lparr>sent := sent s @ [m], SEND_TO_FD := sock\<rparr>)
        in if prefix ''n*.'' body \<and> 3 < length body
           then (length (fds s1), sendtoall (cstr (drop 5 msg)) (s1\<lparr>SEND_TO_FD_STAR := sock\<rparr>))
           else (counter, s1))"

definition disconnect :: "int \<Rightarrow> cluster \<Rightarrow> cluster" where
  "disconnect sock s = s\<lparr>client_list := removeClient (client_list s) sock\<rparr>"

section \<open>Reading the configuration\<close>

definition config_entry :: "string \<times> string \<Rightarrow> bool" where
  "config_entry e \<longleftrightarrow> fst e \<noteq> [] \<and> CHR '','' \<notin> set (fst e) \<and> hd (fst e) \<noteq> CHR ''#'' \<and> snd e \<noteq> []"

lemma comma_from_word:
  "CHR '','' \<notin> set w \<Longrightarrow> 0 < i + length w \<Longrightarrow> comma_from i (w @ CHR '','' # rest) = Some (i + length w)"
  by (induction w arbitrary: i) auto

lemma config_line_entry: "config_entry e \<Longrightarrow> config_line (fst e @ CHR '','' # snd e) = Some e"
  using comma_from_word [of "fst e" 0 "snd e"] by (simp add: config_line_def config_entry_def)

text \<open>
  The configuration file is read back exactly: from comments, entries of a name, a
  comma and an address, and an end line, the server gets the entries in order, whatever
  follows the end line.
\<close>

theorem read_config_entries:
  assumes "\<forall>e \<in> set es. config_entry e" and "\<forall>c \<in> set cs. hd c = CHR ''#'' \<and> c \<noteq> [] \<and> take 5 c \<noteq> ''# End''"
    and "take 5 l = ''# End''"
  shows "read_config (cs @ map (\<lambda>e. fst e @ CHR '','' # snd e) es @ l # rest) = es"
proof -
  have "read_config (map (\<lambda>e. fst e @ CHR '','' # snd e) es @ l # rest) = es"
    using assms(1)
  proof (induction es)
    case (Cons e es)
    have "hd (fst e @ CHR '','' # snd e) \<noteq> CHR ''#''"
      using Cons.prems by (cases "fst e") (auto simp: config_entry_def)
    moreover from this have "take 5 (fst e @ CHR '','' # snd e) \<noteq> ''# End''"
      by (cases "fst e @ CHR '','' # snd e") auto
    ultimately show ?case using Cons config_line_entry [of e] by simp
  qed (simp add: assms(3))
  then show ?thesis using assms(2) by (induction cs) auto
qed

theorem read_config_entries_witness:
  "read_config [''# nodes'', ''n1,10.0.0.1'', ''n2,10.0.0.2'', ''# End'', ''n3,x''] = [(''n1'', ''10.0.0.1''), (''n2'', ''10.0.0.2'')]"
  using read_config_entries [of "[(''n1'', ''10.0.0.1''), (''n2'', ''10.0.0.2'')]" "[''# nodes'']" "''# End''" "[''n3,x'']"]
  by (simp add: config_entry_def)

section \<open>Routing\<close>

definition quiet :: "cluster \<Rightarrow> bool" where
  "quiet s \<longleftrightarrow> SEND_TO_FD s = -1 \<and> SEND_TO_FD_STAR s = -1"

text \<open>The node names are such that none is a prefix of another, and none starts like a command.\<close>

definition good_names :: "string list \<Rightarrow> bool" where
  "good_names ns \<longleftrightarrow> (\<forall>i < length ns. \<forall>j < length ns. i \<noteq> j \<longrightarrow> \<not> prefix (ns ! i) (ns ! j))
     \<and> (\<forall>n \<in> set ns. CHR ''.'' \<notin> set n \<and> n \<noteq> ''n*'' \<and> n \<noteq> ''nodes'')"

lemma prefix_dot:
  assumes "prefix m (n @ CHR ''.'' # cmd)" and "CHR ''.'' \<notin> set m"
  shows "prefix m n"
proof -
  have "prefix m n \<or> (\<exists>us. m = n @ us \<and> prefix us (CHR ''.'' # cmd))"
    using assms(1) by (simp add: prefix_append)
  then show ?thesis using assms(2) by (auto simp: prefix_Cons)
qed

lemma received_text:
  assumes "nul_free msg" and "n \<le> length msg"
  shows "cstr (drop n (received msg old)) = drop n msg"
  using assms cstr_append_NUL [of "drop n msg"] by (simp add: received_def nul_free_drop)

lemma route_name:
  assumes "good_names ns" and "i < length ns" and "fd_of s i \<noteq> 0" and "nul_free (ns ! i)" and "nul_free cmd"
    and "drop 2 buf = ns ! i @ CHR ''.'' # cmd @ NUL # rest"
  shows "k \<le> i \<Longrightarrow> route s (drop k ns) k buf = Some (fd_of s i, cmd @ [NUL])"
proof (induction "i - k" arbitrary: k)
  case 0
  have c: "cstr (drop 2 buf) = ns ! i @ CHR ''.'' # cmd"
    using assms(4,5) cstr_append_NUL [of "ns ! i @ CHR ''.'' # cmd"] unfolding assms(6) by simp
  have "drop (3 + length (ns ! i)) buf = drop (Suc (length (ns ! i))) (drop 2 buf)" by (simp add: numeral_3_eq_3)
  also have "\<dots> = cmd @ NUL # rest" unfolding assms(6) by simp
  finally have "behind_name (ns ! i) buf = cmd @ [NUL]" by (simp add: behind_name_def c)
  moreover have "drop k ns = ns ! i # drop (Suc i) ns" using 0 assms(2) by (simp add: Cons_nth_drop_Suc)
  ultimately show ?case using 0 assms(3) c by simp
next
  case (Suc n)
  have c: "cstr (drop 2 buf) = ns ! i @ CHR ''.'' # cmd"
    using assms(4,5) cstr_append_NUL [of "ns ! i @ CHR ''.'' # cmd"] unfolding assms(6) by simp
  have k: "k < length ns" "k \<noteq> i" using Suc assms(2) by auto
  have "\<not> prefix (ns ! k) (ns ! i @ CHR ''.'' # cmd)"
    using prefix_dot [of "ns ! k" "ns ! i" cmd] assms(1,2) k by (auto simp: good_names_def)
  then have "route s (drop k ns) k buf = route s (drop (Suc k) ns) (Suc k) buf"
    using Cons_nth_drop_Suc [OF k(1), symmetric] by (simp add: c)
  then show ?case using Suc by simp
qed

lemma recvmg_command:
  assumes "quiet s" and "good_names (nodes s)" and "i < length (nodes s)" and "fd_of s i \<noteq> 0"
    and "nul_free (nodes s ! i)" and "nul_free cmd" and "take 5 (nodes s ! i @ CHR ''.'' # cmd) \<noteq> ''nodes''"
    and "msg = a # b # nodes s ! i @ CHR ''.'' # cmd"
  shows "recvmg sock (received msg old) counter s
    = (counter, s\<lparr>out := out s @ [''msg = '' @ cstr msg @ [NL]], sent := sent s @ [(fd_of s i, cmd @ [NUL])], SEND_TO_FD := sock\<rparr>)"
proof -
  let ?s = "s\<lparr>out := out s @ [''msg = '' @ cstr msg @ [NL]]\<rparr>"
  have d: "drop 2 (received msg old) = nodes s ! i @ CHR ''.'' # cmd @ NUL # drop (Suc (length msg)) old"
    by (simp add: received_def assms(8))
  then have c: "cstr (drop 2 (received msg old)) = nodes s ! i @ CHR ''.'' # cmd"
    using assms(5,6) cstr_append_NUL [of "nodes s ! i @ CHR ''.'' # cmd"] by simp
  have m: "cstr (received msg old) = cstr msg" by (simp add: received_def)
  have fd: "fd_of ?s i \<noteq> 0" "fd_of ?s i = fd_of s i" using assms(4) by (simp_all add: fd_of_def split: if_splits)
  have r: "route ?s (nodes s) 0 (received msg old) = Some (fd_of s i, cmd @ [NUL])"
    using route_name [OF assms(2,3) fd(1) assms(5,6) d, of 0] fd(2) by simp
  have n: "CHR ''.'' \<notin> set (nodes s ! i)" "nodes s ! i \<noteq> ''n*''"
    using assms(2,3) by (auto simp: good_names_def)
  have "\<not> prefix ''n*.'' (nodes s ! i @ CHR ''.'' # cmd)"
    using n by (cases "nodes s ! i"; cases "tl (nodes s ! i)"; cases "tl (tl (nodes s ! i))") auto
  then show ?thesis using assms(1,7) r by (simp add: recvmg_def quiet_def Let_def c m)
qed

lemma recvmg_reply:
  assumes "SEND_TO_FD s \<noteq> -1" and "take 5 (cstr (drop 2 buf)) \<noteq> ''nodes''"
  shows "recvmg other buf counter s
    = (counter, s\<lparr>out := out s @ [''msg = '' @ cstr buf @ [NL]], sent := sent s @ [(SEND_TO_FD s, cstr buf)], SEND_TO_FD := -1\<rparr>)"
  using assms by (simp add: recvmg_def Let_def)

text \<open>
  A command addressed to a connected node goes to the socket of that node and to no
  other, without the address and with its terminating NUL; the next message that any thread
  receives, the node's answer, goes back in full to the client that sent the command, and the
  server is ready for the next command.
\<close>

theorem command_and_reply_routed:
  assumes "quiet s" and "good_names (nodes s)" and "i < length (nodes s)" and "fd_of s i \<noteq> 0"
    and "nul_free (nodes s ! i)" and "nul_free cmd" and "take 5 (nodes s ! i @ CHR ''.'' # cmd) \<noteq> ''nodes''"
    and "msg = a # b # nodes s ! i @ CHR ''.'' # cmd" and "sock \<noteq> -1"
    and "nul_free reply" and "2 \<le> length reply" and "take 5 (drop 2 reply) \<noteq> ''nodes''"
  shows "sent (snd (recvmg other (received reply old') k' (snd (recvmg sock (received msg old) k s))))
      = sent s @ [(fd_of s i, cmd @ [NUL]), (sock, reply)]
    \<and> quiet (snd (recvmg other (received reply old') k' (snd (recvmg sock (received msg old) k s))))"
  using recvmg_command [OF assms(1-8), of sock old k] assms(1,9,12) received_text [OF assms(10,11), of old']
    received_text [OF assms(10), of 0 old']
  by (simp add: recvmg_reply quiet_def)

abbreviation example_cluster :: cluster where
  "example_cluster \<equiv> (init_cluster [''n1'', ''n2''])\<lparr>fds := [4, 5]\<rparr>"

theorem command_and_reply_routed_witness:
  "sent (snd (recvmg 5 (received ''done'' []) 0 (snd (recvmg 4 (received ''1:n2.ls'' []) 0 example_cluster))))
     = [(5, ''ls'' @ [NUL]), (4, ''done'')]"
  using command_and_reply_routed [of example_cluster 1 "''ls''" "''1:n2.ls''" "CHR ''1''" "CHR '':''" 4 "''done''" 5 "[]" 0 "[]" 0]
  by (simp add: quiet_def init_cluster_def good_names_def fd_of_def less_Suc_eq)

text \<open>
  A command to all nodes reaches every connected socket, but no answer comes back: the
  number of answers expected is counted by the thread of the client that sent the command,
  and the thread that receives the first answer from a node has a counter of zero and ends
  the exchange.
\<close>

theorem star_replies_lost:
  assumes "quiet s" and "cmd \<noteq> []" and "nul_free cmd" and "\<forall>n \<in> set (nodes s). \<not> prefix n (''n*.'' @ cmd)"
    and "nul_free reply" and "2 \<le> length reply" and "take 5 (drop 2 reply) \<noteq> ''nodes''" and "sock \<noteq> -1"
  shows "sent (snd (recvmg node (received reply old') 0 (snd (recvmg sock (received ([a, b] @ ''n*.'' @ cmd) old) k s))))
      = sent s @ map (\<lambda>fd. (fd, cmd)) (fds s)
    \<and> quiet (snd (recvmg node (received reply old') 0 (snd (recvmg sock (received ([a, b] @ ''n*.'' @ cmd) old) k s))))"
proof -
  define buf where "buf = received ([a, b] @ ''n*.'' @ cmd) old"
  have c: "cstr (drop 2 buf) = ''n*.'' @ cmd" "cstr (drop 5 buf) = cmd"
    using assms(3) cstr_append_NUL [of "''n*.'' @ cmd"] cstr_append_NUL [of cmd] by (simp_all add: buf_def received_def)
  have "route t ns i buf = None" if "set ns \<subseteq> set (nodes s)" for t ns i
    using that assms(4) by (induction ns arbitrary: i) (auto simp: c)
  then have "snd (recvmg sock buf k s) = s\<lparr>out := out s @ [''msg = '' @ cstr buf @ [NL]], SEND_TO_FD_STAR := sock,
      sent := sent s @ map (\<lambda>fd. (fd, cmd)) (fds s)\<rparr>"
    using assms(1,2) by (simp add: recvmg_def quiet_def Let_def c sendtoall_def)
  then show ?thesis unfolding buf_def using assms(1,7,8) received_text [OF assms(5,6), of old'] by (simp add: recvmg_def quiet_def Let_def)
qed

theorem star_replies_lost_witness:
  "sent (snd (recvmg 5 (received ''done'' []) 0 (snd (recvmg 4 (received (''1:'' @ ''n*.'' @ ''ls'') []) 0 example_cluster))))
     = [(4, ''ls''), (5, ''ls'')]"
  using star_replies_lost [of example_cluster "''ls''" "''done''" 4 5 "[]" "CHR ''1''" "CHR '':''" "[]" 0]
  by (simp add: quiet_def init_cluster_def)

section \<open>The list of clients\<close>

text \<open>The list is a registry of sockets, as long as the sockets entered are different.\<close>

interpretation cluster_clients: client_registry cn_fd
  "\<lambda>ns n. addClient (cn_num n) ns (cn_fd n) (cn_addr n)" removeClient
proof -
  have enter: "(\<lambda>ns n. addClient (cn_num n) ns (cn_fd n) (cn_addr n)) = (\<lambda>ns n. n # ns)"
    by (simp add: fun_eq_iff addClient_def)
  have leave: "removeClient = unlink cn_fd" by (simp add: fun_eq_iff removeClient_def)
  show "client_registry cn_fd (\<lambda>ns n. addClient (cn_num n) ns (cn_fd n) (cn_addr n)) removeClient"
    unfolding enter leave by (rule linked_registry)
qed

lemma unlink_behind_absent: "fd \<notin> key ` set (tl xs) \<Longrightarrow> unlink_behind key xs fd = xs"
  by (induction key xs fd rule: unlink_behind.induct) auto

lemma remove_absent: "fd \<notin> cn_fd ` set xs \<Longrightarrow> removeClient xs fd = xs"
  using unlink_behind_absent [of fd cn_fd xs] by (cases xs) (auto simp: removeClient_def unlink_def)

text \<open>
  Every entry of the list of clients holds the listening socket, so a client that
  disconnects is never removed from it.
\<close>

lemma disconnect_keeps_client:
  assumes "cn_fd ` set (client_list s) \<subseteq> {sock}" and "accept_cluster sock c addr s = Inr t" and "c \<noteq> sock"
  shows "client_list (disconnect c t) = client_list t"
proof -
  have "cn_fd ` set (client_list t) \<subseteq> {sock}"
    using assms(1,2) by (force simp: accept_cluster_def addClient_def split: if_splits)
  then show ?thesis using assms(3) by (auto simp: disconnect_def intro!: remove_absent)
qed

end
