(* ===== verification/Cluster_Threads.thy ===== *)
theory Cluster_Threads
  imports Cluster_Server
begin

text \<open>
  The threads of \<open>ClusterShell/clustershell_server.c\<close>. The main thread accepts connections and
  creates a thread for each, which it hands the address of its own variable \<open>Client_sock\<close>; the
  new thread reads the variable when it starts to run, which may be after the next connection.
  A step is one connection, the start of a thread, one message handled by a thread, or its end;
  the handling of one message is taken as a whole, as it is when no other thread runs meanwhile.
\<close>

section \<open>State and steps\<close>

text \<open>A thread that has not yet run, or that serves a socket with its own buffer and counter.\<close>

datatype thread = Created | Serving int bytes nat | Ended

record server_sys =
  vars :: cluster
  Client_sock :: int
  threads :: "thread list"

datatype server_event = Accept int string | Begin nat bytes | Receive nat bytes | Hangup nat

definition init_server :: "string list \<Rightarrow> server_sys" where
  "init_server ns = \<lparr>vars = init_cluster ns, Client_sock = 0, threads = []\<rparr>"

definition server_accept :: "int \<Rightarrow> int \<Rightarrow> string \<Rightarrow> server_sys \<Rightarrow> cerror + server_sys" where
  "server_accept sock c addr s =
     rbind (accept_cluster sock c addr (vars s)) (\<lambda>k. Inr (s\<lparr>vars := k, Client_sock := c, threads := threads s @ [Created]\<rparr>))"

text \<open>The buffer of a new thread holds whatever was on its stack.\<close>

definition thread_begin :: "nat \<Rightarrow> bytes \<Rightarrow> server_sys \<Rightarrow> (cerror + server_sys) option" where
  "thread_begin i junk s =
     (if i < length (threads s) \<and> threads s ! i = Created
      then Some (Inr (s\<lparr>threads := (threads s)[i := Serving (Client_sock s) junk 0]\<rparr>)) else None)"

text \<open>A message of 5000 bytes fills the buffer, and the NUL behind it is written past its end.\<close>

definition thread_receive :: "nat \<Rightarrow> bytes \<Rightarrow> server_sys \<Rightarrow> (cerror + server_sys) option" where
  "thread_receive i data s =
     (if i < length (threads s) \<and> 0 < length data \<and> length data \<le> 5000
      then (case threads s ! i of
              Serving sock buf k \<Rightarrow>
                Some (if length data = 5000 then Inl Overflow
                      else let (k', sh) = recvmg sock (received data buf) k (vars s) in
                        Inr (s\<lparr>vars := sh, threads := (threads s)[i := Serving sock (received data buf) k']\<rparr>))
            | _ \<Rightarrow> None)
      else None)"

definition thread_end :: "nat \<Rightarrow> server_sys \<Rightarrow> (cerror + server_sys) option" where
  "thread_end i s =
     (if i < length (threads s)
      then (case threads s ! i of
              Serving sock buf k \<Rightarrow> Some (Inr (s\<lparr>vars := disconnect sock (vars s), threads := (threads s)[i := Ended]\<rparr>))
            | _ \<Rightarrow> None)
      else None)"

fun server_step :: "int \<Rightarrow> server_event \<Rightarrow> server_sys \<Rightarrow> (cerror + server_sys) option" where
  "server_step sock (Accept c addr) s = Some (server_accept sock c addr s)"
| "server_step sock (Begin i junk) s = thread_begin i junk s"
| "server_step sock (Receive i data) s = thread_receive i data s"
| "server_step sock (Hangup i) s = thread_end i s"

text \<open>
  What the kernel guarantees: a connection that fails gives -1, any other a socket that is not in
  use (the server closes none), and nothing is received from the socket -1.
\<close>

fun kernel_ok :: "int \<Rightarrow> server_event \<Rightarrow> server_sys \<Rightarrow> bool" where
  "kernel_ok sock (Accept c addr) s \<longleftrightarrow> c = -1 \<or> 0 < c \<and> c \<noteq> sock \<and> c \<notin> set (fds (vars s))"
| "kernel_ok sock (Receive i data) s \<longleftrightarrow> (case threads s ! i of Serving c buf k \<Rightarrow> c \<noteq> -1 | _ \<Rightarrow> True)"
| "kernel_ok sock _ s \<longleftrightarrow> True"

text \<open>In a prompt run a thread reads its socket before the next connection is accepted.\<close>

fun prompt_event :: "server_event \<Rightarrow> server_sys \<Rightarrow> bool" where
  "prompt_event (Accept c addr) s \<longleftrightarrow> Created \<notin> set (threads s)"
| "prompt_event _ s \<longleftrightarrow> True"

inductive server_reach :: "int \<Rightarrow> bool \<Rightarrow> server_sys \<Rightarrow> server_sys \<Rightarrow> bool" for sock prompt s where
  refl: "server_reach sock prompt s s"
| step: "server_reach sock prompt s t \<Longrightarrow> kernel_ok sock e t \<Longrightarrow> (prompt \<Longrightarrow> prompt_event e t) \<Longrightarrow>
    server_step sock e t = Some (Inr u) \<Longrightarrow> server_reach sock prompt s u"

text \<open>The same for a given list of events, to run the model on examples.\<close>

fun server_run :: "int \<Rightarrow> bool \<Rightarrow> server_event list \<Rightarrow> server_sys \<Rightarrow> server_sys option" where
  "server_run sock prompt [] s = Some s"
| "server_run sock prompt (e # es) s =
     (if kernel_ok sock e s \<and> (prompt \<longrightarrow> prompt_event e s)
      then (case server_step sock e s of Some (Inr t) \<Rightarrow> server_run sock prompt es t | _ \<Rightarrow> None) else None)"

lemma server_reach_trans:
  "server_reach sock prompt t u \<Longrightarrow> server_reach sock prompt s t \<Longrightarrow> server_reach sock prompt s u"
  by (induction rule: server_reach.induct) (auto intro: server_reach.step)

lemma server_run_reach: "server_run sock prompt es s = Some t \<Longrightarrow> server_reach sock prompt s t"
proof (induction es arbitrary: s)
  case (Cons e es)
  then obtain u where "kernel_ok sock e s" "prompt \<longrightarrow> prompt_event e s" "server_step sock e s = Some (Inr u)"
      "server_run sock prompt es u = Some t"
    by (auto split: if_splits option.splits sum.splits)
  then show ?case
    using Cons.IH [of u] server_reach_trans [of sock prompt u t s] server_reach.step [of sock prompt s s e u]
    by (auto intro: server_reach.refl)
qed (simp add: server_reach.refl)

text \<open>The four kinds of steps, with what each changes.\<close>

lemma server_step_cases [consumes 1, case_names Accept Begin Receive Hangup]:
  assumes "server_step sock e s = Some (Inr t)"
  obtains c addr where "e = Accept c addr" "length (fds (vars s)) < 200"
      "t = s\<lparr>vars := (vars s)\<lparr>client_list := addClient 0 (client_list (vars s)) sock addr, fds := fds (vars s) @ [c]\<rparr>,
             Client_sock := c, threads := threads s @ [Created]\<rparr>"
  | i junk where "e = Begin i junk" "i < length (threads s)" "threads s ! i = Created"
      "t = s\<lparr>threads := (threads s)[i := Serving (Client_sock s) junk 0]\<rparr>"
  | i data c buf k k' sh where "e = Receive i data" "i < length (threads s)" "threads s ! i = Serving c buf k"
      "recvmg c (received data buf) k (vars s) = (k', sh)"
      "t = s\<lparr>vars := sh, threads := (threads s)[i := Serving c (received data buf) k']\<rparr>"
  | i c buf k where "e = Hangup i" "i < length (threads s)" "threads s ! i = Serving c buf k"
      "t = s\<lparr>vars := disconnect c (vars s), threads := (threads s)[i := Ended]\<rparr>"
proof (cases e)
  case (Accept c addr)
  then show ?thesis using assms that(1)
    by (cases "accept_cluster sock c addr (vars s)") (auto simp: server_accept_def accept_cluster_def split: if_splits)
next
  case (Begin i junk)
  then show ?thesis using assms that(2) by (auto simp: thread_begin_def split: if_splits)
next
  case (Receive i data)
  then obtain c buf k where "i < length (threads s)" "threads s ! i = Serving c buf k"
    using assms by (auto simp: thread_receive_def split: if_splits thread.splits)
  then show ?thesis using Receive assms that(3)
    by (cases "recvmg c (received data buf) k (vars s)") (auto simp: thread_receive_def split: if_splits)
next
  case (Hangup i)
  then show ?thesis using assms that(4) by (auto simp: thread_end_def split: if_splits thread.splits)
qed

section \<open>The invariant of the server\<close>

definition thread_ok :: "cluster \<Rightarrow> thread \<Rightarrow> bool" where
  "thread_ok sh t \<longleftrightarrow> (case t of Serving c buf k \<Rightarrow> c \<in> set (fds sh) \<and> k \<le> 200 | _ \<Rightarrow> True)"

definition shared_ok :: "int \<Rightarrow> cluster \<Rightarrow> bool" where
  "shared_ok sock sh \<longleftrightarrow> length (fds sh) \<le> 200 \<and> length (client_list sh) = length (fds sh)
     \<and> (\<forall>c \<in> set (fds sh). c = -1 \<or> 0 < c \<and> c \<noteq> sock) \<and> distinct (filter (\<lambda>c. c \<noteq> -1) (fds sh))
     \<and> SEND_TO_FD sh \<in> insert (-1) (set (fds sh)) \<and> SEND_TO_FD_STAR sh \<in> insert (-1) (set (fds sh))
     \<and> fst ` set (sent sh) \<subseteq> set (fds sh) \<and> cn_fd ` set (client_list sh) \<subseteq> {sock}"

definition server_ok :: "int \<Rightarrow> server_sys \<Rightarrow> bool" where
  "server_ok sock s \<longleftrightarrow> shared_ok sock (vars s) \<and> length (threads s) = length (fds (vars s))
     \<and> (\<forall>t \<in> set (threads s). thread_ok (vars s) t)
     \<and> (threads s \<noteq> [] \<longrightarrow> Client_sock s = last (fds (vars s)))"

lemmas server_ok_defs = server_ok_def shared_ok_def thread_ok_def

lemma fds_recvmg [simp]:
  "fds (snd (recvmg c buf k s)) = fds s" "client_list (snd (recvmg c buf k s)) = client_list s"
  "nodes (snd (recvmg c buf k s)) = nodes s"
  by (simp_all add: recvmg_def Let_def sendtoall_def split: option.split)

lemma route_fd: "route s names i msg = Some m \<Longrightarrow> fst m \<in> set (fds s)"
  by (induction names arbitrary: i) (auto simp: fd_of_def split: if_splits)

lemma recvmg_ok:
  assumes "shared_ok sock s" and "c \<in> set (fds s)" and "k \<le> 200" and "recvmg c buf k s = (k', t)"
  shows "shared_ok sock t" and "k' \<le> 200"
proof -
  have t: "fds t = fds s" "client_list t = client_list s"
    using fds_recvmg [of c buf k s] assms(4) by simp_all
  have len: "length (fds s) \<le> 200" using assms(1) by (simp add: shared_ok_def)
  have k: "k' \<le> 200"
    using assms(3,4) len by (auto simp: recvmg_def Let_def sendtoall_def split: if_splits option.splits)
  have fd: "SEND_TO_FD t \<in> {-1, SEND_TO_FD s, c}" "SEND_TO_FD_STAR t \<in> {-1, SEND_TO_FD_STAR s, c}"
    using assms(4) by (auto simp: recvmg_def Let_def sendtoall_def split: if_splits option.splits)
  have "fst ` set (sent t) \<subseteq> fst ` set (sent s) \<union> ({SEND_TO_FD s, SEND_TO_FD_STAR s} - {-1}) \<union> set (fds s)"
    using assms(4) by (auto simp: recvmg_def Let_def sendtoall_def dest!: route_fd split: if_splits option.splits)
  note new = this
  have ok: "SEND_TO_FD s \<in> insert (-1) (set (fds s))" "SEND_TO_FD_STAR s \<in> insert (-1) (set (fds s))"
      "fst ` set (sent s) \<subseteq> set (fds s)"
    using assms(1) by (simp_all add: shared_ok_def)
  then have "{SEND_TO_FD s, SEND_TO_FD_STAR s} - {-1} \<subseteq> set (fds s)" by auto
  then have "fst ` set (sent t) \<subseteq> set (fds s)" using new ok(3) by (simp add: order_trans [OF new])
  moreover have "SEND_TO_FD t \<in> insert (-1) (set (fds s))" "SEND_TO_FD_STAR t \<in> insert (-1) (set (fds s))"
    using fd ok assms(2) by auto
  ultimately show "shared_ok sock t" "k' \<le> 200" using assms(1) k by (simp_all add: shared_ok_def t)
qed

lemma server_ok_init: "server_ok sock (init_server ns)"
  by (simp add: server_ok_defs init_server_def init_cluster_def)

lemma server_ok_step:
  assumes "server_ok sock s" and "kernel_ok sock e s" and "0 < sock" and "server_step sock e s = Some (Inr t)"
  shows "server_ok sock t"
  using assms(4)
proof (cases rule: server_step_cases)
  case (Accept c addr)
  then show ?thesis using assms(1,2) by (auto simp: server_ok_defs addClient_def split: thread.splits)
next
  case (Begin i junk)
  then have "Client_sock s \<in> set (fds (vars s))"
    using assms(1) by (auto simp: server_ok_def) (metis last_in_set length_0_conv length_greater_0_conv less_nat_zero_code)
  then show ?thesis using assms(1) Begin
    by (auto simp: server_ok_def thread_ok_def dest!: set_update_subset_insert [THEN subsetD])
next
  case (Receive i data c buf k k' sh)
  have "thread_ok (vars s) (threads s ! i)" using assms(1) Receive(2) by (simp add: server_ok_def)
  then have c: "c \<in> set (fds (vars s))" "k \<le> 200" by (simp_all add: thread_ok_def Receive(3))
  have "fds sh = fds (vars s)" using fds_recvmg(1) [of c "received data buf" k "vars s"] Receive(4) by simp
  then show ?thesis using assms(1) recvmg_ok [OF _ c Receive(4)] c(1) Receive(5)
    by (auto simp: server_ok_def thread_ok_def split: thread.splits dest!: set_update_subset_insert [THEN subsetD])
next
  case (Hangup i c buf k)
  have "thread_ok (vars s) (threads s ! i)" using assms(1) Hangup(2) by (simp add: server_ok_def)
  then have "c \<noteq> sock" using assms(1,3) by (auto simp: server_ok_defs Hangup(3))
  then have "c \<notin> cn_fd ` set (client_list (vars s))" using assms(1) by (auto simp: server_ok_def shared_ok_def)
  then have "disconnect c (vars s) = vars s" by (cases "vars s") (simp add: disconnect_def remove_absent)
  then show ?thesis using assms(1) Hangup(4)
    by (auto simp: server_ok_def thread_ok_def dest!: set_update_subset_insert [THEN subsetD])
qed

lemma server_reach_ok:
  "server_reach sock prompt s t \<Longrightarrow> server_ok sock s \<Longrightarrow> 0 < sock \<Longrightarrow> server_ok sock t"
  by (induction rule: server_reach.induct) (auto intro: server_ok_step)

text \<open>
  When messages are handled one at a time, what the threads share stays consistent in every
  order of connections and messages: at most 200 connections with one thread each, every thread serves a socket that was
  accepted, the socket an answer is owed to is -1 or accepted, and nothing was ever written to
  anything but an accepted socket. The list of clients has an entry for each connection, all
  with the listening socket, so it never shrinks.
\<close>

theorem cluster_server_invariant:
  assumes "server_reach sock False (init_server ns) s" and "0 < sock"
  shows "length (threads s) = length (fds (vars s)) \<and> length (fds (vars s)) \<le> 200
    \<and> (\<forall>c buf k. Serving c buf k \<in> set (threads s) \<longrightarrow> c \<in> set (fds (vars s)) \<and> k \<le> 200)
    \<and> SEND_TO_FD (vars s) \<in> insert (-1) (set (fds (vars s))) \<and> SEND_TO_FD_STAR (vars s) \<in> insert (-1) (set (fds (vars s)))
    \<and> fst ` set (sent (vars s)) \<subseteq> set (fds (vars s))
    \<and> length (client_list (vars s)) = length (fds (vars s)) \<and> cn_fd ` set (client_list (vars s)) \<subseteq> {sock}"
  using server_reach_ok [OF assms(1) server_ok_init assms(2)] by (auto simp: server_ok_defs)

definition example_events :: "server_event list" where
  "example_events = [Accept 4 ''10.0.0.1'', Begin 0 [], Accept 5 ''10.0.0.2'', Begin 1 [], Receive 0 ''1:n2.ls'', Hangup 0]"

lemmas server_eval = init_server_def init_cluster_def server_accept_def accept_cluster_def thread_begin_def
  thread_receive_def thread_end_def recvmg_def received_def addClient_def disconnect_def removeClient_def unlink_def
  fd_of_def behind_name_def sendtoall_def Let_def

lemma example_events_run:
  "\<exists>s. server_run 3 True example_events (init_server [''n1'', ''n2'']) = Some s \<and> sent (vars s) = [(5, ''ls'' @ [NUL])]
     \<and> fds (vars s) = [4, 5]"
  by (simp add: example_events_def server_eval)

theorem cluster_server_invariant_witness:
  "\<exists>s. server_run 3 False example_events (init_server [''n1'', ''n2'']) = Some s \<and> sent (vars s) = [(5, ''ls'' @ [NUL])]
     \<and> fst ` set (sent (vars s)) \<subseteq> set (fds (vars s)) \<and> cn_fd ` set (client_list (vars s)) \<subseteq> {3}"
proof -
  have "\<exists>s. server_run 3 False example_events (init_server [''n1'', ''n2'']) = Some s \<and> sent (vars s) = [(5, ''ls'' @ [NUL])]"
    by (simp add: example_events_def server_eval)
  then obtain s where s: "server_run 3 False example_events (init_server [''n1'', ''n2'']) = Some s"
      "sent (vars s) = [(5, ''ls'' @ [NUL])]" by blast
  show ?thesis using cluster_server_invariant [OF server_run_reach [OF s(1)]] s by auto
qed

section \<open>Which socket a thread serves\<close>

definition own_thread :: "int list \<Rightarrow> nat \<Rightarrow> thread \<Rightarrow> bool" where
  "own_thread cs i t \<longleftrightarrow>
     (case t of Created \<Rightarrow> Suc i = length cs | Serving c buf k \<Rightarrow> c = cs ! i | Ended \<Rightarrow> True)"

definition own_sockets :: "server_sys \<Rightarrow> bool" where
  "own_sockets s \<longleftrightarrow> (\<forall>i < length (threads s). own_thread (fds (vars s)) i (threads s ! i))"

lemma own_sockets_update:
  assumes "own_sockets s" and "own_thread (fds (vars s)) i t" and "fds v = fds (vars s)"
  shows "own_sockets (s\<lparr>vars := v, threads := (threads s)[i := t]\<rparr>)"
proof -
  have "own_thread (fds (vars s)) j ((threads s)[i := t] ! j)" if "j < length (threads s)" for j
    using that assms(1,2) by (cases "i = j") (simp_all add: own_sockets_def)
  then show ?thesis using assms(3) by (simp add: own_sockets_def)
qed

lemma own_sockets_step:
  assumes "own_sockets s" and "server_ok sock s" and "prompt_event e s" and "server_step sock e s = Some (Inr t)"
  shows "own_sockets t"
  using assms(4)
proof (cases rule: server_step_cases)
  case (Accept c addr)
  then have "threads s ! i \<noteq> Created" if "i < length (threads s)" for i using assms(3) that by (auto simp: in_set_conv_nth)
  then show ?thesis using assms(1,2) Accept(3)
    by (auto simp: own_sockets_def own_thread_def nth_append server_ok_def less_Suc_eq split: thread.splits)
next
  case (Begin i junk)
  have len: "length (threads s) = length (fds (vars s))" "fds (vars s) \<noteq> []" "Client_sock s = last (fds (vars s))"
    using assms(2) Begin(2) by (auto simp: server_ok_def)
  have "own_thread (fds (vars s)) i (threads s ! i)" using assms(1) Begin(2) by (simp add: own_sockets_def)
  then have "length (fds (vars s)) - 1 = i" using Begin(3) by (simp add: own_thread_def)
  then have "Client_sock s = fds (vars s) ! i" using len(2,3) last_conv_nth [of "fds (vars s)"] by simp
  then show ?thesis using own_sockets_update [OF assms(1), of i "Serving (Client_sock s) junk 0" "vars s"] Begin(4)
    by (simp add: own_thread_def)
next
  case (Receive i data c buf k k' sh)
  have "own_thread (fds (vars s)) i (threads s ! i)" using assms(1) Receive(2) by (simp add: own_sockets_def)
  moreover have "fds sh = fds (vars s)" using fds_recvmg(1) [of c "received data buf" k "vars s"] Receive(4) by simp
  ultimately show ?thesis using own_sockets_update [OF assms(1)] Receive(3,5) by (simp add: own_thread_def)
next
  case (Hangup i c buf k)
  then show ?thesis using own_sockets_update [OF assms(1)] by (simp add: own_thread_def disconnect_def)
qed

lemma server_reach_own:
  assumes "server_reach sock True (init_server ns) s" and "0 < sock"
  shows "own_sockets s \<and> nodes (vars s) = ns"
  using assms(1)
proof (induction rule: server_reach.induct)
  case refl
  then show ?case by (simp add: own_sockets_def init_server_def init_cluster_def)
next
  case (step t e u)
  have "server_ok sock t" using server_reach_ok [OF step.hyps(1) server_ok_init assms(2)] .
  then have "own_sockets u" using own_sockets_step [of t sock e u] step by blast
  moreover from step.hyps(4) have "nodes (vars u) = nodes (vars t)"
  proof (cases rule: server_step_cases)
    case (Receive i data c buf k k' sh)
    then show ?thesis using fds_recvmg(3) [of c "received data buf" k "vars t"] by simp
  qed (simp_all add: disconnect_def)
  ultimately show ?case using step.IH by simp
qed

lemma server_reach_socket:
  assumes "server_reach sock True (init_server ns) s" and "0 < sock"
    and "i < length (threads s)" and "threads s ! i = Serving c buf k"
  shows "c = fds (vars s) ! i \<and> fd_of (vars s) i = c \<and> c \<noteq> 0"
proof -
  have own: "own_sockets s" and ok: "server_ok sock s"
    using server_reach_own [OF assms(1,2)] server_reach_ok [OF assms(1) server_ok_init assms(2)] by auto
  have "thread_ok (vars s) (threads s ! i)" using ok assms(3) by (simp add: server_ok_def)
  then have "c \<noteq> 0" using ok by (auto simp: server_ok_def shared_ok_def thread_ok_def assms(4))
  then show ?thesis using own ok assms(3,4) by (force simp: own_sockets_def own_thread_def server_ok_def fd_of_def)
qed

text \<open>A command and its answer, as steps of the threads.\<close>

lemma forwarded_command:
  assumes "me < length (threads s)" and "threads s ! me = Serving c buf k" and "quiet (vars s)"
    and "good_names (nodes (vars s))" and "i < length (nodes (vars s))" and "fd_of (vars s) i \<noteq> 0"
    and "nul_free (nodes (vars s) ! i)" and "nul_free cmd" and "take 5 (nodes (vars s) ! i @ CHR ''.'' # cmd) \<noteq> ''nodes''"
    and "m = a # CHR '':'' # nodes (vars s) ! i @ CHR ''.'' # cmd" and "length m < 5000"
  shows "\<exists>t. server_step sock (Receive me m) s = Some (Inr t) \<and> (\<forall>j. j \<noteq> me \<longrightarrow> threads t ! j = threads s ! j)
    \<and> length (threads t) = length (threads s) \<and> sent (vars t) = sent (vars s) @ [(fd_of (vars s) i, cmd @ [NUL])]
    \<and> SEND_TO_FD (vars t) = c \<and> SEND_TO_FD_STAR (vars t) = -1"
  using assms(1-3,10,11) recvmg_command [OF assms(3-10), of c buf k]
  by (auto simp: thread_receive_def quiet_def nth_list_update)

lemma forwarded_reply:
  assumes "i < length (threads s)" and "threads s ! i = Serving c buf k"
    and "SEND_TO_FD (vars s) \<noteq> -1" and "SEND_TO_FD_STAR (vars s) = -1"
    and "nul_free reply" and "2 \<le> length reply" and "length reply < 5000" and "take 5 (drop 2 reply) \<noteq> ''nodes''"
  shows "\<exists>t. server_step sock (Receive i reply) s = Some (Inr t)
    \<and> sent (vars t) = sent (vars s) @ [(SEND_TO_FD (vars s), reply)] \<and> quiet (vars t)"
  using assms recvmg_reply [of "vars s" "received reply buf" c k] received_text [OF assms(5,6), of buf]
    received_text [OF assms(5), of 0 buf]
  by (auto simp: thread_receive_def quiet_def)

text \<open>
  When every new thread runs before the next connection is accepted, each client has its
  own thread: the thread of the \<open>i\<close>-th connection serves the \<open>i\<close>-th socket, which is also the
  socket that commands for the \<open>i\<close>-th node name go to.
\<close>

theorem prompt_threads_own_sockets:
  assumes "server_reach sock True (init_server ns) s" and "0 < sock"
    and "i < length (threads s)" and "threads s ! i = Serving c buf k"
  shows "c = fds (vars s) ! i \<and> fd_of (vars s) i = c"
  using server_reach_socket [OF assms] by blast

theorem prompt_threads_own_sockets_witness:
  "\<exists>s. server_run 3 True example_events (init_server [''n1'', ''n2'']) = Some s
     \<and> threads s ! 1 = Serving 5 [] 0 \<and> fd_of (vars s) 1 = 5"
proof -
  have "\<exists>s. server_run 3 True example_events (init_server [''n1'', ''n2'']) = Some s \<and> threads s ! 1 = Serving 5 [] 0
      \<and> length (threads s) = 2"
    by (simp add: example_events_def server_eval)
  then obtain s where s: "server_run 3 True example_events (init_server [''n1'', ''n2'']) = Some s"
      "threads s ! 1 = Serving 5 [] 0" "length (threads s) = 2" by blast
  show ?thesis using prompt_threads_own_sockets [OF server_run_reach [OF s(1)], of 1] s by auto
qed

section \<open>The race for the socket\<close>

definition unheard :: "int \<Rightarrow> server_sys \<Rightarrow> bool" where
  "unheard c s \<longleftrightarrow> c \<in> set (fds (vars s)) \<and> Client_sock s \<noteq> c \<and> (\<forall>buf k. Serving c buf k \<notin> set (threads s))"

lemma unheard_step:
  assumes "unheard c s" and "c \<noteq> -1" and "kernel_ok sock e s" and "server_step sock e s = Some (Inr t)"
  shows "unheard c t"
  using assms(4)
proof (cases rule: server_step_cases)
  case (Accept d addr)
  then show ?thesis using assms(1-3) by (auto simp: unheard_def)
next
  case (Begin i junk)
  then show ?thesis using assms(1) by (auto simp: unheard_def dest!: set_update_subset_insert [THEN subsetD])
next
  case (Receive i data d buf k k' sh)
  have "fds sh = fds (vars s)" using fds_recvmg(1) [of d "received data buf" k "vars s"] Receive(4) by simp
  moreover have "Serving d buf k \<in> set (threads s)" using Receive(2,3) nth_mem by metis
  ultimately show ?thesis using assms(1) Receive(5)
    by (auto simp: unheard_def dest!: set_update_subset_insert [THEN subsetD])
next
  case (Hangup i d buf k)
  then show ?thesis using assms(1)
    by (auto simp: unheard_def disconnect_def dest!: set_update_subset_insert [THEN subsetD])
qed

text \<open>
  A client can be lost. When a second connection is accepted before the thread created
  for the first has run, the first client's socket is overwritten in the variable both threads
  read: from then on, whatever happens, no thread ever serves the first client, although
  commands for its node are still sent to it.
\<close>

theorem quick_connection_unheard:
  assumes "c \<in> set (fds (vars s))" and "c \<noteq> -1" and "\<forall>buf k. Serving c buf k \<notin> set (threads s)"
    and "kernel_ok sock (Accept d addr) s" and "server_step sock (Accept d addr) s = Some (Inr t)"
    and "server_reach sock False t u"
  shows "(\<forall>buf k. Serving c buf k \<notin> set (threads u)) \<and> c \<in> set (fds (vars u))"
proof -
  have "unheard c t"
    using assms(1-5) by (auto simp: unheard_def server_accept_def accept_cluster_def split: if_splits)
  with assms(6) have "unheard c u"
    by (induction rule: server_reach.induct) (auto intro: unheard_step [OF _ assms(2)])
  then show ?thesis by (simp add: unheard_def)
qed

theorem quick_connection_unheard_witness:
  "\<exists>s t u. server_run 3 False [Accept 4 ''10.0.0.1''] (init_server [''n1'', ''n2'']) = Some s
     \<and> server_step 3 (Accept 5 ''10.0.0.2'') s = Some (Inr t)
     \<and> server_run 3 False [Begin 0 [], Begin 1 []] t = Some u
     \<and> threads u = [Serving 5 [] 0, Serving 5 [] 0] \<and> (\<forall>buf k. Serving 4 buf k \<notin> set (threads u))"
proof -
  have "\<exists>s t u. server_run 3 False [Accept 4 ''10.0.0.1''] (init_server [''n1'', ''n2'']) = Some s
     \<and> server_step 3 (Accept 5 ''10.0.0.2'') s = Some (Inr t) \<and> server_run 3 False [Begin 0 [], Begin 1 []] t = Some u
     \<and> threads u = [Serving 5 [] 0, Serving 5 [] 0] \<and> fds (vars s) = [4] \<and> threads s = [Created]"
    by (simp add: server_eval)
  then obtain s t u where r: "server_run 3 False [Accept 4 ''10.0.0.1''] (init_server [''n1'', ''n2'']) = Some s"
      "server_step 3 (Accept 5 ''10.0.0.2'') s = Some (Inr t)" "server_run 3 False [Begin 0 [], Begin 1 []] t = Some u"
      "threads u = [Serving 5 [] 0, Serving 5 [] 0]" "fds (vars s) = [4]" "threads s = [Created]" by blast
  show ?thesis using quick_connection_unheard [of 4 s 3 5 _ t u, OF _ _ _ _ r(2) server_run_reach [OF r(3)]] r by auto
qed

end
