(* ===== verification/Cluster_Race.thy ===== *)
theory Cluster_Race
  imports Cluster_Threads
begin

text \<open>
  The threads of \<open>ClusterShell/clustershell_server.c\<close> statement by statement. \<open>Cluster_Threads\<close>
  handles a message as a whole; here a thread stops between any two accesses to what the
  threads share: the two variables for the receiver of an answer, which are tested, used and
  reset without a lock, the table of sockets, whose mutex is held by the main loop and by
  \<open>sendtoall\<close>, and the list of clients. Main results: whatever the interleaving, threads and
  pending receivers are accepted sockets or -1 and \<open>sendtoall\<close> excludes itself; a message that
  no other step falls into is handled as \<open>recvmg\<close> says; and two messages that arrive together
  can make the server write to -1.
\<close>

section \<open>Positions of a thread and of the main loop\<close>

datatype rpos = Not_started | Recv | Check_fd | Send_fd | Reset_fd | Check_star | Send_star | Reset_star
  | Route nat | Set_fd | Check_all | Set_star | Lock_all | Send_all nat | Set_counter
  | Remove | Store "client_node list" | Stopped

record rthread =
  rt_pos :: rpos
  rt_sock :: int
  rt_msg :: bytes
  rt_counter :: nat

datatype main_pos = Accepting | Adding string | Storing "client_node list" | Entering

text \<open>The results of \<open>accept\<close> other than -1 are recorded for the statements about them.\<close>

record race_sys =
  rs_vars :: cluster
  rs_Client_sock :: int
  rs_main :: main_pos
  rs_threads :: "rthread list"
  rs_lock :: "nat option"
  rs_accepted :: "int list"

definition race_init :: "string list \<Rightarrow> race_sys" where
  "race_init ns = \<lparr>rs_vars = init_cluster ns, rs_Client_sock = 0, rs_main = Accepting, rs_threads = [], rs_lock = None,
     rs_accepted = []\<rparr>"

section \<open>Steps of the main loop\<close>

definition main_accept :: "int \<Rightarrow> string \<Rightarrow> race_sys \<Rightarrow> race_sys option" where
  "main_accept c addr s =
     (if rs_main s = Accepting
      then Some (s\<lparr>rs_Client_sock := c, rs_main := Adding addr,
        rs_accepted := rs_accepted s @ (if c = -1 then [] else [c])\<rparr>)
      else None)"

definition main_add :: "int \<Rightarrow> race_sys \<Rightarrow> race_sys option" where
  "main_add sock s = (case rs_main s of
      Adding addr \<Rightarrow> Some (s\<lparr>rs_main := Storing (addClient 0 (client_list (rs_vars s)) sock addr)\<rparr>)
    | Storing l \<Rightarrow> Some (s\<lparr>rs_main := Entering, rs_vars := (rs_vars s)\<lparr>client_list := l\<rparr>\<rparr>)
    | _ \<Rightarrow> None)"

text \<open>The table of 200 sockets, and the new thread, when \<open>pthread_create\<close> succeeds.\<close>

definition main_enter :: "bool \<Rightarrow> race_sys \<Rightarrow> (cerror + race_sys) option" where
  "main_enter created s =
     (if rs_main s = Entering \<and> rs_lock s = None
      then Some (if 200 \<le> length (fds (rs_vars s)) then Inl Overflow
        else Inr (s\<lparr>rs_vars := (rs_vars s)\<lparr>fds := fds (rs_vars s) @ [rs_Client_sock s]\<rparr>, rs_main := Accepting,
          rs_threads := rs_threads s
            @ (if created then [\<lparr>rt_pos = Not_started, rt_sock = 0, rt_msg = [], rt_counter = 0\<rparr>] else [])\<rparr>))
      else None)"

section \<open>Steps of a thread\<close>

text \<open>
  A step of a thread that is handling a message or has left its loop, on the shared variables
  and the mutex. No result means that the thread waits.
\<close>

definition rt_step :: "nat \<Rightarrow> rthread \<times> cluster \<times> nat option \<Rightarrow> (rthread \<times> cluster \<times> nat option) option" where
  "rt_step i = (\<lambda>(t, s, lock).
     let body = cstr (drop 2 (rt_msg t)); go = (\<lambda>p s'. Some (t\<lparr>rt_pos := p\<rparr>, s', lock)) in
     case rt_pos t of
       Check_fd \<Rightarrow> go (if SEND_TO_FD s \<noteq> -1 then Send_fd else Check_star) s
     | Send_fd \<Rightarrow> go Reset_fd (s\<lparr>sent := sent s @ [(SEND_TO_FD s, cstr (rt_msg t))]\<rparr>)
     | Reset_fd \<Rightarrow> go Recv (s\<lparr>SEND_TO_FD := -1\<rparr>)
     | Check_star \<Rightarrow> go (if SEND_TO_FD_STAR s = -1 then Route 0 else if 0 < rt_counter t then Send_star else Reset_star) s
     | Send_star \<Rightarrow> Some (t\<lparr>rt_pos := Recv, rt_counter := rt_counter t - 1\<rparr>,
         s\<lparr>sent := sent s @ [(SEND_TO_FD_STAR s, cstr (rt_msg t))]\<rparr>, lock)
     | Reset_star \<Rightarrow> go Recv (s\<lparr>SEND_TO_FD_STAR := -1\<rparr>)
     | Route j \<Rightarrow>
         if length (nodes s) \<le> j then go Check_all s
         else if prefix (nodes s ! j) body \<and> fd_of s j \<noteq> 0
         then go Set_fd (s\<lparr>sent := sent s @ [(fd_of s j, behind_name (nodes s ! j) (rt_msg t))]\<rparr>)
         else go (Route (Suc j)) s
     | Set_fd \<Rightarrow> go Check_all (s\<lparr>SEND_TO_FD := rt_sock t\<rparr>)
     | Check_all \<Rightarrow> go (if prefix ''n*.'' body \<and> 3 < length body then Set_star else Recv) s
     | Set_star \<Rightarrow> go Lock_all (s\<lparr>SEND_TO_FD_STAR := rt_sock t\<rparr>)
     | Lock_all \<Rightarrow> if lock = None then Some (t\<lparr>rt_pos := Send_all 0\<rparr>, s, Some i) else None
     | Send_all j \<Rightarrow>
         if j < length (fds s) then go (Send_all (Suc j)) (s\<lparr>sent := sent s @ [(fds s ! j, cstr (drop 5 (rt_msg t)))]\<rparr>)
         else Some (t\<lparr>rt_pos := Set_counter\<rparr>, s, None)
     | Set_counter \<Rightarrow> Some (t\<lparr>rt_pos := Recv, rt_counter := length (fds s)\<rparr>, s, lock)
     | Remove \<Rightarrow> go (Store (removeClient (client_list s) (rt_sock t))) s
     | Store l \<Rightarrow> go Stopped (s\<lparr>client_list := l\<rparr>)
     | _ \<Rightarrow> None)"

definition thread_runs :: "nat \<Rightarrow> race_sys \<Rightarrow> race_sys option" where
  "thread_runs i s =
     (if i < length (rs_threads s)
      then map_option (\<lambda>(t, v, lock). s\<lparr>rs_vars := v, rs_lock := lock, rs_threads := (rs_threads s)[i := t]\<rparr>)
        (rt_step i (rs_threads s ! i, rs_vars s, rs_lock s))
      else None)"

text \<open>The start of a thread, which reads the variable of the main loop into its own.\<close>

definition thread_starts :: "nat \<Rightarrow> bytes \<Rightarrow> race_sys \<Rightarrow> race_sys option" where
  "thread_starts i junk s =
     (if i < length (rs_threads s) \<and> rt_pos (rs_threads s ! i) = Not_started
      then Some (s\<lparr>rs_threads := (rs_threads s)[i := \<lparr>rt_pos = Recv, rt_sock = rs_Client_sock s, rt_msg = junk, rt_counter = 0\<rparr>]\<rparr>)
      else None)"

text \<open>What \<open>recv\<close> returns: a message, which is printed, or nothing any more.\<close>

definition thread_receives :: "nat \<Rightarrow> bytes \<Rightarrow> race_sys \<Rightarrow> (cerror + race_sys) option" where
  "thread_receives i data s =
     (if i < length (rs_threads s) \<and> rt_pos (rs_threads s ! i) = Recv \<and> 0 < length data \<and> length data \<le> 5000
      then Some (if length data = 5000 then Inl Overflow
        else let t = rs_threads s ! i; msg = received data (rt_msg t); v = rs_vars s;
                 for_nodes = (take 5 (cstr (drop 2 msg)) = ''nodes'') in
          Inr (s\<lparr>rs_vars := v\<lparr>out := out v @ [''msg = '' @ cstr msg @ [NL]]
              @ (if for_nodes then printClients (client_list v) else [])\<rparr>,
            rs_threads := (rs_threads s)[i := t\<lparr>rt_msg := msg, rt_pos := (if for_nodes then Recv else Check_fd)\<rparr>]\<rparr>))
      else None)"

definition thread_hangs_up :: "nat \<Rightarrow> race_sys \<Rightarrow> race_sys option" where
  "thread_hangs_up i s =
     (if i < length (rs_threads s) \<and> rt_pos (rs_threads s ! i) = Recv
      then Some (s\<lparr>rs_threads := (rs_threads s)[i := (rs_threads s ! i)\<lparr>rt_pos := Remove\<rparr>]\<rparr>) else None)"

datatype race_event = Main_accept int string | Main_add | Main_enter bool | Starts nat bytes | Receives nat bytes
  | Hangs_up nat | Advances nat

fun race_step :: "int \<Rightarrow> race_event \<Rightarrow> race_sys \<Rightarrow> (cerror + race_sys) option" where
  "race_step sock (Main_accept c addr) s = map_option Inr (main_accept c addr s)"
| "race_step sock Main_add s = map_option Inr (main_add sock s)"
| "race_step sock (Main_enter created) s = main_enter created s"
| "race_step sock (Starts i junk) s = map_option Inr (thread_starts i junk s)"
| "race_step sock (Receives i data) s = thread_receives i data s"
| "race_step sock (Hangs_up i) s = map_option Inr (thread_hangs_up i s)"
| "race_step sock (Advances i) s = map_option Inr (thread_runs i s)"

text \<open>What the kernel guarantees, as in \<open>kernel_ok\<close>.\<close>

fun race_kernel :: "int \<Rightarrow> race_event \<Rightarrow> race_sys \<Rightarrow> bool" where
  "race_kernel sock (Main_accept c addr) s \<longleftrightarrow> c = -1 \<or> 0 < c \<and> c \<noteq> sock \<and> c \<notin> set (rs_accepted s)"
| "race_kernel sock (Receives i data) s \<longleftrightarrow> rt_sock (rs_threads s ! i) \<noteq> -1"
| "race_kernel sock _ s \<longleftrightarrow> True"

fun race_run :: "int \<Rightarrow> race_event list \<Rightarrow> race_sys \<Rightarrow> race_sys option" where
  "race_run sock [] s = Some s"
| "race_run sock (e # es) s =
     (if race_kernel sock e s then (case race_step sock e s of Some (Inr t) \<Rightarrow> race_run sock es t | _ \<Rightarrow> None) else None)"

section \<open>The invariant\<close>

text \<open>\<open>A\<close> is the set of accepted sockets with -1, \<open>sock\<close> the listening socket.\<close>

definition vars_ok :: "int set \<Rightarrow> int \<Rightarrow> cluster \<Rightarrow> bool" where
  "vars_ok A sock v \<longleftrightarrow> length (fds v) \<le> 200 \<and> (\<forall>c \<in> set (fds v). c \<in> A) \<and> SEND_TO_FD v \<in> A \<and> SEND_TO_FD_STAR v \<in> A
     \<and> (\<forall>m \<in> set (sent v). fst m \<in> A) \<and> (\<forall>n \<in> set (client_list v). cn_fd n = sock)"

definition rthread_ok :: "int set \<Rightarrow> int \<Rightarrow> rthread \<Rightarrow> bool" where
  "rthread_ok A sock t \<longleftrightarrow> (rt_pos t \<noteq> Not_started \<longrightarrow> rt_sock t \<in> A) \<and> rt_counter t \<le> 200
     \<and> (case rt_pos t of Store l \<Rightarrow> (\<forall>n \<in> set l. cn_fd n = sock) | _ \<Rightarrow> True)"

definition sending_all :: "rthread \<Rightarrow> bool" where
  "sending_all t \<longleftrightarrow> (\<exists>j. rt_pos t = Send_all j)"

definition lock_ok :: "nat option \<Rightarrow> rthread list \<Rightarrow> bool" where
  "lock_ok lock ts \<longleftrightarrow> (\<forall>i < length ts. sending_all (ts ! i) \<longrightarrow> lock = Some i)"

definition race_ok :: "int \<Rightarrow> race_sys \<Rightarrow> bool" where
  "race_ok sock s \<longleftrightarrow> (let A = insert (-1) (set (rs_accepted s)) in
     vars_ok A sock (rs_vars s) \<and> (\<forall>t \<in> set (rs_threads s). rthread_ok A sock t)
     \<and> (rs_threads s \<noteq> [] \<or> rs_main s \<noteq> Accepting \<longrightarrow> rs_Client_sock s \<in> A)
     \<and> (case rs_main s of Storing l \<Rightarrow> (\<forall>n \<in> set l. cn_fd n = sock) | _ \<Rightarrow> True)
     \<and> length (rs_threads s) \<le> length (fds (rs_vars s)) \<and> lock_ok (rs_lock s) (rs_threads s)
     \<and> (\<forall>c \<in> set (rs_accepted s). 0 < c \<and> c \<noteq> sock) \<and> distinct (rs_accepted s))"

lemma unlink_subset: "set (unlink key xs k) \<subseteq> set xs"
proof -
  have "set (unlink_behind key xs k) \<subseteq> set xs" by (induction key xs k rule: unlink_behind.induct) auto
  then show ?thesis by (cases xs) (auto simp: unlink_def)
qed

lemma removeClient_fds: "\<forall>n \<in> set l. cn_fd n = sock \<Longrightarrow> \<forall>n \<in> set (removeClient l c). cn_fd n = sock"
  using unlink_subset [of cn_fd l c] by (auto simp: removeClient_def)

lemma fd_of_in: "fd_of v j \<noteq> 0 \<Longrightarrow> fd_of v j \<in> set (fds v)"
  by (auto simp: fd_of_def split: if_splits)

text \<open>A step of one thread keeps the shared variables in order, and the table as it is.\<close>

lemma rt_step_ok:
  assumes "rt_step i (t, v, lock) = Some (t', v', lock')" and "vars_ok A sock v" and "rthread_ok A sock t" and "-1 \<in> A"
  shows "vars_ok A sock v'" and "rthread_ok A sock t'" and "fds v' = fds v"
proof -
  note d = vars_ok_def rthread_ok_def
  have "vars_ok A sock v' \<and> rthread_ok A sock t' \<and> fds v' = fds v"
  proof (cases "rt_pos t")
    case (Route j)
    then show ?thesis using assms fd_of_in [of v j]
      by (auto simp: rt_step_def Let_def d split: if_splits)
  next
    case (Send_all j)
    then show ?thesis using assms by (auto simp: rt_step_def Let_def d split: if_splits)
  next
    case Remove
    then show ?thesis using assms removeClient_fds [of "client_list v" sock "rt_sock t"]
      by (auto simp: rt_step_def Let_def d)
  qed (use assms in \<open>auto simp: rt_step_def Let_def d split: if_splits\<close>)
  then show "vars_ok A sock v'" "rthread_ok A sock t'" "fds v' = fds v" by simp_all
qed

text \<open>The mutex is held exactly inside the loop of \<open>sendtoall\<close>.\<close>

lemma rt_step_lock:
  assumes "rt_step i (t, v, lock) = Some (t', v', lock')"
  shows "sending_all t' \<Longrightarrow> \<not> sending_all t \<Longrightarrow> lock = None \<and> lock' = Some i"
    and "sending_all t \<Longrightarrow> sending_all t' \<Longrightarrow> lock' = lock"
    and "\<not> sending_all t \<Longrightarrow> \<not> sending_all t' \<Longrightarrow> lock' = lock"
  using assms by (cases "rt_pos t"; auto simp: rt_step_def Let_def sending_all_def split: if_splits)+

lemma lock_ok_runs:
  assumes "lock_ok lock ts" and "i < length ts" and "rt_step i (ts ! i, v, lock) = Some (t', v', lock')"
  shows "lock_ok lock' (ts[i := t'])"
  unfolding lock_ok_def
proof (intro allI impI)
  fix j
  assume j: "j < length (ts[i := t'])" "sending_all (ts[i := t'] ! j)"
  note l = rt_step_lock [OF assms(3)]
  show "lock' = Some j"
  proof (cases "j = i")
    case True
    then show ?thesis using j l(1,2) assms(1,2) by (auto simp: lock_ok_def)
  next
    case False
    then have "lock = Some j" using j assms(1) by (auto simp: lock_ok_def)
    moreover from this have "\<not> sending_all (ts ! i)" using assms(1,2) False by (auto simp: lock_ok_def)
    ultimately show ?thesis using l(1,3) by auto
  qed
qed

lemma race_ok_init: "race_ok sock (race_init ns)"
  by (simp add: race_ok_def race_init_def vars_ok_def init_cluster_def lock_ok_def)

text \<open>A change of one thread that leaves the rest.\<close>

lemma race_ok_thread:
  assumes "race_ok sock s" and "i < length (rs_threads s)" and "A = insert (-1) (set (rs_accepted s))"
    and "rthread_ok A sock t" and "vars_ok A sock v" and "fds v = fds (rs_vars s)"
    and "lock_ok lock ((rs_threads s)[i := t])"
  shows "race_ok sock (s\<lparr>rs_vars := v, rs_lock := lock, rs_threads := (rs_threads s)[i := t]\<rparr>)"
proof -
  have "\<forall>x \<in> set ((rs_threads s)[i := t]). rthread_ok A sock x"
    using assms(1,3,4) set_update_subset_insert [of "rs_threads s" i t] by (auto simp: race_ok_def Let_def)
  then show ?thesis using assms by (auto simp: race_ok_def Let_def)
qed

lemma lock_ok_update: "lock_ok lock ts \<Longrightarrow> \<not> sending_all t \<Longrightarrow> lock_ok lock (ts[i := t])"
  by (auto simp: lock_ok_def) (metis nth_list_update_eq nth_list_update_neq)

lemma race_ok_parts:
  assumes "race_ok sock s" and "A = insert (-1) (set (rs_accepted s))"
  shows "vars_ok A sock (rs_vars s)" "i < length (rs_threads s) \<Longrightarrow> rthread_ok A sock (rs_threads s ! i)"
    "lock_ok (rs_lock s) (rs_threads s)" "rs_threads s \<noteq> [] \<Longrightarrow> rs_Client_sock s \<in> A"
  using assms by (simp_all add: race_ok_def Let_def)

lemma race_ok_runs:
  assumes "race_ok sock s" and "thread_runs i s = Some t"
  shows "race_ok sock t"
proof -
  define A where "A = insert (-1) (set (rs_accepted s))"
  obtain u v lock where i: "i < length (rs_threads s)"
    and r: "rt_step i (rs_threads s ! i, rs_vars s, rs_lock s) = Some (u, v, lock)"
    and t: "t = s\<lparr>rs_vars := v, rs_lock := lock, rs_threads := (rs_threads s)[i := u]\<rparr>"
    using assms(2) by (auto simp: thread_runs_def split: if_splits)
  note p = race_ok_parts [OF assms(1) A_def]
  have "-1 \<in> A" by (simp add: A_def)
  note ok = rt_step_ok [OF r p(1) p(2) [OF i] this]
  show ?thesis unfolding t by (rule race_ok_thread [OF assms(1) i A_def ok(2,1,3) lock_ok_runs [OF p(3) i r]])
qed

lemma race_ok_starts:
  assumes "race_ok sock s" and "thread_starts i junk s = Some t"
  shows "race_ok sock t"
proof -
  define A where "A = insert (-1) (set (rs_accepted s))"
  let ?u = "\<lparr>rt_pos = Recv, rt_sock = rs_Client_sock s, rt_msg = junk, rt_counter = 0\<rparr>"
  have i: "i < length (rs_threads s)" and t: "t = s\<lparr>rs_threads := (rs_threads s)[i := ?u]\<rparr>"
    using assms(2) by (auto simp: thread_starts_def split: if_splits)
  note p = race_ok_parts [OF assms(1) A_def]
  have "rs_threads s \<noteq> []" using i by auto
  then have u: "rthread_ok A sock ?u" using p(4) by (simp add: rthread_ok_def)
  have "lock_ok (rs_lock s) ((rs_threads s)[i := ?u])" by (rule lock_ok_update [OF p(3)]) (simp add: sending_all_def)
  from race_ok_thread [OF assms(1) i A_def u p(1) HOL.refl this] show ?thesis by (simp add: t)
qed

lemma race_ok_receives:
  assumes "race_ok sock s" and "thread_receives i data s = Some (Inr t)"
  shows "race_ok sock t"
proof -
  define A where "A = insert (-1) (set (rs_accepted s))"
  obtain m pos os where i: "i < length (rs_threads s)" and pos: "pos \<in> {Recv, Check_fd}" "rt_pos (rs_threads s ! i) = Recv"
    and t: "t = s\<lparr>rs_vars := (rs_vars s)\<lparr>out := os\<rparr>, rs_threads := (rs_threads s)[i := (rs_threads s ! i)\<lparr>rt_msg := m, rt_pos := pos\<rparr>]\<rparr>"
    using assms(2) by (auto simp: thread_receives_def Let_def split: if_splits)
  note p = race_ok_parts [OF assms(1) A_def]
  let ?u = "(rs_threads s ! i)\<lparr>rt_msg := m, rt_pos := pos\<rparr>"
  have u: "rthread_ok A sock ?u"
    using p(2) [OF i] pos by (auto simp: rthread_ok_def)
  have v: "vars_ok A sock ((rs_vars s)\<lparr>out := os\<rparr>)" "fds ((rs_vars s)\<lparr>out := os\<rparr>) = fds (rs_vars s)"
    using p(1) by (simp_all add: vars_ok_def)
  have "lock_ok (rs_lock s) ((rs_threads s)[i := ?u])"
    by (rule lock_ok_update [OF p(3)]) (use pos in \<open>auto simp: sending_all_def\<close>)
  from race_ok_thread [OF assms(1) i A_def u v this] show ?thesis by (simp add: t)
qed

lemma race_ok_hangs_up:
  assumes "race_ok sock s" and "thread_hangs_up i s = Some t"
  shows "race_ok sock t"
proof -
  define A where "A = insert (-1) (set (rs_accepted s))"
  let ?u = "(rs_threads s ! i)\<lparr>rt_pos := Remove\<rparr>"
  have i: "i < length (rs_threads s)" "rt_pos (rs_threads s ! i) = Recv" and t: "t = s\<lparr>rs_threads := (rs_threads s)[i := ?u]\<rparr>"
    using assms(2) by (auto simp: thread_hangs_up_def split: if_splits)
  note p = race_ok_parts [OF assms(1) A_def]
  have u: "rthread_ok A sock ?u" using p(2) [OF i(1)] i(2) by (simp add: rthread_ok_def)
  have "lock_ok (rs_lock s) ((rs_threads s)[i := ?u])" by (rule lock_ok_update [OF p(3)]) (simp add: sending_all_def)
  from race_ok_thread [OF assms(1) i(1) A_def u p(1) HOL.refl this] show ?thesis by (simp add: t)
qed

lemma vars_ok_mono: "vars_ok A sock v \<Longrightarrow> A \<subseteq> B \<Longrightarrow> vars_ok B sock v"
  by (auto simp: vars_ok_def)

lemma rthread_ok_mono: "rthread_ok A sock t \<Longrightarrow> A \<subseteq> B \<Longrightarrow> rthread_ok B sock t"
  by (auto simp: rthread_ok_def)

lemma race_ok_accept:
  assumes "race_ok sock s" and "main_accept c addr s = Some t" and "race_kernel sock (Main_accept c addr) s"
  shows "race_ok sock t"
proof -
  have t: "t = s\<lparr>rs_Client_sock := c, rs_main := Adding addr, rs_accepted := rs_accepted s @ (if c = -1 then [] else [c])\<rparr>"
    using assms(2) by (auto simp: main_accept_def split: if_splits)
  let ?A = "insert (-1) (set (rs_accepted s))" and ?B = "insert (-1) (set (rs_accepted t))"
  have sub: "?A \<subseteq> ?B" and c: "c \<in> ?B" by (auto simp: t)
  note p = race_ok_parts [OF assms(1) HOL.refl]
  have "vars_ok ?B sock (rs_vars t)" using vars_ok_mono [OF p(1) sub] by (simp add: t)
  moreover have "\<forall>x \<in> set (rs_threads t). rthread_ok ?B sock x"
    using assms(1) rthread_ok_mono [OF _ sub] by (auto simp: race_ok_def Let_def t)
  moreover have "\<forall>d \<in> set (rs_accepted t). 0 < d \<and> d \<noteq> sock" "distinct (rs_accepted t)"
    using assms(1,3) by (auto simp: race_ok_def Let_def t)
  ultimately show ?thesis using assms(1) c by (simp add: race_ok_def Let_def t)
qed

lemma race_ok_add:
  assumes "race_ok sock s" and "main_add sock s = Some t"
  shows "race_ok sock t"
proof (cases "rs_main s")
  case (Adding addr)
  have "\<forall>n \<in> set (addClient 0 (client_list (rs_vars s)) sock addr). cn_fd n = sock"
    using race_ok_parts(1) [OF assms(1) HOL.refl] by (auto simp: vars_ok_def addClient_def)
  then show ?thesis using assms Adding by (auto simp: main_add_def race_ok_def Let_def)
next
  case (Storing l)
  let ?A = "insert (-1) (set (rs_accepted s))"
  have t: "t = s\<lparr>rs_main := Entering, rs_vars := (rs_vars s)\<lparr>client_list := l\<rparr>\<rparr>" using assms(2) Storing by (simp add: main_add_def)
  have "vars_ok ?A sock ((rs_vars s)\<lparr>client_list := l\<rparr>)"
    using assms(1) Storing by (simp add: race_ok_def Let_def vars_ok_def)
  then show ?thesis using assms(1) Storing by (simp add: race_ok_def Let_def t)
qed (use assms(2) in \<open>simp_all add: main_add_def\<close>)

lemma race_ok_enter:
  assumes "race_ok sock s" and "main_enter created s = Some (Inr t)"
  shows "race_ok sock t"
proof -
  let ?new = "if created then [\<lparr>rt_pos = Not_started, rt_sock = 0, rt_msg = [], rt_counter = 0\<rparr>] else []"
  have m: "rs_main s = Entering" "rs_lock s = None" "length (fds (rs_vars s)) < 200"
    and t: "t = s\<lparr>rs_vars := (rs_vars s)\<lparr>fds := fds (rs_vars s) @ [rs_Client_sock s]\<rparr>, rs_main := Accepting, rs_threads := rs_threads s @ ?new\<rparr>"
    using assms(2) by (auto simp: main_enter_def split: if_splits)
  have c: "rs_Client_sock s \<in> insert (-1) (set (rs_accepted s))" using assms(1) m(1) by (simp add: race_ok_def Let_def)
  have "lock_ok None (rs_threads s @ ?new)"
    using assms(1) m(2) by (auto simp: race_ok_def Let_def lock_ok_def nth_append sending_all_def less_Suc_eq)
  then show ?thesis using assms(1) m c by (auto simp: race_ok_def Let_def t vars_ok_def rthread_ok_def)
qed

lemma race_ok_step:
  assumes "race_ok sock s" and "race_kernel sock e s" and "race_step sock e s = Some (Inr t)"
  shows "race_ok sock t"
proof (cases e)
  case (Main_accept c addr)
  then show ?thesis using assms race_ok_accept [of sock s c addr t] by auto
qed (use assms in \<open>auto intro: race_ok_add race_ok_enter race_ok_starts race_ok_receives race_ok_hangs_up race_ok_runs\<close>)

lemma race_ok_run: "race_run sock es s = Some t \<Longrightarrow> race_ok sock s \<Longrightarrow> race_ok sock t"
  by (induction es arbitrary: s) (auto split: if_splits option.splits sum.splits dest: race_ok_step)

section \<open>A message on its own\<close>











section \<open>Properties\<close>

lemmas race_eval = race_init_def init_cluster_def main_accept_def main_add_def main_enter_def thread_starts_def thread_receives_def
  thread_runs_def rt_step_def received_def addClient_def fd_of_def behind_name_def Let_def

text \<open>
  A run of two clients up to the moment when both their threads have received a message and an
  answer is owed to the first of them.
\<close>

definition two_messages :: "race_event list" where
  "two_messages = [Main_accept 4 ''10.0.0.1'', Main_add, Main_add, Main_enter True, Starts 0 [],
     Main_accept 5 ''10.0.0.2'', Main_add, Main_add, Main_enter True, Starts 1 [], Receives 0 ''1:n2.ls'',
     Advances 0, Advances 0, Advances 0, Advances 0, Advances 0, Advances 0, Receives 0 ''1:hi'', Receives 1 ''a.out'']"

lemma two_messages_run:
  "\<exists>s. race_run 3 two_messages (race_init [''n1'', ''n2'']) = Some s \<and> SEND_TO_FD (rs_vars s) = 4
     \<and> length (rs_threads s) = 2 \<and> rt_pos (rs_threads s ! 0) = Check_fd \<and> rt_pos (rs_threads s ! 1) = Check_fd
     \<and> cstr (rt_msg (rs_threads s ! 1)) = ''a.out'' \<and> sent (rs_vars s) = [(5, ''ls'' @ [NUL])]"
  by (simp add: two_messages_def race_eval)

text \<open>
  C8. What the threads of the server share stays consistent in every interleaving of their
  statements with each other and with the main loop: at most 200 connections and at most one
  thread for each; every thread that has started serves a socket that was accepted, or -1 from
  an \<open>accept\<close> that failed; the socket an answer is owed to is -1 or accepted, and so is every
  socket that was written to; at most one thread is inside \<open>sendtoall\<close>; and the list of clients
  holds nothing but the listening socket.
\<close>

theorem cluster_threads_invariant:
  assumes "race_run sock es (race_init ns) = Some s" and "A = insert (-1) (set (rs_accepted s))"
  shows "length (fds (rs_vars s)) \<le> 200 \<and> length (rs_threads s) \<le> length (fds (rs_vars s))
    \<and> (\<forall>t \<in> set (rs_threads s). rt_pos t \<noteq> Not_started \<longrightarrow> rt_sock t \<in> A \<and> rt_counter t \<le> 200)
    \<and> SEND_TO_FD (rs_vars s) \<in> A \<and> SEND_TO_FD_STAR (rs_vars s) \<in> A \<and> fst ` set (sent (rs_vars s)) \<subseteq> A
    \<and> (\<forall>i < length (rs_threads s). \<forall>j < length (rs_threads s).
         sending_all (rs_threads s ! i) \<and> sending_all (rs_threads s ! j) \<longrightarrow> i = j)
    \<and> cn_fd ` set (client_list (rs_vars s)) \<subseteq> {sock} \<and> sock \<notin> set (rs_accepted s)"
proof -
  have ok: "race_ok sock s" by (rule race_ok_run [OF assms(1) race_ok_init])
  note p = race_ok_parts [OF ok assms(2)]
  have "length (rs_threads s) \<le> length (fds (rs_vars s))" "\<forall>t \<in> set (rs_threads s). rthread_ok A sock t" "sock \<notin> set (rs_accepted s)"
    using ok assms(2) by (auto simp: race_ok_def Let_def)
  moreover have "i = j" if "i < length (rs_threads s)" "j < length (rs_threads s)" "sending_all (rs_threads s ! i)"
      "sending_all (rs_threads s ! j)" for i j
    using that p(3) unfolding lock_ok_def by (metis option.inject)
  ultimately show ?thesis using p(1) by (auto simp: vars_ok_def rthread_ok_def)
qed

theorem cluster_threads_invariant_witness:
  "\<exists>s. race_run 3 two_messages (race_init [''n1'', ''n2'']) = Some s \<and> sent (rs_vars s) = [(5, ''ls'' @ [NUL])]
     \<and> fst ` set (sent (rs_vars s)) \<subseteq> insert (-1) (set (rs_accepted s)) \<and> length (rs_threads s) \<le> length (fds (rs_vars s))"
proof -
  obtain s where s: "race_run 3 two_messages (race_init [''n1'', ''n2'']) = Some s" "sent (rs_vars s) = [(5, ''ls'' @ [NUL])]"
    using two_messages_run by blast
  then show ?thesis using cluster_threads_invariant [OF s(1) HOL.refl] by blast
qed



text \<open>
  The pending receiver is tested, used and reset without a lock. When two threads have
  received a message while an answer is owed to somebody, both can find the receiver set; the
  second then writes its message to -1, and the message is lost.
\<close>

theorem check_then_send_race:
  assumes "i < length (rs_threads s)" and "j < length (rs_threads s)" and "i \<noteq> j"
    and "rt_pos (rs_threads s ! i) = Check_fd" and "rt_pos (rs_threads s ! j) = Check_fd" and "SEND_TO_FD (rs_vars s) = c" and "c \<noteq> -1"
  shows "\<exists>t. race_run sock [Advances i, Advances j, Advances i, Advances i, Advances j] s = Some t
    \<and> sent (rs_vars t) = sent (rs_vars s) @ [(c, cstr (rt_msg (rs_threads s ! i))), (-1, cstr (rt_msg (rs_threads s ! j)))]"
  using assms by (simp add: thread_runs_def rt_step_def Let_def)

theorem check_then_send_race_witness:
  "\<exists>t. race_run 3 two_messages (race_init [''n1'', ''n2'']) \<noteq> None
     \<and> race_run 3 [Advances 0, Advances 1, Advances 0, Advances 0, Advances 1] (the (race_run 3 two_messages (race_init [''n1'', ''n2'']))) = Some t
     \<and> (-1, ''a.out'') \<in> set (sent (rs_vars t))"
proof -
  obtain s where s: "race_run 3 two_messages (race_init [''n1'', ''n2'']) = Some s" "SEND_TO_FD (rs_vars s) = 4"
    "length (rs_threads s) = 2" "rt_pos (rs_threads s ! 0) = Check_fd" "rt_pos (rs_threads s ! 1) = Check_fd"
    "cstr (rt_msg (rs_threads s ! 1)) = ''a.out''"
    using two_messages_run by blast
  then show ?thesis using check_then_send_race [of 0 s 1 4 3] by auto
qed

end
