(* ===== verification/Cluster_Client.thy ===== *)
theory Cluster_Client
  imports Shell_Pipe
begin

text \<open>
  The client of the cluster shell, \<open>ClusterShell/clustershell_client.c\<close>: commands typed by the
  user or received from the server are run by \<open>REPL\<close>, a cut-down version of the loop of the
  shell. The line splitting is that of the shell, whose text the file repeats, without the
  daemon command. What a command writes goes to the terminal or, for a received command, to
  the socket: every event carries the outlet that was in place. A message
  or a typed line is handled as a whole here; \<open>Client_Threads\<close> interleaves the two threads.
  \<open>initStuff\<close> is taken to have run.
\<close>

section \<open>State\<close>

datatype outlet = Terminal | Socket

record cl_state =
  cl_PATH :: "string list"
  cl_isBackground :: bool
  cl_bgcount :: int
  cl_argVector :: "string list"
  cl_in_pipe :: bool
  cl_badRedirect :: bool
  cl_pipeCount :: nat
  cl_pipeargCount :: nat
  cl_lastPipe :: nat
  cl_ignorePATH :: bool
  cl_noinit :: bool
  cl_commands :: "string list list"
  cl_directory :: bytes
  cl_outlet :: outlet
  cl_log :: "(outlet \<times> event) list"
  cl_sent :: "string list"

definition cl_init :: "string list \<Rightarrow> cl_state" where
  "cl_init path = \<lparr>cl_PATH = path, cl_isBackground = False, cl_bgcount = -1, cl_argVector = [], cl_in_pipe = False,
     cl_badRedirect = False, cl_pipeCount = 0, cl_pipeargCount = 0, cl_lastPipe = 0, cl_ignorePATH = False,
     cl_noinit = False, cl_commands = [], cl_directory = [], cl_outlet = Terminal, cl_log = [], cl_sent = []\<rparr>"

definition cl_emit :: "event list \<Rightarrow> cl_state \<Rightarrow> cl_state" where
  "cl_emit es s = s\<lparr>cl_log := cl_log s @ map (Pair (cl_outlet s)) es\<rparr>"

section \<open>Running a line\<close>

definition cl_initArgs :: "string \<Rightarrow> cerror + string list" where
  "cl_initArgs buffer = rbind (initArgs True buffer) (\<lambda>(_, args). Inr args)"

definition cl_builtin :: "os \<Rightarrow> cl_state \<Rightarrow> cerror + bool \<times> cl_state" where
  "cl_builtin os s = (case cl_argVector s of
       [] \<Rightarrow> Inl Segfault
     | [a] \<Rightarrow>
         if take 2 a = ''./'' then
           (if a = ''./'' then Inr (True, cl_emit [Printf (''myShell: Executabe must be a valid string'' @ [NL])] s)
            else Inr (False, s\<lparr>cl_argVector := [tl a], cl_ignorePATH := True\<rparr>))
         else Inr (False, s)
     | a # b # _ \<Rightarrow>
         if a = ''cd'' then
           rbind (cd_target (HOME os) b) (\<lambda>dir.
             Inr (True, cl_emit [Chdir dir]
               (s\<lparr>cl_directory := replaceSubstring (HOME os) (cwd_after os dir) (cl_directory s)\<rparr>)))
         else Inr (False, s))"

definition cl_count_pipes :: "cl_state \<Rightarrow> cl_state" where
  "cl_count_pipes s =
     (if length (filter (\<lambda>a. a = ''|'') (cl_argVector s)) = 0 then s\<lparr>cl_noinit := True\<rparr> else s\<lparr>cl_commands := []\<rparr>)"

definition cl_command_before :: "nat \<Rightarrow> cl_state \<Rightarrow> string list" where
  "cl_command_before i s =
     (if cl_lastPipe s = 0 then take i (cl_argVector s) else drop (cl_lastPipe s + 1) (take i (cl_argVector s)))"

text \<open>The row of the command that ends at position \<open>i\<close>; a row has 20 slots.\<close>

definition cl_end_command :: "nat \<Rightarrow> cl_state \<Rightarrow> cerror + cl_state" where
  "cl_end_command i s =
     (if 20 \<le> length (cl_command_before i s) then Inl Overflow
      else Inr (s\<lparr>cl_commands := cl_commands s @ [cl_command_before i s], cl_lastPipe := i, cl_pipeCount := cl_pipeCount s + 1\<rparr>))"

text \<open>The loop of \<open>pipe_filter\<close> over the positions that are left.\<close>

fun cl_pipe_loop :: "nat list \<Rightarrow> cl_state \<Rightarrow> cerror + cl_state" where
  "cl_pipe_loop [] s = Inr s"
| "cl_pipe_loop (i # js) s =
     (let s1 = s\<lparr>cl_pipeargCount := cl_pipeargCount s + 1\<rparr>;
          inp = (2 < i \<and> cl_argVector s ! (i - 2) = ''<'') in
      if cl_argVector s ! i \<noteq> ''|'' then cl_pipe_loop js s1
      else if inp \<and> cl_in_pipe s
      then Inr (cl_emit [Printf (''myShell: Multiple Indirection Operators with Pipes'' @ [NL])] (s1\<lparr>cl_badRedirect := True\<rparr>))
      else rbind (cl_end_command i (if inp then s1\<lparr>cl_in_pipe := True\<rparr> else s1)) (cl_pipe_loop js))"

definition cl_pipe_filter :: "cl_state \<Rightarrow> cerror + cl_state" where
  "cl_pipe_filter s = cl_pipe_loop [0..<length (cl_argVector s)] (cl_count_pipes s)"

definition cl_execute_child :: "os \<Rightarrow> cl_state \<Rightarrow> child" where
  "cl_execute_child os s =
     (if cl_ignorePATH s
      then (case cl_argVector s of
              [] \<Rightarrow> Exits
            | a # _ \<Rightarrow> let prog = str_concat (cwd_after os ''.'') a in
                if runnable os prog then Runs prog (cl_argVector s) else Exits)
      else if cl_PATH s = [] then Returns_to_loop
      else exec_child Exits os (cl_PATH s) (cl_argVector s))"

text \<open>
  The command is waited for also when it is a background command. When \<open>fork\<close> fails there is no
  child, and the client waits for the process -1.
\<close>

definition cl_run :: "os \<Rightarrow> cl_state \<Rightarrow> cl_state" where
  "cl_run os s =
     (cl_emit ((if forked os < 0 then [] else [Spawn (cl_execute_child os s) Stdin Stdout]) @ [Setpgid 0 0, Waitpid (forked os)]) s)
       \<lparr>cl_isBackground := False, cl_noinit := False, cl_lastPipe := 0, cl_ignorePATH := False\<rparr>"

definition cl_reset :: "cl_state \<Rightarrow> cl_state" where
  "cl_reset s = s\<lparr>cl_noinit := False, cl_lastPipe := 0\<rparr>"

definition cl_execute :: "os \<Rightarrow> cl_state \<Rightarrow> cerror + cl_state" where
  "cl_execute os s = rbind (cl_pipe_filter s) (\<lambda>s.
     if cl_badRedirect s \<or> 0 < cl_pipeCount s then Inr (cl_reset s) else Inr (cl_run os s))"

definition cl_dispatch :: "os \<Rightarrow> cl_state \<Rightarrow> cerror + cl_state" where
  "cl_dispatch os s =
     rbind (cl_builtin os s) (\<lambda>(done, s).
       if done then Inr s
       else if last (cl_argVector s) = ''&''
       then cl_execute os (s\<lparr>cl_isBackground := True, cl_bgcount := int (length (cl_argVector s)) - 1,
                              cl_argVector := butlast (cl_argVector s)\<rparr>)
       else cl_execute os s)"

definition REPL :: "os \<Rightarrow> string \<Rightarrow> cl_state \<Rightarrow> cerror + cl_state" where
  "REPL os buffer s =
     (let s = s\<lparr>cl_directory := replaceSubstring (HOME os) (cwd_after os ''.'') (replicate 300 NUL),
                cl_in_pipe := False, cl_pipeCount := 0, cl_pipeargCount := 0, cl_bgcount := -1\<rparr> in
      if strip_newline buffer = ''exit'' then Inr s
      else rbind (cl_initArgs buffer) (\<lambda>args. cl_dispatch os (s\<lparr>cl_argVector := args\<rparr>)))"

section \<open>The two threads\<close>

text \<open>A message from the server is run with the socket as its standard output.\<close>

definition cl_recvmg :: "os \<Rightarrow> bytes \<Rightarrow> cl_state \<Rightarrow> cerror + cl_state" where
  "cl_recvmg os msg s =
     (if 5000 \<le> length msg then Inl Overflow
      else rbind (REPL os (cstr msg) ((cl_emit [Printf (cstr msg)] s)\<lparr>cl_outlet := Socket\<rparr>))
        (\<lambda>t. Inr (t\<lparr>cl_outlet := cl_outlet s\<rparr>)))"

text \<open>
  A typed line of at most 499 characters. The first component of the result says whether the
  client goes on.
\<close>

definition cl_typed :: "os \<Rightarrow> string \<Rightarrow> string \<Rightarrow> cl_state \<Rightarrow> cerror + bool \<times> cl_state" where
  "cl_typed os name msg s =
     (if take 4 msg = ''exit'' then Inr (False, cl_emit [Printf (''Client exited'' @ [NL])] s)
      else if 500 \<le> length name + 1 + length msg then Inl Overflow
      else let s = s\<lparr>cl_sent := cl_sent s @ [name @ CHR '':'' # msg]\<rparr> in
        if 2 \<le> length msg \<and> hd msg = CHR ''n'' \<and> take 1 (drop 2 msg) = ''.'' then Inr (True, s)
        else if take 5 msg = ''nodes'' then Inr (True, s)
        else rbind (REPL os msg (cl_emit [Prompt] s)) (\<lambda>s. Inr (True, s)))"

section \<open>A received command is run\<close>

definition cl_idle :: "cl_state \<Rightarrow> bool" where
  "cl_idle s \<longleftrightarrow> cl_outlet s = Terminal \<and> cl_lastPipe s = 0 \<and> \<not> cl_noinit s \<and> \<not> cl_ignorePATH s
     \<and> \<not> cl_badRedirect s \<and> cl_PATH s \<noteq> []"

definition cl_ordinary :: "string list \<Rightarrow> bool" where
  "cl_ordinary ws \<longleftrightarrow> ws \<noteq> [] \<and> hd ws \<notin> {''exit'', ''cd''} \<and> take 2 (hd ws) \<noteq> ''./'' \<and> last ws \<noteq> ''&''"

lemma cl_dispatch_ordinary:
  assumes "cl_ordinary (cl_argVector s)"
  shows "cl_dispatch os s = cl_execute os s"
  using assms
  by (cases "cl_argVector s" rule: list.exhaust; cases "tl (cl_argVector s)")
     (auto simp: cl_dispatch_def cl_builtin_def cl_ordinary_def)

definition cl_start :: "os \<Rightarrow> string list \<Rightarrow> cl_state \<Rightarrow> cl_state" where
  "cl_start os ws s = s\<lparr>cl_directory := replaceSubstring (HOME os) (cwd_after os ''.'') (replicate 300 NUL),
     cl_in_pipe := False, cl_pipeCount := 0, cl_pipeargCount := 0, cl_bgcount := -1, cl_argVector := ws\<rparr>"

lemma REPL_words:
  assumes "\<forall>p \<in> set ps. plain_word (fst p)" and "cl_ordinary (map fst ps)"
  shows "REPL os (spaced ps @ [NL]) s = cl_execute os (cl_start os (map fst ps) s)"
proof -
  have ps: "ps \<noteq> []" "fst (hd ps) \<noteq> ''exit''" using assms(2) by (cases ps; auto simp: cl_ordinary_def)+
  have "spaced ps \<noteq> ''exit''" using spaced_word [of ps "''exit''"] ps by auto
  then show ?thesis
    using initArgs_words [OF assms(1) ps(1), of True] NL_spaced [OF assms(1)] assms(2)
    by (simp add: REPL_def Let_def cl_initArgs_def cl_dispatch_ordinary cl_start_def)
qed

lemma cl_pipe_loop_no_pipes:
  assumes "\<forall>i \<in> set js. cl_argVector s ! i \<noteq> ''|''"
  shows "cl_pipe_loop js s = Inr (s\<lparr>cl_pipeargCount := cl_pipeargCount s + length js\<rparr>)"
  using assms by (induction js arbitrary: s) simp_all

lemma cl_execute_no_pipes:
  assumes "''|'' \<notin> set (cl_argVector s)" and "\<not> cl_badRedirect s" and "cl_pipeCount s = 0"
  obtains n where "cl_execute os s = Inr (cl_run os (s\<lparr>cl_noinit := True, cl_pipeargCount := n\<rparr>))"
proof -
  have "length (filter (\<lambda>a. a = ''|'') (cl_argVector s)) = 0" using assms(1) by (auto simp: filter_empty_conv)
  then have c: "cl_count_pipes s = s\<lparr>cl_noinit := True\<rparr>" by (simp add: cl_count_pipes_def)
  have "\<forall>i \<in> set [0..<length (cl_argVector s)]. cl_argVector (cl_count_pipes s) ! i \<noteq> ''|''"
    using assms(1) by (auto simp: c) (metis nth_mem)
  from cl_pipe_loop_no_pipes [OF this] show ?thesis
    using that assms(2,3) by (simp add: cl_execute_def cl_pipe_filter_def c)
qed

lemma cl_recvmg_words:
  assumes "cl_idle s" and "\<forall>p \<in> set ps. plain_word (fst p) \<and> nul_free (fst p)" and "cl_ordinary (map fst ps)"
    and "''|'' \<notin> set (map fst ps)" and "length (spaced ps) + 2 < 5000" and "0 < forked os"
  shows "\<exists>t. cl_recvmg os (spaced ps @ [NL, NUL]) s = Inr t \<and> cl_idle t
    \<and> cl_log t = cl_log s @ [(Terminal, Printf (spaced ps @ [NL])),
        (Socket, Spawn (exec_child Exits os (cl_PATH s) (map fst ps)) Stdin Stdout),
        (Socket, Setpgid 0 0), (Socket, Waitpid (forked os))]"
proof -
  let ?s = "(cl_emit [Printf (spaced ps @ [NL])] s)\<lparr>cl_outlet := Socket\<rparr>"
  have "nul_free (spaced ps)" using assms(2) by (intro nul_free_spaced) auto
  then have c: "cstr (spaced ps @ [NL, NUL]) = spaced ps @ [NL]"
    using cstr_append_NUL [of "spaced ps @ [NL]" "[]"] by simp
  obtain n where "cl_execute os (cl_start os (map fst ps) ?s)
      = Inr (cl_run os (cl_start os (map fst ps) ?s\<lparr>cl_noinit := True, cl_pipeargCount := n\<rparr>))"
    using cl_execute_no_pipes [of "cl_start os (map fst ps) ?s" os] assms(1,4)
    by (auto simp: cl_start_def cl_idle_def cl_emit_def)
  then have "cl_recvmg os (spaced ps @ [NL, NUL]) s
      = Inr ((cl_run os (cl_start os (map fst ps) ?s\<lparr>cl_noinit := True, cl_pipeargCount := n\<rparr>))\<lparr>cl_outlet := cl_outlet s\<rparr>)"
    using REPL_words [of ps os ?s] assms(2,3,5) by (simp add: cl_recvmg_def c)
  then show ?thesis
    using assms(1,6) by (simp add: cl_run_def cl_start_def cl_emit_def cl_execute_child_def cl_idle_def)
qed

text \<open>
  When \<open>fork\<close> succeeds, a command line received from the server is shown on the terminal and run
  as one child with exactly its words, found in the search path, its output connected to the socket; then
  the terminal is the output again and the client is ready for the next command.
\<close>

theorem received_command_runs:
  assumes "cl_idle s" and "\<forall>p \<in> set ps. plain_word (fst p) \<and> nul_free (fst p)" and "cl_ordinary (map fst ps)"
    and "''|'' \<notin> set (map fst ps)" and "length (spaced ps) + 2 < 5000" and "0 < forked os"
  shows "\<exists>t. cl_recvmg os (spaced ps @ [NL, NUL]) s = Inr t \<and> cl_idle t
    \<and> cl_log t = cl_log s @ [(Terminal, Printf (spaced ps @ [NL])),
        (Socket, Spawn (exec_child Exits os (cl_PATH s) (map fst ps)) Stdin Stdout),
        (Socket, Setpgid 0 0), (Socket, Waitpid (forked os))]"
  using cl_recvmg_words [OF assms] .

definition example_cl_os :: os where
  "example_cl_os = \<lparr>self = 100, parent = 1, pgid_of = (\<lambda>p. p), kill_ok = (\<lambda>_. True), tcsetpgrp_ok = True,
     waitpid_nohang = (\<lambda>_. 0), wait_status = (\<lambda>_. 0), forked = 103, HOME = ''/home/u'', cwd_after = (\<lambda>d. d),
     file_exists = (\<lambda>_. False), runnable = (\<lambda>p. p = ''/bin/ls''), output_of = (\<lambda>_. [])\<rparr>"

theorem received_command_runs_witness:
  "\<exists>t. cl_recvmg example_cl_os (''ls -l'' @ [NL, NUL]) (cl_init [''/bin/'']) = Inr t
     \<and> cl_log t = [(Terminal, Printf (''ls -l'' @ [NL])), (Socket, Spawn (Runs ''/bin/ls'' [''ls'', ''-l'']) Stdin Stdout),
         (Socket, Setpgid 0 0), (Socket, Waitpid 103)]"
  using received_command_runs [of "cl_init [''/bin/'']" "[(''ls'', 0), (''-l'', 0)]" example_cl_os]
  by (auto simp: cl_init_def cl_idle_def plain_word_def cl_ordinary_def exec_child_def str_concat_def example_cl_os_def)

section \<open>Pipelines are dropped\<close>

definition same_front :: "cl_state \<Rightarrow> cl_state \<Rightarrow> bool" where
  "same_front s t \<longleftrightarrow> cl_log t = cl_log s \<and> cl_outlet t = cl_outlet s \<and> cl_argVector t = cl_argVector s
     \<and> cl_badRedirect t = cl_badRedirect s \<and> cl_ignorePATH t = cl_ignorePATH s \<and> cl_PATH t = cl_PATH s"

lemma cl_pipe_loop_counts:
  assumes "''<'' \<notin> set (cl_argVector s)" and "length (cl_argVector s) < 20" and "set js \<subseteq> {..<length (cl_argVector s)}"
  shows "\<exists>t. cl_pipe_loop js s = Inr t \<and> same_front s t
    \<and> cl_pipeCount t = cl_pipeCount s + length (filter (\<lambda>i. cl_argVector s ! i = ''|'') js)"
  using assms
proof (induction js arbitrary: s)
  case (Cons i js)
  let ?s1 = "s\<lparr>cl_pipeargCount := cl_pipeargCount s + 1\<rparr>"
  have "i - 2 < length (cl_argVector s)" using Cons.prems(3) by auto
  then have inp: "cl_argVector s ! (i - 2) \<noteq> ''<''" using Cons.prems(1) by (metis nth_mem)
  have "length (cl_command_before i ?s1) \<le> length (cl_argVector s)" by (auto simp: cl_command_before_def)
  then have row: "length (cl_command_before i ?s1) < 20" using Cons.prems(2) by simp
  show ?case
  proof (cases "cl_argVector s ! i = ''|''")
    case True
    let ?s2 = "?s1\<lparr>cl_commands := cl_commands s @ [cl_command_before i ?s1], cl_lastPipe := i, cl_pipeCount := cl_pipeCount s + 1\<rparr>"
    have "cl_pipe_loop (i # js) s = cl_pipe_loop js ?s2"
      using True inp row by (simp add: cl_end_command_def Let_def)
    then show ?thesis using Cons.IH [of ?s2] Cons.prems True by (auto simp: same_front_def)
  next
    case False
    then show ?thesis using Cons.IH [of ?s1] Cons.prems inp by (auto simp: same_front_def)
  qed
qed (simp add: same_front_def)

text \<open>
  A pipeline sent to the client is accepted but not run: \<open>REPL\<close> splits it into commands,
  returns without starting any of them and does not report it.
\<close>

theorem received_pipeline_dropped:
  assumes "cl_idle s" and "\<forall>p \<in> set ps. plain_word (fst p) \<and> nul_free (fst p)" and "cl_ordinary (map fst ps)"
    and "''|'' \<in> set (map fst ps)" and "''<'' \<notin> set (map fst ps)" and "length ps < 20" and "length (spaced ps) + 2 < 5000"
  shows "\<exists>t. cl_recvmg os (spaced ps @ [NL, NUL]) s = Inr t \<and> cl_idle t
    \<and> cl_log t = cl_log s @ [(Terminal, Printf (spaced ps @ [NL]))]"
proof -
  let ?s = "(cl_emit [Printf (spaced ps @ [NL])] s)\<lparr>cl_outlet := Socket\<rparr>"
  let ?t = "cl_start os (map fst ps) ?s"
  let ?ws = "map fst ps"
  have "nul_free (spaced ps)" using assms(2) by (intro nul_free_spaced) auto
  then have c: "cstr (spaced ps @ [NL, NUL]) = spaced ps @ [NL]"
    using cstr_append_NUL [of "spaced ps @ [NL]" "[]"] by simp
  have "filter (\<lambda>a. a = ''|'') ?ws \<noteq> []" using assms(4) unfolding filter_empty_conv by blast
  then have count: "cl_count_pipes ?t = ?t\<lparr>cl_commands := []\<rparr>" by (simp add: cl_count_pipes_def cl_start_def filter_map)
  have ws: "cl_argVector (cl_count_pipes ?t) = ?ws" "cl_pipeCount (cl_count_pipes ?t) = 0" "cl_argVector ?t = ?ws"
    unfolding count by (simp_all add: cl_start_def)
  obtain u where u: "cl_pipe_filter ?t = Inr u" "same_front (cl_count_pipes ?t) u"
      "cl_pipeCount u = length (filter (\<lambda>i. ?ws ! i = ''|'') [0..<length ?ws])"
    using cl_pipe_loop_counts [of "cl_count_pipes ?t" "[0..<length ?ws]"] assms(5,6)
    unfolding ws cl_pipe_filter_def by (auto simp: atLeast0LessThan)
  obtain i where "i < length ?ws" "?ws ! i = ''|''" using assms(4) unfolding in_set_conv_nth by blast
  then have "i \<in> set (filter (\<lambda>i. ?ws ! i = ''|'') [0..<length ?ws])" by simp
  then have "0 < cl_pipeCount u" unfolding u(3) by (simp only: length_pos_if_in_set)
  then have "cl_recvmg os (spaced ps @ [NL, NUL]) s = Inr ((cl_reset u)\<lparr>cl_outlet := cl_outlet s\<rparr>)"
    using REPL_words [of ps os ?s] assms(2,3,7) u(1) by (simp add: cl_recvmg_def c cl_execute_def)
  moreover have "same_front ?s (u\<lparr>cl_argVector := cl_argVector ?s\<rparr>)"
    using u(2) unfolding count by (simp add: same_front_def cl_start_def)
  ultimately show ?thesis using assms(1) by (simp add: same_front_def cl_reset_def cl_idle_def cl_emit_def)
qed

theorem received_pipeline_dropped_witness:
  "\<exists>t. cl_recvmg example_cl_os (''ls | wc'' @ [NL, NUL]) (cl_init [''/bin/'']) = Inr t
     \<and> cl_log t = [(Terminal, Printf (''ls | wc'' @ [NL]))]"
  using received_pipeline_dropped [of "cl_init [''/bin/'']" "[(''ls'', 0), (''|'', 0), (''wc'', 0)]" example_cl_os]
  by (auto simp: cl_init_def cl_idle_def plain_word_def cl_ordinary_def)

section \<open>The client between commands\<close>

datatype cl_event = From_server bytes | Typed_line string

text \<open>Once the user has left, nothing is processed any more.\<close>

fun cl_step :: "string \<Rightarrow> bool \<times> cl_state \<Rightarrow> os \<times> cl_event \<Rightarrow> cerror + bool \<times> cl_state" where
  "cl_step name (False, s) e = Inr (False, s)"
| "cl_step name (True, s) (os, From_server msg) = rbind (cl_recvmg os msg s) (\<lambda>s. Inr (True, s))"
| "cl_step name (True, s) (os, Typed_line msg) = cl_typed os name msg s"

definition cl_ok :: "cl_state \<Rightarrow> bool" where
  "cl_ok s \<longleftrightarrow> cl_lastPipe s = 0 \<and> \<not> cl_noinit s \<and> (cl_ignorePATH s \<longrightarrow> cl_badRedirect s)"

lemma cl_pipe_loop_keeps:
  "cl_pipe_loop js s = Inr t \<Longrightarrow> cl_outlet t = cl_outlet s \<and> cl_ignorePATH t = cl_ignorePATH s
     \<and> cl_PATH t = cl_PATH s \<and> cl_sent t = cl_sent s \<and> (cl_badRedirect s \<longrightarrow> cl_badRedirect t)
     \<and> cl_pipeCount s \<le> cl_pipeCount t"
proof (induction js arbitrary: s)
  case (Cons i js)
  let ?inp = "2 < i \<and> cl_argVector s ! (i - 2) = ''<''"
  let ?s1 = "s\<lparr>cl_pipeargCount := cl_pipeargCount s + 1\<rparr>"
  let ?s2 = "if ?inp then ?s1\<lparr>cl_in_pipe := True\<rparr> else ?s1"
  consider "cl_argVector s ! i \<noteq> ''|''" | "cl_argVector s ! i = ''|''" "?inp \<and> cl_in_pipe s"
    | "cl_argVector s ! i = ''|''" "\<not> (?inp \<and> cl_in_pipe s)" by blast
  then show ?case
  proof cases
    case 1
    then show ?thesis using Cons.IH [of ?s1] Cons.prems by simp
  next
    case 2
    then show ?thesis using Cons.prems by (auto simp: cl_emit_def Let_def)
  next
    case 3
    then have "cl_pipe_loop (i # js) s = rbind (cl_end_command i ?s2) (cl_pipe_loop js)" by (auto simp: Let_def)
    then obtain u where u: "cl_end_command i ?s2 = Inr u" "cl_pipe_loop js u = Inr t"
      using Cons.prems by auto
    then show ?thesis using Cons.IH [of u] by (auto simp: cl_end_command_def split: if_splits)
  qed
qed simp

lemma cl_execute_ok:
  assumes "cl_execute os s = Inr t"
  shows "cl_ok t \<or> (cl_ignorePATH s \<and> \<not> cl_badRedirect s \<and> 0 < cl_pipeCount t)" "cl_outlet t = cl_outlet s" "cl_sent t = cl_sent s"
proof -
  obtain u where u: "cl_pipe_filter s = Inr u"
      "t = (if cl_badRedirect u \<or> 0 < cl_pipeCount u then cl_reset u else cl_run os u)"
    using assms by (auto simp: cl_execute_def split: if_splits)
  have k: "cl_outlet u = cl_outlet s" "cl_ignorePATH u = cl_ignorePATH s" "cl_sent u = cl_sent s"
      "cl_badRedirect s \<longrightarrow> cl_badRedirect u"
    using cl_pipe_loop_keeps [of _ "cl_count_pipes s" u] u(1) by (auto simp: cl_pipe_filter_def cl_count_pipes_def)
  show "cl_ok t \<or> (cl_ignorePATH s \<and> \<not> cl_badRedirect s \<and> 0 < cl_pipeCount t)" "cl_outlet t = cl_outlet s" "cl_sent t = cl_sent s"
    using u(2) k by (auto simp: cl_reset_def cl_run_def cl_ok_def cl_emit_def)
qed

lemma cl_builtin_keeps:
  assumes "cl_builtin os s = Inr (b, t)"
  shows "cl_outlet t = cl_outlet s \<and> cl_sent t = cl_sent s \<and> cl_pipeCount t = cl_pipeCount s \<and> cl_lastPipe t = cl_lastPipe s
    \<and> cl_noinit t = cl_noinit s \<and> cl_badRedirect t = cl_badRedirect s
    \<and> (cl_ignorePATH t = cl_ignorePATH s \<or> (\<not> b \<and> (\<exists>a. cl_argVector t = [CHR ''/'' # a])))"
  using assms
  by (auto simp: cl_builtin_def cl_emit_def split: list.splits if_splits)
     (metis append_Cons append_Nil append_take_drop_id list.sel(3))+

lemma cl_dispatch_ok:
  assumes "cl_dispatch os s = Inr t" and "cl_ok s" and "cl_pipeCount s = 0"
  shows "cl_ok t \<and> cl_outlet t = cl_outlet s \<and> cl_sent t = cl_sent s"
proof -
  obtain b u where u: "cl_builtin os s = Inr (b, u)" using assms(1) by (auto simp: cl_dispatch_def)
  note k = cl_builtin_keeps [OF u]
  let ?u = "u\<lparr>cl_isBackground := True, cl_bgcount := int (length (cl_argVector u)) - 1, cl_argVector := butlast (cl_argVector u)\<rparr>"
  show ?thesis
  proof (cases "cl_ignorePATH u = cl_ignorePATH s")
    case True
    then show ?thesis
      using assms(1,2) u k cl_execute_ok [of os u t] cl_execute_ok [of os ?u t]
      by (auto simp: cl_dispatch_def cl_ok_def split: if_splits)
  next
    case False
    then obtain a where a: "cl_argVector u = [CHR ''/'' # a]" and b: "\<not> b" using k by blast
    have t: "cl_execute os u = Inr t" using assms(1) u a b by (simp add: cl_dispatch_def)
    have "cl_pipeCount t = 0" if bad: "\<not> cl_badRedirect u"
    proof -
      have "''|'' \<notin> set (cl_argVector u)" "cl_pipeCount u = 0" using a k assms(3) by simp_all
      then obtain n where "cl_execute os u = Inr (cl_run os (u\<lparr>cl_noinit := True, cl_pipeargCount := n\<rparr>))"
        using cl_execute_no_pipes bad by blast
      then show ?thesis using t k assms(3) by (simp add: cl_run_def cl_emit_def)
    qed
    then show ?thesis using cl_execute_ok [OF t] k by auto
  qed
qed

lemma REPL_ok: "REPL os buffer s = Inr t \<Longrightarrow> cl_ok s \<Longrightarrow> cl_ok t \<and> cl_outlet t = cl_outlet s \<and> cl_sent t = cl_sent s"
  by (auto simp: REPL_def Let_def split: if_splits dest!: cl_dispatch_ok) (auto simp: cl_ok_def)

definition sent_lines :: "string \<Rightarrow> (os \<times> cl_event) list \<Rightarrow> string list" where
  "sent_lines name es = map (\<lambda>m. name @ CHR '':'' # m) [m. (os, Typed_line m) \<leftarrow> es]"

lemma cl_step_ok:
  assumes "cl_step name (True, s) (os, e) = Inr (b, t)" and "cl_ok s" and "cl_outlet s = Terminal"
  shows "cl_ok t \<and> cl_outlet t = Terminal
    \<and> cl_sent t = cl_sent s @ (if b then sent_lines name [(os, e)] else [])"
  using assms
  by (cases e) (auto simp: cl_recvmg_def cl_typed_def sent_lines_def cl_emit_def Let_def cl_ok_def
      dest!: REPL_ok split: if_splits)

lemma cl_stopped: "rfold (cl_step name) (False, s) es = Inr (False, s)"
  by (induction es) auto

lemma cl_events_ok:
  "rfold (cl_step name) (True, s) es = Inr (b, t) \<Longrightarrow> cl_ok s \<Longrightarrow> cl_outlet s = Terminal \<Longrightarrow>
   cl_ok t \<and> cl_outlet t = Terminal \<and> (b \<longrightarrow> cl_sent t = cl_sent s @ sent_lines name es)"
proof (induction es arbitrary: s)
  case (Cons e es)
  obtain os ev where e: "e = (os, ev)" by (cases e)
  obtain b1 s1 where s1: "cl_step name (True, s) (os, ev) = Inr (b1, s1)" "rfold (cl_step name) (b1, s1) es = Inr (b, t)"
    using Cons.prems(1) e by auto
  note k = cl_step_ok [OF s1(1) Cons.prems(2,3)]
  show ?case
  proof (cases b1)
    case True
    then show ?thesis using Cons.IH [of s1] s1(2) k by (simp add: e sent_lines_def)
  next
    case False
    then show ?thesis using s1(2) k cl_stopped by simp
  qed
qed (simp add: sent_lines_def)

text \<open>
  Between commands, whatever was typed or received: the output is the terminal again, the
  pipe state is reset, the search path is ignored only after a rejected pipeline, and as long
  as the client runs exactly the typed lines were sent, each behind the name of the client.
\<close>

theorem client_between_commands:
  assumes "rfold (cl_step name) (True, cl_init path) es = Inr (b, s)"
  shows "cl_ok s \<and> cl_outlet s = Terminal \<and> (b \<longrightarrow> cl_sent s = sent_lines name es)"
  using cl_events_ok [OF assms] by (simp add: cl_init_def cl_ok_def)

theorem client_between_commands_witness:
  "\<exists>s. rfold (cl_step ''1'') (True, cl_init [''/bin/'']) [(example_cl_os, Typed_line (''n2.ls'' @ [NL]))] = Inr (True, s)
     \<and> cl_sent s = [''1:n2.ls'' @ [NL]]"
proof -
  have "\<exists>s. rfold (cl_step ''1'') (True, cl_init [''/bin/'']) [(example_cl_os, Typed_line (''n2.ls'' @ [NL]))] = Inr (True, s)"
    by (simp add: cl_typed_def Let_def)
  then show ?thesis
    using client_between_commands [of "''1''" "[''/bin/'']" "[(example_cl_os, Typed_line (''n2.ls'' @ [NL]))]" True]
    by (auto simp: sent_lines_def)
qed

section \<open>What a typed line does\<close>

lemma cl_typed_addressed:
  assumes "length name + length cmd + 4 < 500" and "node = [CHR ''n'', c]"
  shows "cl_typed os name (node @ CHR ''.'' # cmd) s = Inr (True, s\<lparr>cl_sent := cl_sent s @ [name @ CHR '':'' # node @ CHR ''.'' # cmd]\<rparr>)"
  using assms by (simp add: cl_typed_def Let_def)

end
