(* ===== verification/Client_Threads.thy ===== *)
theory Client_Threads
  imports Cluster_Client Cluster_Server
begin

text \<open>
  The two threads of \<open>ClusterShell/clustershell_client.c\<close>. The thread that reads the keyboard and
  the thread that reads the socket use the same global buffer \<open>msg\<close>, and the second redirects the
  standard output of the whole process while it runs a command. A step is what a thread does
  between two accesses to the buffer; one call of \<open>REPL\<close> is taken as a whole.
\<close>

section \<open>State and steps\<close>

datatype typing = At_fgets | Has_line | Has_sent string | Left_loop

datatype receiving = At_recv | Has_message outlet

record client_sys =
  shell_of :: cl_state
  msg_buffer :: bytes
  typing_pc :: typing
  receiving_pc :: receiving

datatype client_event = Fgets string | Send_line | Run_line os | Recv bytes | Run_message os

definition init_client_sys :: "string list \<Rightarrow> client_sys" where
  "init_client_sys path = \<lparr>shell_of = cl_init path, msg_buffer = replicate 5000 NUL, typing_pc = At_fgets, receiving_pc = At_recv\<rparr>"

text \<open>\<open>fgets\<close> stores at most 499 characters and a NUL.\<close>

definition type_line :: "string \<Rightarrow> client_sys \<Rightarrow> (cerror + client_sys) option" where
  "type_line l s =
     (if typing_pc s = At_fgets \<and> l \<noteq> [] \<and> length l \<le> 499
      then Some (Inr (s\<lparr>msg_buffer := received l (msg_buffer s), typing_pc := Has_line\<rparr>)) else None)"

text \<open>The line goes behind the name of the client into a buffer of 500 bytes and is written to the socket.\<close>

definition send_line :: "string \<Rightarrow> client_sys \<Rightarrow> (cerror + client_sys) option" where
  "send_line name s =
     (if typing_pc s \<noteq> Has_line then None
      else let m = cstr (msg_buffer s) in
        if take 4 m = ''exit''
        then Some (Inr (s\<lparr>shell_of := cl_emit [Printf (''Client exited'' @ [NL])] (shell_of s), typing_pc := Left_loop\<rparr>))
        else if 500 \<le> length name + 1 + length m then Some (Inl Overflow)
        else Some (Inr (s\<lparr>shell_of := (shell_of s)\<lparr>cl_sent := cl_sent (shell_of s) @ [name @ CHR '':'' # m]\<rparr>,
                          typing_pc := Has_sent (name @ CHR '':'' # m)\<rparr>)))"

text \<open>Whether the line is for a node is read from the shared buffer, the line to run from the other.\<close>

definition run_line :: "os \<Rightarrow> string \<Rightarrow> client_sys \<Rightarrow> (cerror + client_sys) option" where
  "run_line os name s = (case typing_pc s of
       Has_sent line \<Rightarrow>
         let b = msg_buffer s; s' = s\<lparr>typing_pc := At_fgets\<rparr> in
         if b ! 0 \<noteq> NUL \<and> b ! 1 \<noteq> NUL \<and> b ! 0 = CHR ''n'' \<and> b ! 2 = CHR ''.'' then Some (Inr s')
         else if take 5 (cstr b) = ''nodes'' then Some (Inr s')
         else Some (rbind (REPL os (drop (length name + 1) line) (cl_emit [Prompt] (shell_of s))) (\<lambda>t. Inr (s'\<lparr>shell_of := t\<rparr>)))
     | _ \<Rightarrow> None)"

definition receive_message :: "bytes \<Rightarrow> client_sys \<Rightarrow> (cerror + client_sys) option" where
  "receive_message data s =
     (if receiving_pc s = At_recv \<and> data \<noteq> [] \<and> length data \<le> 5000
      then Some (if length data = 5000 then Inl Overflow
                 else let b = received data (msg_buffer s); t = cl_emit [Printf (cstr b)] (shell_of s) in
                   Inr (s\<lparr>msg_buffer := b, shell_of := t\<lparr>cl_outlet := Socket\<rparr>, receiving_pc := Has_message (cl_outlet t)\<rparr>))
      else None)"

definition run_message :: "os \<Rightarrow> client_sys \<Rightarrow> (cerror + client_sys) option" where
  "run_message os s = (case receiving_pc s of
       Has_message saved \<Rightarrow>
         Some (rbind (REPL os (cstr (msg_buffer s)) (shell_of s)) (\<lambda>t.
           Inr (s\<lparr>shell_of := t\<lparr>cl_outlet := saved\<rparr>, msg_buffer := replicate 5000 NUL, receiving_pc := At_recv\<rparr>)))
     | _ \<Rightarrow> None)"

fun client_act :: "string \<Rightarrow> client_event \<Rightarrow> client_sys \<Rightarrow> (cerror + client_sys) option" where
  "client_act name (Fgets l) s = type_line l s"
| "client_act name Send_line s = send_line name s"
| "client_act name (Run_line os) s = run_line os name s"
| "client_act name (Recv data) s = receive_message data s"
| "client_act name (Run_message os) s = run_message os s"

text \<open>A step that cannot happen is not an error of the program: None.\<close>

fun client_run :: "string \<Rightarrow> client_event list \<Rightarrow> client_sys \<Rightarrow> (cerror + client_sys) option" where
  "client_run name [] s = Some (Inr s)"
| "client_run name (e # es) s = (case client_act name e s of
       Some (Inr t) \<Rightarrow> client_run name es t
     | r \<Rightarrow> r)"

section \<open>Threads that do not disturb each other\<close>

lemma received_cstr: "nul_free l \<Longrightarrow> cstr (received l old) = l"
  using received_text [of l 0 old] by simp

lemma received_nth: "i < length l \<Longrightarrow> received l old ! i = l ! i" "received l old ! length l = NUL"
  by (simp_all add: received_def nth_append)

lemma for_a_node:
  assumes "nul_free l" and "l \<noteq> []"
  shows "(received l old ! 0 \<noteq> NUL \<and> received l old ! 1 \<noteq> NUL \<and> received l old ! 0 = CHR ''n'' \<and> received l old ! 2 = CHR ''.'')
    \<longleftrightarrow> 2 \<le> length l \<and> hd l = CHR ''n'' \<and> take 1 (drop 2 l) = ''.''"
proof -
  consider c where "l = [c]" | c d where "l = [c, d]" | c d e r where "l = c # d # e # r"
    using assms(2) by (cases l; cases "tl l"; cases "tl (tl l)") auto
  then show ?thesis using assms(1) by cases (auto simp: received_def)
qed

text \<open>
  When the receiving thread does nothing between the steps of the typing thread, a typed line
  is handled as the description of one thread alone says: sent, and run unless it names a node,
  with the same errors. The same holds for a received command while nothing is typed.
\<close>

theorem threads_undisturbed:
  assumes "nul_free l" and "l \<noteq> []" and "length l \<le> 499" and "typing_pc s = At_fgets"
    and "take 4 l \<noteq> ''exit''" and "receiving_pc s = At_recv" and "data \<noteq> []" and "length data < 5000"
  shows "(case client_run name [Fgets l, Send_line, Run_line os] s of
            Some (Inl e) \<Rightarrow> cl_typed os name l (shell_of s) = Inl e
          | Some (Inr t) \<Rightarrow> cl_typed os name l (shell_of s) = Inr (True, shell_of t) \<and> typing_pc t = At_fgets
          | None \<Rightarrow> False)
    \<and> (case client_run name [Recv data, Run_message os] s of
            Some (Inl e) \<Rightarrow> cl_recvmg os data (shell_of s) = Inl e
          | Some (Inr t) \<Rightarrow> cl_recvmg os data (shell_of s) = Inr (shell_of t) \<and> receiving_pc t = At_recv
          | None \<Rightarrow> False)"
proof
  let ?s = "(shell_of s)\<lparr>cl_sent := cl_sent (shell_of s) @ [name @ CHR '':'' # l]\<rparr>"
  show "case client_run name [Fgets l, Send_line, Run_line os] s of
            Some (Inl e) \<Rightarrow> cl_typed os name l (shell_of s) = Inl e
          | Some (Inr t) \<Rightarrow> cl_typed os name l (shell_of s) = Inr (True, shell_of t) \<and> typing_pc t = At_fgets
          | None \<Rightarrow> False"
    using assms(1-5) received_cstr [OF assms(1), of "msg_buffer s"] for_a_node [OF assms(1,2), of "msg_buffer s"]
    by (cases "REPL os l (cl_emit [Prompt] ?s)")
       (simp_all add: type_line_def send_line_def run_line_def cl_typed_def Let_def)
  show "case client_run name [Recv data, Run_message os] s of
            Some (Inl e) \<Rightarrow> cl_recvmg os data (shell_of s) = Inl e
          | Some (Inr t) \<Rightarrow> cl_recvmg os data (shell_of s) = Inr (shell_of t) \<and> receiving_pc t = At_recv
          | None \<Rightarrow> False"
  proof -
    have c: "cstr (received data (msg_buffer s)) = cstr data" by (simp add: received_def)
    show ?thesis using assms(6-8)
      by (cases "REPL os (cstr data) ((cl_emit [Printf (cstr data)] (shell_of s))\<lparr>cl_outlet := Socket\<rparr>)")
         (simp_all add: receive_message_def run_message_def cl_recvmg_def Let_def c, simp_all add: cl_emit_def)
  qed
qed

theorem threads_undisturbed_witness:
  "case client_run ''1'' [Fgets (''ls'' @ [NL]), Send_line, Run_line example_cl_os] (init_client_sys [''/bin/'']) of
     Some (Inr t) \<Rightarrow> cl_typed example_cl_os ''1'' (''ls'' @ [NL]) (cl_init [''/bin/'']) = Inr (True, shell_of t)
   | Some (Inl e) \<Rightarrow> cl_typed example_cl_os ''1'' (''ls'' @ [NL]) (cl_init [''/bin/'']) = Inl e
   | None \<Rightarrow> False"
  using threads_undisturbed [of "''ls'' @ [NL]" "init_client_sys [''/bin/'']" "''ls'' @ [NL, NUL]" example_cl_os "''1''"]
  by (simp add: init_client_sys_def split: option.splits sum.splits)

section \<open>Threads that disturb each other\<close>

text \<open>
  A message that arrives after a line was typed and before the typing thread has copied it
  takes the place of the line: the client sends the text it received, behind its own name, and
  the line is lost. When the text is longer than a line may be, the copy overflows its buffer.
\<close>

theorem typed_line_replaced:
  assumes "typing_pc s = At_fgets" and "receiving_pc s = At_recv" and "l \<noteq> []" and "length l \<le> 499"
    and "nul_free d" and "d \<noteq> []" and "length d < 4999" and "take 4 d \<noteq> ''exit''"
  shows "case client_run name [Fgets l, Recv (d @ [NUL]), Send_line] s of
      Some (Inl e) \<Rightarrow> e = Overflow \<and> 500 \<le> length name + 1 + length d
    | Some (Inr t) \<Rightarrow> length name + 1 + length d < 500 \<and> cl_sent (shell_of t) = cl_sent (shell_of s) @ [name @ CHR '':'' # d]
    | None \<Rightarrow> False"
proof -
  have "cstr (received (d @ [NUL]) (received l (msg_buffer s))) = d" using assms(5) by (simp add: received_def)
  then show ?thesis using assms(1-4,6-8)
    by (simp add: type_line_def receive_message_def send_line_def Let_def cl_emit_def)
qed

theorem typed_line_replaced_witness:
  "case client_run ''1'' [Fgets (''n2.ls'' @ [NL]), Recv (''rm f'' @ [NUL]), Send_line] (init_client_sys [''/bin/'']) of
     Some (Inr t) \<Rightarrow> cl_sent (shell_of t) = [''1:rm f''] | _ \<Rightarrow> False"
  using typed_line_replaced [of "init_client_sys [''/bin/'']" "''n2.ls'' @ [NL]" "''rm f''" "''1''"]
  by (simp add: init_client_sys_def cl_init_def split: option.splits sum.splits)

section \<open>Where output goes\<close>

definition client_ok :: "client_sys \<Rightarrow> bool" where
  "client_ok s \<longleftrightarrow> cl_ok (shell_of s) \<and> (case receiving_pc s of
       At_recv \<Rightarrow> cl_outlet (shell_of s) = Terminal
     | Has_message saved \<Rightarrow> saved = Terminal \<and> cl_outlet (shell_of s) = Socket)"

lemma cl_ok_emit [simp]: "cl_ok (cl_emit es s) = cl_ok s" "cl_outlet (cl_emit es s) = cl_outlet s"
  by (simp_all add: cl_ok_def cl_emit_def)

lemma cl_ok_updates [simp]:
  "cl_ok (s\<lparr>cl_sent := x\<rparr>) = cl_ok s" "cl_ok (s\<lparr>cl_outlet := y\<rparr>) = cl_ok s"
  by (simp_all add: cl_ok_def)

lemma client_ok_act:
  assumes "client_ok s" and "client_act name e s = Some (Inr t)"
  shows "client_ok t"
proof (cases e)
  case (Fgets l)
  then show ?thesis using assms by (auto simp: type_line_def client_ok_def split: if_splits receiving.splits)
next
  case Send_line
  then show ?thesis using assms by (auto simp: send_line_def client_ok_def Let_def split: if_splits receiving.splits)
next
  case (Run_line os)
  then show ?thesis using assms
    by (auto simp: run_line_def client_ok_def Let_def dest!: REPL_ok split: typing.splits if_splits receiving.splits)
next
  case (Recv data)
  then show ?thesis using assms by (auto simp: receive_message_def client_ok_def Let_def split: if_splits receiving.splits)
next
  case (Run_message os)
  then show ?thesis using assms
    by (auto simp: run_message_def client_ok_def dest!: REPL_ok split: receiving.splits)
qed

text \<open>
  C19. In every interleaving the standard output is the socket exactly while a received command is
  being run, so what a command typed meanwhile prints goes to the server; and the state of
  the command loop is reset between commands.
\<close>

theorem output_follows_receiver:
  assumes "client_run name es (init_client_sys path) = Some (Inr t)"
  shows "cl_ok (shell_of t) \<and> cl_outlet (shell_of t) = (if receiving_pc t = At_recv then Terminal else Socket)"
proof -
  have "client_ok s \<Longrightarrow> client_run name es s = Some (Inr t) \<Longrightarrow> client_ok t" for s
  proof (induction es arbitrary: s)
    case (Cons e es)
    then show ?case using client_ok_act [of s name e] by (auto split: option.splits sum.splits)
  qed simp
  moreover have "client_ok (init_client_sys path)" by (simp add: client_ok_def init_client_sys_def cl_init_def cl_ok_def)
  ultimately show ?thesis using assms by (force simp: client_ok_def split: receiving.splits)
qed

theorem output_follows_receiver_witness:
  "\<exists>t. client_run ''1'' [Fgets (''n2.ls'' @ [NL]), Recv (''ls'' @ [NUL])] (init_client_sys [''/bin/'']) = Some (Inr t)
     \<and> cl_outlet (shell_of t) = Socket"
proof -
  have "\<exists>t. client_run ''1'' [Fgets (''n2.ls'' @ [NL]), Recv (''ls'' @ [NUL])] (init_client_sys [''/bin/'']) = Some (Inr t)
      \<and> receiving_pc t \<noteq> At_recv"
    by (simp add: type_line_def receive_message_def init_client_sys_def Let_def)
  then show ?thesis using output_follows_receiver by fastforce
qed

end
