(* ===== verification/Cluster_Chat.thy ===== *)
theory Cluster_Chat
  imports Cluster_Client Client_Registry
begin

text \<open>
  The earlier version of the cluster shell in \<open>ClusterShell/chat\<close>: the list of clients of
  \<open>server.c\<close>, from which the handler of SIGCHLD removes the children that have ended, and the
  loop of \<open>client.c\<close>, which runs the lines typed and sends them. The server accepts no
  connection: its main loop is empty. The splitting of a line, the search for a program and
  the state of the client are those of the later client, whose text is the same; the search
  path, which this client reads again for every line, is part of the state.
\<close>

section \<open>The server\<close>

record chat_node =
  ch_fd :: int
  ch_pid :: int
  ch_addr :: string

definition ch_addClient :: "chat_node list \<Rightarrow> int \<Rightarrow> int \<Rightarrow> string \<Rightarrow> chat_node list" where
  "ch_addClient head fd pid addr =
     (if head = [] then [\<lparr>ch_fd = fd, ch_pid = pid, ch_addr = addr\<rparr>]
      else \<lparr>ch_fd = fd, ch_pid = pid, ch_addr = addr\<rparr> # head)"

definition ch_removeClient :: "chat_node list \<Rightarrow> int \<Rightarrow> chat_node list" where
  "ch_removeClient head removepid = unlink ch_pid head removepid"

definition ch_send_to_all :: "chat_node list \<Rightarrow> bytes \<Rightarrow> nat \<Rightarrow> (int \<times> bytes) list" where
  "ch_send_to_all head msg msgsize = map (\<lambda>c. (ch_fd c, take msgsize msg)) head"

text \<open>The handler of SIGCHLD: the pids are what \<open>waitpid\<close> returns until there is no more.\<close>

definition ch_sigchld :: "int list \<Rightarrow> chat_node list \<Rightarrow> chat_node list" where
  "ch_sigchld pids head = foldl ch_removeClient head (takeWhile (\<lambda>p. 0 < p) pids)"

interpretation chat_clients: client_registry ch_pid
  "\<lambda>ns n. ch_addClient ns (ch_fd n) (ch_pid n) (ch_addr n)" ch_removeClient
proof -
  have enter: "(\<lambda>ns n. ch_addClient ns (ch_fd n) (ch_pid n) (ch_addr n)) = (\<lambda>ns n. n # ns)"
    by (simp add: fun_eq_iff ch_addClient_def)
  have leave: "ch_removeClient = unlink ch_pid" by (simp add: fun_eq_iff ch_removeClient_def)
  show "client_registry ch_pid (\<lambda>ns n. ch_addClient ns (ch_fd n) (ch_pid n) (ch_addr n)) ch_removeClient"
    unfolding enter leave by (rule linked_registry)
qed

lemma removed_all:
  "distinct (map ch_pid head) \<Longrightarrow> set (foldl ch_removeClient head ps) = {n \<in> set head. ch_pid n \<notin> set ps}
     \<and> distinct (map ch_pid (foldl ch_removeClient head ps))"
proof (induction ps arbitrary: head)
  case (Cons p ps)
  then show ?case using chat_clients.leave_set [of head p] chat_clients.leave_distinct [of head p] by auto
qed simp

text \<open>
  After any connections and departures, the children that have ended are removed from the
  list and nobody else is, and a message for all goes to the sockets of the others.
\<close>

theorem ended_children_removed:
  assumes "fresh_joins ch_pid cs {}" and "\<forall>p \<in> set pids. 0 < p"
  shows "set (map fst (ch_send_to_all (ch_sigchld (pids @ 0 # ps)
        (changed (\<lambda>ns n. ch_addClient ns (ch_fd n) (ch_pid n) (ch_addr n)) ch_removeClient cs [])) msg k))
    = ch_fd ` {n \<in> members ch_pid cs {}. ch_pid n \<notin> set pids}"
proof -
  let ?head = "changed (\<lambda>ns n. ch_addClient ns (ch_fd n) (ch_pid n) (ch_addr n)) ch_removeClient cs []"
  have r: "set ?head = members ch_pid cs {}" "distinct (map ch_pid ?head)"
    using chat_clients.registry_members [of "[]" cs] assms(1) by simp_all
  have "takeWhile (\<lambda>p. 0 < p) (pids @ 0 # ps) = pids" using assms(2) by (induction pids) auto
  then have "set (ch_sigchld (pids @ 0 # ps) ?head) = {n \<in> members ch_pid cs {}. ch_pid n \<notin> set pids}"
    using removed_all [OF r(2), of pids] r(1) by (simp add: ch_sigchld_def)
  then show ?thesis by (simp add: ch_send_to_all_def image_image [symmetric] del: image_image)
qed

section \<open>The client\<close>

definition MAX_CHAT :: nat where "MAX_CHAT = 300"

text \<open>What \<open>read\<close> and \<open>recv\<close> put at the start of a buffer.\<close>

definition fill :: "bytes \<Rightarrow> bytes \<Rightarrow> bytes" where
  "fill buff m = take (length buff) m @ drop (length m) buff"

text \<open>
  Typing a line, each character with what \<open>recv\<close> finds at that moment. The buffer of received
  text is not cleared, so it is shown again at every character. At the end of the input
  \<open>getchar\<close> returns EOF, which is not a newline, until the buffer is left.
\<close>

fun ch_typing :: "(char \<times> bytes option) list \<Rightarrow> bytes \<Rightarrow> string \<Rightarrow> cerror + string \<times> event list" where
  "ch_typing [] buff2 line = Inl Overflow"
| "ch_typing ((c, r) # keys) buff2 line =
     (if MAX_CHAT \<le> length line then Inl Overflow
      else if c = NL then Inr (line @ [c], [])
      else let buff2 = (case r of None \<Rightarrow> buff2 | Some m \<Rightarrow> fill buff2 m) in
        if NUL \<notin> set buff2 then Inl Overflow
        else rbind (ch_typing keys buff2 (line @ [c])) (\<lambda>(line, es).
          Inr (line, (if cstr buff2 = [] then [] else [Printf (NL # ''From server'' @ cstr buff2 @ [NL])]) @ es)))"

definition ch_REPL :: "os \<Rightarrow> string \<Rightarrow> cl_state \<Rightarrow> cerror + cl_state" where
  "ch_REPL os buffer s =
     (let s = cl_emit [Prompt] (s\<lparr>cl_directory := replaceSubstring (HOME os) (cwd_after os ''.'') (replicate 300 NUL),
                cl_in_pipe := False, cl_pipeCount := 0, cl_pipeargCount := 0, cl_bgcount := -1\<rparr>) in
      if strip_newline buffer = ''exit'' then Inr s
      else rbind (cl_initArgs buffer) (\<lambda>args.
        let s = (if last args = ''&''
                 then s\<lparr>cl_isBackground := True, cl_bgcount := int (length args) - 1, cl_argVector := butlast args\<rparr>
                 else s\<lparr>cl_argVector := args\<rparr>)
        in Inr (cl_emit [Tcsetpgrp 0 (self os), Tcsetpgrp 1 (self os)] (cl_run os s))))"

text \<open>A line for another node starts with the name of one of the three.\<close>

definition for_node :: "string \<Rightarrow> bool" where
  "for_node line \<longleftrightarrow> take 1 line = ''n'' \<and> take 1 (drop 1 line) \<in> {''1'', ''2'', ''3''} \<and> take 1 (drop 2 line) = ''.''"

text \<open>
  One iteration of \<open>chat_with_server\<close>: the message of the server, the line typed, and what is
  done with it. The buffer holds the line and another newline. The flag says whether the
  client goes on.
\<close>

definition ch_round :: "os \<Rightarrow> bytes \<Rightarrow> (char \<times> bytes option) list \<Rightarrow> cl_state \<Rightarrow> cerror + bool \<times> cl_state" where
  "ch_round os msg keys s =
     (let buff = fill (replicate MAX_CHAT NUL) msg in
      if NUL \<notin> set buff then Inl Overflow
      else rbind (ch_typing keys (replicate MAX_CHAT NUL) []) (\<lambda>(line, es).
        if MAX_CHAT < length line + 2 then Inl Overflow
        else let s = cl_emit ([Printf ([NL, NL] @ ''From Server : '' @ cstr buff @ [NL, NL]), Prompt] @ es) s;
                 buff = line @ NL # replicate (MAX_CHAT - length line - 1) NUL;
                 goes_on = (take 4 buff \<noteq> ''exit'')
          in rbind (if for_node buff then Inr s else ch_REPL os (cstr buff) s) (\<lambda>s.
               Inr (goes_on, (if goes_on then s else cl_emit [Printf (''Client has exited'' @ [NL])] s)
                 \<lparr>cl_sent := cl_sent s @ [buff]\<rparr>))))"

section \<open>A typed line\<close>

lemma ch_typing_quiet:
  assumes "NL \<notin> set l" and "length line + length l < MAX_CHAT"
  shows "ch_typing (map (\<lambda>c. (c, None)) (l @ [NL]) @ rest) (replicate MAX_CHAT NUL) line = Inr (line @ l @ [NL], [])"
proof -
  have "cstr (replicate MAX_CHAT NUL) = []" by (simp add: cstr_def MAX_CHAT_def)
  then show ?thesis using assms by (induction l arbitrary: line) (auto simp: Let_def MAX_CHAT_def)
qed

lemma fill_message: "length m < n \<Longrightarrow> NUL \<in> set (fill (replicate n NUL) m) \<and> cstr (fill (replicate n NUL) m) = cstr m"
proof -
  assume l: "length m < n"
  then have "drop (length m) (replicate n NUL) = NUL # replicate (n - length m - 1) NUL"
    by (cases "n - length m") auto
  then show ?thesis using l by (simp add: fill_def)
qed

lemma count_words_newlines: "count_words (l @ [NL, NL]) = count_words (l @ [NL])"
  by (induction l rule: count_words.induct) auto

lemma initArgs_newlines: "initArgs d (l @ [NL, NL]) = initArgs d (l @ [NL])"
  by (auto simp: initArgs_def getArgumentLength_def count_words_newlines strip_newline_def takeWhile_append)

lemma ch_REPL_words:
  assumes "\<forall>p \<in> set ps. plain_word (fst p)" and "ps \<noteq> []" and "fst (hd ps) \<noteq> ''exit''" and "fst (last ps) \<noteq> ''&''"
    and "\<not> cl_ignorePATH s" and "cl_PATH s \<noteq> []" and "0 < forked os"
  obtains t where "ch_REPL os (spaced ps @ [NL, NL]) s = Inr t" "cl_sent t = cl_sent s" "cl_outlet t = cl_outlet s"
    "cl_log t = cl_log s @ map (Pair (cl_outlet s)) [Prompt,
        Spawn (exec_child Exits os (cl_PATH s) (map fst ps)) Stdin Stdout, Setpgid 0 0, Waitpid (forked os),
        Tcsetpgrp 0 (self os), Tcsetpgrp 1 (self os)]"
proof -
  have "spaced ps \<noteq> ''exit''" using spaced_word [of ps "''exit''"] assms(2,3) by auto
  moreover have "strip_newline (spaced ps @ [NL, NL]) = spaced ps"
    using NL_spaced [OF assms(1)] strip_newline_line [of "spaced ps" "[NL]"] by simp
  moreover have "cl_initArgs (spaced ps @ [NL, NL]) = Inr (map fst ps)"
    using initArgs_words [OF assms(1,2), of True] by (simp add: cl_initArgs_def initArgs_newlines)
  ultimately show thesis
    using that assms(2,4-7) by (simp add: ch_REPL_def Let_def last_map cl_run_def cl_emit_def cl_execute_child_def)
qed

text \<open>
  A line typed while nothing arrives is sent with a second newline and padded to the size of
  the buffer. When it names no other node it is run too, as one child with exactly its words,
  provided that \<open>fork\<close> succeeds; when it does, it is only sent.
\<close>

theorem chat_line_run_and_sent:
  assumes "\<forall>p \<in> set ps. plain_word (fst p) \<and> nul_free (fst p)" and "ps \<noteq> []" and "length (spaced ps) \<le> 297"
    and "take 4 (spaced ps) \<noteq> ''exit''" and "fst (last ps) \<noteq> ''&''"
    and "cl_outlet s = Terminal" and "\<not> cl_ignorePATH s" and "cl_PATH s \<noteq> []" and "length msg < MAX_CHAT"
    and "0 < forked os"
  shows "\<exists>t buff. ch_round os msg (map (\<lambda>c. (c, None)) (spaced ps @ [NL])) s = Inr (True, t)
    \<and> cl_sent t = cl_sent s @ [buff] \<and> length buff = MAX_CHAT \<and> cstr buff = spaced ps @ [NL, NL]
    \<and> cl_log t = cl_log s @ map (Pair Terminal)
        ([Printf ([NL, NL] @ ''From Server : '' @ cstr msg @ [NL, NL]), Prompt]
         @ (if for_node buff then []
            else [Prompt, Spawn (exec_child Exits os (cl_PATH s) (map fst ps)) Stdin Stdout, Setpgid 0 0,
                  Waitpid (forked os), Tcsetpgrp 0 (self os), Tcsetpgrp 1 (self os)]))"
proof -
  let ?l = "spaced ps" and ?buff = "spaced ps @ [NL, NL] @ replicate (298 - length (spaced ps)) NUL"
  let ?s = "cl_emit [Printf ([NL, NL] @ ''From Server : '' @ cstr msg @ [NL, NL]), Prompt] s"
  have pw: "\<forall>p \<in> set ps. plain_word (fst p)" using assms(1) by blast
  have l: "NL \<notin> set ?l" "nul_free ?l" using NL_spaced [OF pw] nul_free_spaced [of ps] assms(1) by auto
  have typing: "ch_typing (map (\<lambda>c. (c, None)) (?l @ [NL])) (replicate MAX_CHAT NUL) [] = Inr (?l @ [NL], [])"
    using ch_typing_quiet [OF l(1), of "[]" "[]"] assms(3) by (simp add: MAX_CHAT_def)
  have "replicate (298 - length ?l) NUL = NUL # replicate (297 - length ?l) NUL" using assms(3)
    by (cases "298 - length ?l") (auto simp: Suc_diff_le)
  then have c: "cstr ?buff = ?l @ [NL, NL]" using l(2) cstr_append_NUL [of "?l @ [NL, NL]"] by simp
  have hd: "fst (hd ps) \<noteq> ''exit''"
  proof
    assume e: "fst (hd ps) = ''exit''"
    then have "take 4 ?l = ''exit''" using assms(2) by (cases ps rule: spaced.cases) auto
    then show False using assms(4) by contradiction
  qed
  have no_exit: "take 4 ?buff \<noteq> ''exit''"
  proof
    assume e: "take 4 ?buff = ''exit''"
    show False
    proof (cases "4 \<le> length ?l")
      case False
      then have "NL \<in> set (take 4 ?buff)" by (cases "4 - length ?l") auto
      then show False unfolding e by simp
    qed (use e assms(4) in simp)
  qed
  obtain t where t: "ch_REPL os (?l @ [NL, NL]) ?s = Inr t" "cl_sent t = cl_sent ?s" "cl_outlet t = cl_outlet ?s"
      "cl_log t = cl_log ?s @ map (Pair (cl_outlet ?s)) [Prompt,
        Spawn (exec_child Exits os (cl_PATH ?s) (map fst ps)) Stdin Stdout, Setpgid 0 0, Waitpid (forked os),
        Tcsetpgrp 0 (self os), Tcsetpgrp 1 (self os)]"
    using ch_REPL_words [OF pw assms(2) hd assms(5), of ?s os] assms(7,8,10) by (auto simp: cl_emit_def)
  have "ch_round os msg (map (\<lambda>c. (c, None)) (?l @ [NL])) s
      = rbind (if for_node ?buff then Inr ?s else ch_REPL os (cstr ?buff) ?s) (\<lambda>s. Inr (True, s\<lparr>cl_sent := cl_sent s @ [?buff]\<rparr>))"
    using fill_message [OF assms(9)] typing no_exit assms(3) by (simp add: ch_round_def Let_def MAX_CHAT_def)
  then have r: "ch_round os msg (map (\<lambda>c. (c, None)) (?l @ [NL])) s
      = Inr (True, (if for_node ?buff then ?s else t)\<lparr>cl_sent := cl_sent s @ [?buff]\<rparr>)"
    unfolding c using t(1,2) by (simp add: cl_emit_def)
  show ?thesis
    by (rule exI [where x = "(if for_node ?buff then ?s else t)\<lparr>cl_sent := cl_sent s @ [?buff]\<rparr>"], rule exI [where x = ?buff])
       (use r t(4) assms(3,6) c in \<open>simp add: cl_emit_def MAX_CHAT_def\<close>)
qed

theorem chat_line_run_and_sent_witness:
  "\<exists>t buff. ch_round example_cl_os ''hi'' (map (\<lambda>c. (c, None)) (''ls -l'' @ [NL])) (cl_init [''/bin/'']) = Inr (True, t)
     \<and> cl_sent t = [buff] \<and> length buff = MAX_CHAT"
  using chat_line_run_and_sent [of "[(''ls'', 0), (''-l'', 0)]" "cl_init [''/bin/'']" "''hi''" example_cl_os]
  by (auto simp: plain_word_def cl_init_def MAX_CHAT_def example_cl_os_def)

theorem ended_children_removed_witness:
  "let n = \<lparr>ch_fd = 4, ch_pid = 100, ch_addr = ''a''\<rparr>; k = \<lparr>ch_fd = 5, ch_pid = 101, ch_addr = ''b''\<rparr> in
     set (map fst (ch_send_to_all (ch_sigchld [100, 0]
        (changed (\<lambda>ns n. ch_addClient ns (ch_fd n) (ch_pid n) (ch_addr n)) ch_removeClient [Joins n, Joins k] [])) ''x'' 1))
       = {5}"
  using ended_children_removed [of "[Joins \<lparr>ch_fd = 4, ch_pid = 100, ch_addr = ''a''\<rparr>, Joins \<lparr>ch_fd = 5, ch_pid = 101, ch_addr = ''b''\<rparr>]"
      "[100]" "[]" "''x''" 1]
  by (auto simp: Let_def image_def)

section \<open>Messages that arrive while a line is typed\<close>

lemma ch_typing_shows:
  assumes "NUL \<in> set b" and "cstr b \<noteq> []" and "NL \<notin> set l" and "length line + length l < MAX_CHAT"
  shows "ch_typing (map (\<lambda>c. (c, None)) l @ (NL, None) # rest) b line
    = Inr (line @ l @ [NL], replicate (length l) (Printf (NL # ''From server'' @ cstr b @ [NL])))"
  using assms(3,4) by (induction l arbitrary: line) (auto simp: Let_def assms(1,2))

lemma ch_typing_before:
  assumes "NL \<notin> set l" and "length line + length l < MAX_CHAT" and "cstr b = []" and "NUL \<in> set b"
  shows "ch_typing (map (\<lambda>c. (c, None)) l @ keys) b line = ch_typing keys b (line @ l)"
  using assms(1,2)
proof (induction l arbitrary: line)
  case (Cons c l)
  then have "ch_typing (map (\<lambda>c. (c, None)) l @ keys) b (line @ [c]) = ch_typing keys b (line @ c # l)"
    using Cons.IH [of "line @ [c]"] by simp
  then show ?case using Cons.prems assms(3,4) by (cases "ch_typing keys b (line @ c # l)") (auto simp: Let_def)
qed simp

text \<open>
  A message that arrives while a line is typed is shown once for every character typed from
  then on, since the buffer it was read into is never cleared.
\<close>

theorem chat_message_repeated:
  assumes "NL \<notin> set (l @ c # k)" and "length (l @ c # k) < MAX_CHAT" and "nul_free m" and "m \<noteq> []" and "length m < MAX_CHAT"
  shows "ch_typing (map (\<lambda>c. (c, None)) l @ (c, Some m) # map (\<lambda>c. (c, None)) k @ [(NL, None)]) (replicate MAX_CHAT NUL) []
    = Inr (l @ c # k @ [NL], replicate (Suc (length k)) (Printf (NL # ''From server'' @ m @ [NL])))"
proof -
  let ?b = "fill (replicate MAX_CHAT NUL) m"
  have b: "NUL \<in> set ?b" "cstr ?b = m" using fill_message [OF assms(5)] assms(3) by auto
  have z: "cstr (replicate MAX_CHAT NUL) = []" "NUL \<in> set (replicate MAX_CHAT NUL)" by (simp_all add: cstr_def MAX_CHAT_def)
  have "ch_typing (map (\<lambda>c. (c, None)) k @ [(NL, None)]) ?b (l @ [c])
      = Inr (l @ c # k @ [NL], replicate (length k) (Printf (NL # ''From server'' @ m @ [NL])))"
    using ch_typing_shows [OF b(1), of k "l @ [c]" "[]"] b(2) assms(1,2,4) by simp
  then show ?thesis using ch_typing_before [OF _ _ z, of l "[]"] assms(1,2,4) b by (auto simp: Let_def)
qed

theorem chat_message_repeated_witness:
  "ch_typing [(CHR ''l'', Some ''hi''), (CHR ''s'', None), (NL, None)] (replicate MAX_CHAT NUL) []
    = Inr (''ls'' @ [NL], replicate 2 (Printf (NL # ''From serverhi'' @ [NL])))"
  using chat_message_repeated [of "[]" "CHR ''l''" "''s''" "''hi''"] by (simp add: MAX_CHAT_def numeral_2_eq_2 del: ch_typing.simps)

end
