(* ===== verification/BigFS.thy ===== *)
theory BigFS
  imports NP_Prelude "HOL-Library.Signed_Division"
begin

text \<open>
  The distributed file system of \<open>BigFileSystem\<close>: path splitting, the directory tree and the
  requests of the file name server, the table of connected clients of both servers, and the
  block arithmetic of the client and the data server. The tree is reached from its root only,
  so it is a datatype; the root pointer, which the program never initialises, is an option.
  The macro \<open>BLOCK_SIZE\<close> is \<open>10*1024\<close> without parentheses, and is expanded as the
  preprocessor does; division and remainder round towards zero, and a result outside the 32
  bits of an \<open>int\<close> is an overflow.
\<close>

section \<open>Paths\<close>

text \<open>\<open>path_split\<close> ends the list at the component being read, so the last one is lost.\<close>

fun path_split_from :: "char \<Rightarrow> string list \<Rightarrow> string \<Rightarrow> string \<Rightarrow> string list" where
  "path_split_from delim done cur [] = done"
| "path_split_from delim done cur (c # cs) =
     (if c = delim then path_split_from delim (done @ [cur]) [] cs
      else path_split_from delim done (cur @ [c]) cs)"

definition path_split :: "string \<Rightarrow> char \<Rightarrow> string list" where
  "path_split path delim = path_split_from delim [] [] path"

section \<open>The directory tree\<close>

datatype TreeNode = TreeNode (node_value: string) (isFile: bool) (sons: "TreeNode list")

text \<open>The name is copied through a pointer that was never set.\<close>

definition init_treenode :: "string \<Rightarrow> bool \<Rightarrow> cerror + TreeNode" where
  "init_treenode val f = Inl Uninitialised"

definition init_filetree :: "cerror + TreeNode" where
  "init_filetree = init_treenode ''/'' False"

fun find_sibling :: "TreeNode list \<Rightarrow> string \<Rightarrow> nat \<Rightarrow> (nat \<times> TreeNode) option" where
  "find_sibling [] name k = None"
| "find_sibling (n # ns) name k = (if node_value n = name then Some (k, n) else find_sibling ns name (Suc k))"

text \<open>
  The walk down the tree: the result is the flag of the first son of the node reached, which
  must exist, and the position of the last node that was found.
\<close>

fun find_from :: "TreeNode list \<Rightarrow> string list \<Rightarrow> nat list \<Rightarrow> cerror + bool \<times> nat list" where
  "find_from ns [] pos = (case ns of [] \<Rightarrow> Inl Segfault | n # _ \<Rightarrow> Inr (isFile n, pos))"
| "find_from ns (name # names) pos = (case find_sibling ns name 0 of
       None \<Rightarrow> Inr (False, pos)
     | Some (k, n) \<Rightarrow> find_from (sons n) names (pos @ [k]))"

definition find_node :: "TreeNode option \<Rightarrow> string \<Rightarrow> cerror + bool \<times> nat list" where
  "find_node root path = (case root of
       None \<Rightarrow> Inl Segfault
     | Some r \<Rightarrow> find_from (sons r) (path_split path (CHR ''/'')) [])"

fun add_son :: "TreeNode \<Rightarrow> nat list \<Rightarrow> TreeNode \<Rightarrow> TreeNode" where
  "add_son (TreeNode v f ns) [] new = TreeNode v f (ns @ [new])"
| "add_son (TreeNode v f ns) (k # ks) new = TreeNode v f (ns[k := add_son (ns ! k) ks new])"

definition insert_node :: "TreeNode option \<Rightarrow> string \<Rightarrow> bool \<Rightarrow> cerror + bool \<times> TreeNode option" where
  "insert_node root path f =
     rbind (find_node root path) (\<lambda>(found, pos).
       if found then Inr (False, root)
       else rbind (init_treenode path f) (\<lambda>new. Inr (True, map_option (\<lambda>r. add_son r pos new) root)))"

fun list_node :: "TreeNode \<Rightarrow> string list" where
  "list_node (TreeNode v f ns) = (v @ [NL]) # concat (map list_node ns)"

section \<open>Hashing and blocks\<close>

text \<open>The characters are signed, and the sum is taken modulo \<open>2 ^ 64\<close>.\<close>

fun hash_from :: "u64 \<Rightarrow> string \<Rightarrow> u64" where
  "hash_from h [] = h"
| "hash_from h (c # cs) = hash_from ((push_bit 5 h + h) + signed (of_char c :: 8 word)) cs"

definition hash :: "string \<Rightarrow> u64" where
  "hash str = hash_from 5381 (cstr str)"

definition NUM_SERVERS :: int where "NUM_SERVERS = 2"

text \<open>
  The size of a file as an \<open>int\<close>, which keeps the low 32 bits. The result of \<open>fstat\<close> is \<open>None\<close> when
  it fails.
\<close>

definition get_file_size :: "nat option \<Rightarrow> int" where
  "get_file_size st = (case st of None \<Rightarrow> -1 | Some n \<Rightarrow> sint (word_of_int (int n) :: 32 word))"

definition c_int :: "int \<Rightarrow> cerror + int" where
  "c_int i = (if - (2 ^ 31) \<le> i \<and> i < 2 ^ 31 then Inr i else Inl Overflow)"

text \<open>\<open>file_size % BLOCK_SIZE\<close> and \<open>file_size / BLOCK_SIZE\<close> after macro expansion.\<close>

definition mod_BLOCK_SIZE :: "int \<Rightarrow> int" where
  "mod_BLOCK_SIZE n = n smod 10 * 1024"

definition div_BLOCK_SIZE :: "int \<Rightarrow> cerror + int" where
  "div_BLOCK_SIZE n = c_int (n sdiv 10 * 1024)"

definition blocks_in_node :: "int \<Rightarrow> int \<Rightarrow> cerror + int" where
  "blocks_in_node file_size node_num =
     rbind (div_BLOCK_SIZE file_size) (\<lambda>q.
       if mod_BLOCK_SIZE file_size = 0 then Inr (q sdiv node_num)
       else Inr (q sdiv node_num
         + (if node_num = (file_size - mod_BLOCK_SIZE file_size) smod NUM_SERVERS + 1 then 1 else 0)))"

text \<open>
  The offsets at which the client reads the blocks it sends to a node, and whether the thread
  gets to its end: the offset is advanced after every block and must stay below \<open>2 ^ 31\<close>.
\<close>

definition max_blocks :: "int \<Rightarrow> int" where
  "max_blocks node_num = (2 ^ 31 - 1) div 10240 + 1 - (node_num - 1)"

definition send_files :: "int \<Rightarrow> int \<Rightarrow> int list \<times> bool" where
  "send_files file_size node_num = (case blocks_in_node file_size node_num of
      Inl e \<Rightarrow> ([], False)
    | Inr b \<Rightarrow>
        (map (\<lambda>i. 10 * 1024 * (node_num - 1) + int i * (10 * 1024)) [0..<nat (min b (max_blocks node_num))],
         b < max_blocks node_num))"

section \<open>Requests\<close>

text \<open>\<open>strtok\<close> over the whole text: the maximal runs without a delimiter.\<close>

fun strtok_all :: "char \<Rightarrow> string \<Rightarrow> string \<Rightarrow> string list" where
  "strtok_all d cur [] = (if cur = [] then [] else [cur])"
| "strtok_all d cur (c # cs) =
     (if c = d then (if cur = [] then [] else [cur]) @ strtok_all d [] cs else strtok_all d (cur @ [c]) cs)"

definition split_string :: "string \<Rightarrow> cerror + string list" where
  "split_string msg_tok =
     (let toks = strtok_all (CHR '' '') [] msg_tok in
      if 100 \<le> length toks \<or> list_ex (\<lambda>t. 100 \<le> length t) toks then Inl Overflow else Inr toks)"

datatype reply = Echo string | Send string | No_reply

text \<open>The bytes echoed: as many as the request has, from its second one on.\<close>

definition echo_text :: "string \<Rightarrow> bytes" where
  "echo_text buf = take (length buf) (drop 1 buf @ [NUL])"

text \<open>
  A request of the file name server: the text behind the client's name and a colon. The echo
  skips the first byte of the request and includes its terminating NUL.
\<close>

definition operation :: "TreeNode option \<Rightarrow> string \<Rightarrow> string list \<Rightarrow> cerror + reply \<times> TreeNode option" where
  "operation root buf op = (case op of
       cmd # args \<Rightarrow>
         if cmd = ''cp'' then
           (case args of
              [src, dst] \<Rightarrow> rbind (insert_node root dst True) (\<lambda>(_, root). Inr (Echo (echo_text buf), root))
            | _ \<Rightarrow> Inr (No_reply, root))
         else if cmd = ''cat'' then
           (case args of f # _ \<Rightarrow> Inr (Send f, root) | [] \<Rightarrow> Inr (No_reply, root))
         else Inr (Echo (echo_text buf), root)
     | [] \<Rightarrow> Inr (Echo (echo_text buf), root))"

definition request :: "TreeNode option \<Rightarrow> string \<Rightarrow> cerror + reply \<times> TreeNode option" where
  "request root buf =
     (let msg = drop 1 (dropWhile (\<lambda>c. c \<noteq> CHR '':'') buf) in
      if 1024 \<le> length msg then Inl Overflow else rbind (split_string msg) (operation root buf))"

section \<open>Connected clients\<close>

text \<open>The slots of \<open>client_fds\<close> hold 0 when free; only those below \<open>connectcnt\<close> are watched.\<close>

record clients =
  client_fds :: "int list"
  connectcnt :: nat

definition init_clients :: clients where
  "init_clients = \<lparr>client_fds = replicate 1024 0, connectcnt = 0\<rparr>"

fun first_free :: "int list \<Rightarrow> nat \<Rightarrow> nat option" where
  "first_free [] n = None"
| "first_free (x # xs) 0 = None"
| "first_free (x # xs) (Suc n) = (if x = 0 then Some 0 else map_option Suc (first_free xs n))"

definition accept_client :: "int \<Rightarrow> clients \<Rightarrow> cerror + clients" where
  "accept_client fd t =
     (let n = connectcnt t + 1 in
      case first_free (client_fds t) n of
        Some i \<Rightarrow> Inr \<lparr>client_fds = (client_fds t)[i := fd], connectcnt = n\<rparr>
      | None \<Rightarrow> (if length (client_fds t) < n then Inl Overflow else Inr (t\<lparr>connectcnt := n\<rparr>)))"

definition watched :: "clients \<Rightarrow> int set" where
  "watched t = {fd \<in> set (take (connectcnt t) (client_fds t)). 0 < fd}"

text \<open>The file name server keeps \<open>connectcnt\<close> when a client leaves, the data server decrements it.\<close>

definition name_disconnect :: "nat \<Rightarrow> clients \<Rightarrow> clients" where
  "name_disconnect i t = t\<lparr>client_fds := (client_fds t)[i := 0]\<rparr>"

definition data_disconnect :: "nat \<Rightarrow> clients \<Rightarrow> clients" where
  "data_disconnect i t = t\<lparr>client_fds := (client_fds t)[i := 0], connectcnt := connectcnt t - 1\<rparr>"

datatype client_event = Connect int | Leave nat

fun name_server_event :: "clients \<Rightarrow> client_event \<Rightarrow> cerror + clients" where
  "name_server_event t (Connect fd) = accept_client fd t"
| "name_server_event t (Leave i) = Inr (if i < connectcnt t then name_disconnect i t else t)"

section \<open>Splitting loses the last component\<close>

fun join :: "char \<Rightarrow> string list \<Rightarrow> string" where
  "join d [] = []"
| "join d [c] = c"
| "join d (c # e # cs) = c @ d # join d (e # cs)"

lemma path_split_component: "d \<notin> set c \<Longrightarrow> path_split_from d done cur (c @ rest) = path_split_from d done (cur @ c) rest"
  by (induction c arbitrary: cur) auto

lemma path_split_join:
  "\<forall>c \<in> set cs. d \<notin> set c \<Longrightarrow> cs \<noteq> [] \<Longrightarrow> path_split_from d done [] (join d cs) = done @ butlast cs"
proof (induction cs arbitrary: "done" rule: join.induct)
  case (2 d c)
  then show ?case using path_split_component [of d c "done" "[]" "[]"] by simp
next
  case (3 d c e cs)
  have "path_split_from d done [] (c @ d # join d (e # cs)) = path_split_from d (done @ [c]) [] (join d (e # cs))"
    using 3 path_split_component [of d c "done" "[]" "d # join d (e # cs)"] by simp
  then show ?case using 3 by simp
qed simp

text \<open>
  Splitting a path at its separator returns all components but the last one, whatever
  the components are, so the lookup of a file only ever sees the directories above it.
\<close>

theorem path_split_drops_last:
  assumes "\<forall>c \<in> set cs. d \<notin> set c" and "cs \<noteq> []"
  shows "path_split (join d cs) d = butlast cs"
  using path_split_join [OF assms, of "[]"] by (simp add: path_split_def)

theorem path_split_drops_last_witness: "path_split ''usr/share/doc'' (CHR ''/'') = [''usr'', ''share'']"
  using path_split_drops_last [of "[''usr'', ''share'', ''doc'']" "CHR ''/''"] by simp

section \<open>A copy request crashes the server\<close>

lemma strtok_all_words:
  "\<forall>w \<in> set ws. w \<noteq> [] \<and> d \<notin> set w \<Longrightarrow> strtok_all d [] (join d ws) = ws"
proof (induction ws rule: join.induct)
  case (2 d c)
  have "d \<notin> set w \<Longrightarrow> strtok_all d cur (w @ rest) = strtok_all d (cur @ w) rest" for w cur rest
    by (induction w arbitrary: cur) auto
  from this [of c "[]" "[]"] 2 show ?case by simp
next
  case (3 d c e cs)
  have "d \<notin> set w \<Longrightarrow> strtok_all d cur (w @ rest) = strtok_all d (cur @ w) rest" for w cur rest
    by (induction w arbitrary: cur) auto
  from this [of c "[]" "d # join d (e # cs)"] 3 show ?case by simp
qed simp

definition word :: "string \<Rightarrow> bool" where
  "word w \<longleftrightarrow> w \<noteq> [] \<and> CHR '' '' \<notin> set w \<and> CHR '':'' \<notin> set w \<and> length w < 100"

lemma split_words:
  "\<forall>w \<in> set ws. word w \<Longrightarrow> length ws < 100 \<Longrightarrow> split_string (join (CHR '' '') ws) = Inr ws"
  using strtok_all_words [of ws "CHR '' ''"] by (auto simp: split_string_def word_def list_ex_iff Let_def not_le)

lemma behind_colon: "CHR '':'' \<notin> set client \<Longrightarrow> drop 1 (dropWhile (\<lambda>c. c \<noteq> CHR '':'') (client @ CHR '':'' # msg)) = msg"
  by (induction client) auto

text \<open>
  The file name server never initialises the root of its tree, so every well-formed
  copy request dereferences NULL, whereas a request for a file is answered with its name.
\<close>

theorem cp_request_crashes:
  assumes "word src" and "word dst" and "CHR '':'' \<notin> set client"
  shows "request None (client @ CHR '':'' # join (CHR '' '') [''cp'', src, dst]) = Inl Segfault
    \<and> request None (client @ CHR '':'' # join (CHR '' '') [''cat'', src]) = Inr (Send src, None)"
proof -
  have "split_string (join (CHR '' '') [''cp'', src, dst]) = Inr [''cp'', src, dst]"
      "split_string (join (CHR '' '') [''cat'', src]) = Inr [''cat'', src]"
    using assms by (intro split_words; simp add: word_def)+
  moreover have "length (join (CHR '' '') [''cp'', src, dst]) < 1024" "length (join (CHR '' '') [''cat'', src]) < 1024"
    using assms by (simp_all add: word_def)
  ultimately show ?thesis
    using behind_colon [OF assms(3)]
    by (simp add: request_def operation_def Let_def insert_node_def find_node_def del: join.simps)
qed

theorem cp_request_crashes_witness:
  "request None (''1:cp a.txt b.txt'') = Inl Segfault"
  using cp_request_crashes [of "''a.txt''" "''b.txt''" "''1''"] by (simp add: word_def)

section \<open>Which clients are watched\<close>

definition clients_ok :: "clients \<Rightarrow> bool" where
  "clients_ok t \<longleftrightarrow> length (client_fds t) = 1024 \<and> (\<forall>i < 1024. connectcnt t \<le> i \<longrightarrow> client_fds t ! i = 0)
     \<and> (\<forall>fd \<in> set (client_fds t). 0 \<le> fd)"

lemma first_free_Some: "first_free xs n = Some i \<Longrightarrow> i < n \<and> i < length xs \<and> xs ! i = 0"
  by (induction xs n arbitrary: i rule: first_free.induct) (auto split: if_splits)

lemma clients_ok_accept:
  assumes "clients_ok t" and "accept_client fd t = Inr t'" and "0 < fd"
  shows "clients_ok t'"
proof (cases "first_free (client_fds t) (connectcnt t + 1)")
  case None
  then show ?thesis using assms by (auto simp: accept_client_def Let_def clients_ok_def split: if_splits)
next
  case (Some i)
  have "set ((client_fds t)[i := fd]) \<subseteq> insert fd (set (client_fds t))" by (rule set_update_subset_insert)
  then show ?thesis
    using assms Some first_free_Some [OF Some]
    by (auto simp: accept_client_def Let_def clients_ok_def nth_list_update)
qed

lemma clients_ok_events:
  assumes "clients_ok t" and "rfold name_server_event t es = Inr t'" and "\<forall>fd. Connect fd \<in> set es \<longrightarrow> 0 < fd"
  shows "clients_ok t'"
  using assms
proof (induction es arbitrary: t)
  case (Cons e es)
  obtain t1 where t1: "name_server_event t e = Inr t1" "rfold name_server_event t1 es = Inr t'"
    using Cons.prems(2) by auto
  have "clients_ok t1"
  proof (cases e)
    case (Connect fd)
    then show ?thesis using t1(1) Cons.prems(1,3) clients_ok_accept [of t fd t1] by simp
  next
    case (Leave i)
    then show ?thesis
      using t1(1) Cons.prems(1) set_update_subset_insert [of "client_fds t" i 0]
      by (auto simp: name_disconnect_def clients_ok_def nth_list_update split: if_splits)
  qed
  then show ?case using Cons.IH t1(2) Cons.prems(3) by auto
qed simp

lemma watched_all:
  assumes "clients_ok t"
  shows "watched t = {fd \<in> set (client_fds t). fd \<noteq> 0}"
proof -
  have "fd \<in> set (take (connectcnt t) (client_fds t))" if fd: "fd \<in> set (client_fds t)" "fd \<noteq> 0" for fd
  proof -
    obtain i where i: "i < 1024" "client_fds t ! i = fd"
      using fd(1) assms by (auto simp: in_set_conv_nth clients_ok_def)
    then have "i < connectcnt t" using assms fd(2) by (force simp: clients_ok_def)
    then show ?thesis using i assms by (auto simp: in_set_conv_nth clients_ok_def intro!: exI [of _ i])
  qed
  moreover have "0 < fd" if "fd \<in> set (client_fds t)" "fd \<noteq> 0" for fd
    using assms that by (force simp: clients_ok_def)
  ultimately show ?thesis by (auto simp: watched_def dest: in_set_takeD)
qed

text \<open>
  In the file name server every client that is connected is watched, after any sequence
  of connections and departures. In the data server it is not: when the first of two
  clients leaves, the counter is decremented and the second is no longer watched.
\<close>

theorem name_server_watches_all:
  assumes "rfold name_server_event init_clients es = Inr t" and "\<forall>fd. Connect fd \<in> set es \<longrightarrow> 0 < fd"
  shows "watched t = {fd \<in> set (client_fds t). fd \<noteq> 0}
    \<and> (0 < b \<longrightarrow> b \<notin> watched (data_disconnect 0 \<lparr>client_fds = a # b # rest, connectcnt = 2\<rparr>))"
proof -
  have "clients_ok init_clients" by (simp add: clients_ok_def init_clients_def)
  from clients_ok_events [OF this assms] have ok: "clients_ok t" .
  from watched_all [OF ok] have "watched t = {fd \<in> set (client_fds t). fd \<noteq> 0}" .
  then show ?thesis by (simp add: watched_def data_disconnect_def)
qed

theorem name_server_watches_all_witness:
  "watched init_clients = {fd \<in> set (client_fds init_clients). fd \<noteq> 0}
   \<and> 5 \<notin> watched (data_disconnect 0 \<lparr>client_fds = [4, 5], connectcnt = 2\<rparr>)"
  using name_server_watches_all [of "[]" init_clients 5 4 "[]"] by simp

section \<open>Blocks\<close>

lemma get_file_size_small: "n < 2 ^ 31 \<Longrightarrow> get_file_size (Some n) = int n"
  by (simp add: get_file_size_def signed_of_int signed_take_bit_int_eq_self del: of_int_of_nat_eq)

lemma nonneg_quotients:
  fixes n d :: int
  assumes "0 \<le> n" and "0 < d"
  shows "n sdiv d = n div d" "n smod d = n mod d"
  using assms by (cases "n = 0"; simp add: signed_divide_int_def signed_modulo_int_def minus_div_mult_eq_mod)+

lemma div_BLOCK_SIZE_nonneg:
  assumes "0 \<le> n"
  shows "div_BLOCK_SIZE n = (if n < 20971520 then Inr (n div 10 * 1024) else Inl Overflow)"
proof -
  have "n < 20971520 \<longleftrightarrow> n div 10 * 1024 < 2 ^ 31" "- (2 ^ 31) \<le> n div 10 * 1024" using assms by auto
  then show ?thesis using assms by (simp add: div_BLOCK_SIZE_def c_int_def nonneg_quotients)
qed

text \<open>
  For 19 bytes the number of blocks of the second node is 512, as \<open>-9197 % 2\<close> is \<open>-1\<close>; from
  20971520 bytes on the number of blocks is not an \<open>int\<close>.
\<close>

lemma blocks_in_node_examples:
  "blocks_in_node 19 2 = Inr 512" "blocks_in_node 20 1 = Inr 2048" "blocks_in_node 30000000 1 = Inl Overflow"
  by (simp_all add: blocks_in_node_def mod_BLOCK_SIZE_def div_BLOCK_SIZE_def c_int_def NUM_SERVERS_def
      signed_divide_int_def signed_modulo_int_def)

text \<open>
  Because the macro has no parentheses, a file of a positive number of bytes divisible
  by ten is sent to the first node as 1024 blocks for every ten bytes, until the offset
  overflows after 209716 blocks, and the blocks for the second node are not interleaved with
  those for the first: they are the same blocks from the second one on.
\<close>

theorem send_files_blocks:
  assumes "0 < sz" and "sz mod 10 = 0" and "sz < 20971520"
  shows "length (fst (send_files sz 1)) = min (nat (sz div 10) * 1024) 209716
    \<and> (\<forall>k < length (fst (send_files sz 2)). fst (send_files sz 2) ! k = fst (send_files sz 1) ! Suc k)"
proof -
  define q where "q = nat (sz div 10)"
  have q: "sz div 10 = int q" "0 < q" using assms unfolding q_def by auto
  have "blocks_in_node sz 1 = Inr (int (q * 1024))" "blocks_in_node sz 2 = Inr (int (q * 512))"
    using assms q(1) div_BLOCK_SIZE_nonneg [of sz]
    by (simp_all add: blocks_in_node_def mod_BLOCK_SIZE_def nonneg_quotients)
  then have f: "fst (send_files sz 1) = map (\<lambda>i. int i * 10240) [0..<min (q * 1024) 209716]"
      "fst (send_files sz 2) = map (\<lambda>i. 10240 + int i * 10240) [0..<min (q * 512) 209715]"
    by (simp_all add: send_files_def max_blocks_def min_def nat_mult_distrib)
  have "length (fst (send_files sz 1)) = min (q * 1024) 209716" by (simp add: f)
  moreover have "fst (send_files sz 2) ! k = fst (send_files sz 1) ! Suc k" if "k < length (fst (send_files sz 2))" for k
  proof -
    have "k < q * 512" "k < 209715" using that by (simp_all add: f)
    then have "Suc k < min (q * 1024) 209716" using q(2) by linarith
    then show ?thesis using that by (simp add: f)
  qed
  ultimately show ?thesis by (simp add: q_def)
qed

theorem send_files_blocks_witness: "length (fst (send_files 100 1)) = 10240"
  using send_files_blocks [of 100] by simp

end
