(* ===== verification/BigFS_Servers.thy ===== *)
theory BigFS_Servers
  imports BigFS
begin

text \<open>
  The message loops of \<open>BigFileSystem\<close>: one round of the \<open>select\<close> loop of the file name server
  and of the data server, and one line typed at the client. What \<open>select\<close> reports is a
  parameter: the line typed at the server, a new connection with what it sends first, and for
  every socket what can be read from it, where no byte means that the peer has closed it. The
  two servers are the same program but for the requests, the departure of a client and a table
  of three sockets in the data server, so their loops are one definition with these parts as
  parameters. Printed texts with the address of the peer are abbreviated. Main results: text from connected clients is echoed, the tables stay consistent,
  and three ways to end a server from outside.
\<close>

section \<open>A round of a server\<close>

datatype server_out = Shows string | Sends int bytes

record fs_server =
  fs_root :: "TreeNode option"
  fs_table :: clients
  fs_curr :: nat
  fs_running :: bool
  fs_outs :: "server_out list"

datatype server_end = Crash cerror | Exit nat

record ready =
  typed :: "string option"
  next_typed :: bytes
  incoming :: "(int \<times> bytes \<times> bytes) option"
  readable :: "int \<Rightarrow> bytes option"
  send_ok :: "int \<Rightarrow> bool"

definition server_init :: fs_server where
  "server_init = \<lparr>fs_root = None, fs_table = init_clients, fs_curr = 0, fs_running = True, fs_outs = []\<rparr>"

definition fs_emit :: "server_out list \<Rightarrow> fs_server \<Rightarrow> fs_server" where
  "fs_emit os s = s\<lparr>fs_outs := fs_outs s @ os\<rparr>"

definition fs_send :: "ready \<Rightarrow> int \<Rightarrow> bytes \<Rightarrow> fs_server \<Rightarrow> server_end + fs_server" where
  "fs_send r fd d s = (if send_ok r fd then Inr (fs_emit [Sends fd d] s) else Inl (Exit 1))"

definition crash :: "cerror + 'a \<Rightarrow> server_end + 'a" where
  "crash x = (case x of Inl e \<Rightarrow> Inl (Crash e) | Inr y \<Rightarrow> Inr y)"

definition console :: "string \<Rightarrow> string \<Rightarrow> fs_server \<Rightarrow> fs_server" where
  "console prompt buf s =
     (if strncmp_eq buf ''count'' 5
      then fs_emit [Shows (''Received '' @ string_of_nat (connectcnt (fs_table s)) @ '' connection requests so far.'' @ [NL]), Shows prompt] s
      else if strncmp_eq buf ''exit'' 4 then s\<lparr>fs_running := False\<rparr>
      else fs_emit [Shows (''ERROR: unknown command'' @ [NL]), Shows ''server> ''] s)"

text \<open>
  A slot of the table. A free slot holds 0, which is the descriptor of the standard input: it
  is ready when a command was typed, and reading it takes the next typed line.
\<close>

definition slot_input :: "ready \<Rightarrow> int \<Rightarrow> bytes option" where
  "slot_input r fd = (if fd = 0 then (if typed r = None then None else Some (next_typed r)) else readable r fd)"

definition serve_slot :: "(nat \<Rightarrow> clients \<Rightarrow> clients) \<Rightarrow> ready \<Rightarrow> nat \<Rightarrow> fs_server \<Rightarrow> server_end + fs_server" where
  "serve_slot leave r i s =
     (if length (client_fds (fs_table s)) \<le> i then Inl (Crash Overflow)
      else let fd = client_fds (fs_table s) ! i in
        case slot_input r fd of
          None \<Rightarrow> Inr s
        | Some d \<Rightarrow>
            if d = [] then Inr (fs_emit [Shows ''Host disconnected''] (s\<lparr>fs_table := leave i (fs_table s)\<rparr>))
            else if 8192 \<le> length (cstr d) then Inl (Crash Overflow)
            else fs_send r fd (cstr d) (fs_emit [Shows (cstr d @ [NL])] s))"

fun serve_slots :: "(nat \<Rightarrow> clients \<Rightarrow> clients) \<Rightarrow> ready \<Rightarrow> nat list \<Rightarrow> fs_server \<Rightarrow> server_end + fs_server" where
  "serve_slots leave r [] s = Inr s"
| "serve_slots leave r (i # is) s =
     (if connectcnt (fs_table s) \<le> i then Inr s
      else rbind (serve_slot leave r i s) (serve_slots leave r is))"

definition answer :: "ready \<Rightarrow> int \<Rightarrow> reply \<Rightarrow> fs_server \<Rightarrow> server_end + fs_server" where
  "answer r fd rep s = (case rep of
       Echo d \<Rightarrow> fs_send r fd d s
     | Send d \<Rightarrow> fs_send r fd d s
     | No_reply \<Rightarrow> Inr (fs_emit [Shows ''Format''] s))"

text \<open>
  A new connection: \<open>cap\<close> is the size of the table \<open>server_fds\<close> of the data server, if there is
  one. The request is answered on the new socket.
\<close>

definition accept_connection :: "nat option \<Rightarrow> (TreeNode option \<Rightarrow> string \<Rightarrow> bytes \<Rightarrow> cerror + reply \<times> TreeNode option)
    \<Rightarrow> ready \<Rightarrow> int \<times> bytes \<times> bytes \<Rightarrow> fs_server \<Rightarrow> server_end + fs_server" where
  "accept_connection cap req r c s =
     (case c of (fd, buf, sz) \<Rightarrow>
        if cap \<noteq> None \<and> the cap \<le> fs_curr s then Inl (Crash Overflow)
        else if 8192 \<le> length (cstr buf) then Inl (Crash Overflow)
        else rbind (crash (accept_client fd (fs_table s))) (\<lambda>t.
          let s = fs_emit [Shows ''New connection'', Shows (cstr buf @ [NL])] (s\<lparr>fs_table := t, fs_curr := fs_curr s + 1\<rparr>) in
          rbind (crash (req (fs_root s) (cstr buf) sz)) (\<lambda>(rep, root). answer r fd rep (s\<lparr>fs_root := root\<rparr>))))"

definition server_round :: "string \<Rightarrow> nat option \<Rightarrow> (TreeNode option \<Rightarrow> string \<Rightarrow> bytes \<Rightarrow> cerror + reply \<times> TreeNode option)
    \<Rightarrow> (nat \<Rightarrow> clients \<Rightarrow> clients) \<Rightarrow> ready \<Rightarrow> fs_server \<Rightarrow> server_end + fs_server" where
  "server_round prompt cap req leave r s =
     (let s = (case typed r of None \<Rightarrow> s | Some l \<Rightarrow> console prompt l s) in
      case incoming r of
        Some c \<Rightarrow> accept_connection cap req r c s
      | None \<Rightarrow> serve_slots leave r [0..<connectcnt (fs_table s)] s)"

section \<open>The two servers\<close>

definition name_round :: "ready \<Rightarrow> fs_server \<Rightarrow> server_end + fs_server" where
  "name_round = server_round ''server> '' None (\<lambda>root buf sz. request root buf) name_disconnect"

text \<open>
  The request of the data server starts at its second byte, without a search for a colon. The
  number of blocks computed for a copy only bounds an empty loop.
\<close>

definition data_request :: "TreeNode option \<Rightarrow> string \<Rightarrow> bytes \<Rightarrow> cerror + reply \<times> TreeNode option" where
  "data_request root buf sz =
     (let msg = drop 1 buf in
      if 1024 \<le> length msg then Inl Overflow else rbind (split_string msg) (operation root buf))"

definition data_round :: "ready \<Rightarrow> fs_server \<Rightarrow> server_end + fs_server" where
  "data_round = server_round ''node> '' (Some 3) data_request data_disconnect"

section \<open>The client\<close>

datatype client_out = Tells string | Blocks int "int list \<times> bool" | To_name_server string

text \<open>
  A typed line. The file is opened by the client, its size is what \<open>fstat\<close> reports. The two
  threads that send the blocks share one structure with their node number; here each reads its
  own. An overflow in the arithmetic of a thread ends the defined behaviour of the client.
\<close>

definition client_line :: "(string \<Rightarrow> nat option) \<Rightarrow> string \<Rightarrow> string \<Rightarrow> cerror + bool \<times> client_out list" where
  "client_line file_size_of name msg =
     (if strncmp_eq msg ''exit'' 4 then Inr (False, [Tells (''Client exited'' @ [NL])])
      else if 256 \<le> length msg then Inl Overflow
      else rbind (split_string msg) (\<lambda>op.
        let send = (\<lambda>pre. if length name + 1 + length msg < 8192
                     then Inr (True, pre @ [To_name_server (name @ CHR '':'' # msg), Tells ''client > ''])
                     else Inl Overflow) in
        case op of
          cmd # args \<Rightarrow>
            if cmd = ''cp'' then
              (case args of
                 src # dst # _ \<Rightarrow>
                   let copying = Tells (''Copying '' @ src @ '' to '' @ dst @ [NL]) in
                   (case file_size_of src of
                      None \<Rightarrow> Inr (True, [copying, Tells (''Error: Bad file descriptor'' @ [NL]), Tells ''client > ''])
                    | Some sz \<Rightarrow>
                        let files = (\<lambda>i. send_files (get_file_size (Some sz)) i) in
                        if list_all (\<lambda>i. snd (files i)) [1, 2] then send (copying # map (\<lambda>i. Blocks i (files i)) [1, 2])
                        else Inl Overflow)
               | _ \<Rightarrow> Inr (True, [Tells (''Format: cp <src> <dst>'' @ [NL]), Tells ''client > '']))
            else if cmd = ''cat'' \<and> args = []
            then Inr (True, [Tells (''Format: cat <filename>'' @ [NL]), Tells ''client > ''])
            else send []
        | [] \<Rightarrow> send []))"

section \<open>The tables stay consistent\<close>

definition server_ok :: "fs_server \<Rightarrow> bool" where
  "server_ok s \<longleftrightarrow> clients_ok (fs_table s) \<and> fs_root s = None"

lemma fs_emit_simps [simp]:
  "fs_root (fs_emit os s) = fs_root s" "fs_table (fs_emit os s) = fs_table s" "fs_curr (fs_emit os s) = fs_curr s"
  "fs_running (fs_emit os s) = fs_running s" "fs_outs (fs_emit os s) = fs_outs s @ os"
  by (simp_all add: fs_emit_def)

lemma fs_send_keeps: "fs_send r fd d s = Inr s' \<Longrightarrow> s' = fs_emit [Sends fd d] s \<and> send_ok r fd"
  by (auto simp: fs_send_def split: if_splits)

lemma answer_keeps: "answer r fd rep s = Inr s' \<Longrightarrow> fs_table s' = fs_table s \<and> fs_root s' = fs_root s \<and> fs_curr s' = fs_curr s"
  by (auto simp: answer_def split: reply.splits dest: fs_send_keeps)

lemma crash_Inr [simp]: "crash x = Inr y \<longleftrightarrow> x = Inr y"
  by (auto simp: crash_def split: sum.splits)

lemma console_keeps [simp]: "fs_root (console p l s) = fs_root s" "fs_table (console p l s) = fs_table s"
  "fs_curr (console p l s) = fs_curr s"
  by (simp_all add: console_def)

lemma clients_ok_leave: "clients_ok t \<Longrightarrow> clients_ok (name_disconnect i t)"
  using set_update_subset_insert [of "client_fds t" i 0]
  by (cases "i < length (client_fds t)") (auto simp: name_disconnect_def clients_ok_def nth_list_update)

lemma operation_root: "operation None buf op = Inr (rep, root) \<Longrightarrow> root = None"
  by (auto simp: operation_def insert_node_def find_node_def split: list.splits if_splits)

lemma request_root: "request None buf = Inr (rep, root) \<Longrightarrow> root = None"
  by (auto simp: request_def Let_def split: if_splits dest: operation_root)

lemma data_request_root: "data_request None buf sz = Inr (rep, root) \<Longrightarrow> root = None"
  by (auto simp: data_request_def Let_def split: if_splits dest: operation_root)

text \<open>
  What the loop of a server relies on: its table operations keep the table in order, and a
  request to a server without a tree does not make one. The invariant of the rounds then
  holds for every such server.
\<close>

locale select_server =
  fixes prompt :: string and cap :: "nat option"
    and req :: "TreeNode option \<Rightarrow> string \<Rightarrow> bytes \<Rightarrow> cerror + reply \<times> TreeNode option"
    and leave :: "nat \<Rightarrow> clients \<Rightarrow> clients" and table_ok :: "clients \<Rightarrow> bool"
  assumes accept_ok: "table_ok t \<Longrightarrow> accept_client fd t = Inr t' \<Longrightarrow> 0 < fd \<Longrightarrow> table_ok t'"
    and leave_ok: "table_ok t \<Longrightarrow> i < connectcnt t \<Longrightarrow> table_ok (leave i t)"
    and req_root: "req None buf sz = Inr (rep, root) \<Longrightarrow> root = None"
begin

lemma serve_slots_ok:
  "serve_slots leave r is s = Inr s' \<Longrightarrow> table_ok (fs_table s) \<Longrightarrow> fs_root s = None \<Longrightarrow>
     table_ok (fs_table s') \<and> fs_root s' = None"
proof (induction "is" arbitrary: s)
  case (Cons i "is")
  have "table_ok (fs_table s1) \<and> fs_root s1 = None" if "serve_slot leave r i s = Inr s1" "i < connectcnt (fs_table s)" for s1
    using that Cons.prems(2,3) leave_ok [of "fs_table s" i]
    by (auto simp: serve_slot_def Let_def split: if_splits option.splits dest!: fs_send_keeps)
  then show ?case using Cons by (auto split: if_splits)
qed simp

lemma accept_connection_ok:
  assumes "accept_connection cap req r (fd, buf, sz) s = Inr s'" and "table_ok (fs_table s)" and "fs_root s = None" and "0 < fd"
  shows "table_ok (fs_table s') \<and> fs_root s' = None"
proof -
  obtain t rep root where "accept_client fd (fs_table s) = Inr t" "req (fs_root s) (cstr buf) sz = Inr (rep, root)"
      "fs_table s' = t" "fs_root s' = root"
    using assms(1) by (auto simp: accept_connection_def Let_def split: if_splits dest!: answer_keeps)
  then show ?thesis using assms(2-4) accept_ok req_root by auto
qed

lemma round_ok:
  assumes "server_round prompt cap req leave r s = Inr s'" and "table_ok (fs_table s)" and "fs_root s = None"
    and "\<forall>fd buf sz. incoming r = Some (fd, buf, sz) \<longrightarrow> 0 < fd"
  shows "table_ok (fs_table s') \<and> fs_root s' = None"
proof -
  let ?s = "case typed r of None \<Rightarrow> s | Some l \<Rightarrow> console prompt l s"
  have "table_ok (fs_table ?s)" "fs_root ?s = None" using assms(2,3) by (auto split: option.splits)
  then show ?thesis
    using assms(1,4) serve_slots_ok [of r _ ?s s'] accept_connection_ok [of r _ _ _ ?s s']
    by (auto simp: server_round_def Let_def split: option.splits)
qed

lemma rounds_ok:
  assumes "rfold (\<lambda>s r. server_round prompt cap req leave r s) s rs = Inr s'" and "table_ok (fs_table s)" and "fs_root s = None"
    and "\<forall>r \<in> set rs. \<forall>fd buf sz. incoming r = Some (fd, buf, sz) \<longrightarrow> 0 < fd"
  shows "table_ok (fs_table s') \<and> fs_root s' = None"
  using assms
proof (induction rs arbitrary: s)
  case (Cons r rs)
  then obtain s1 where "server_round prompt cap req leave r s = Inr s1"
      "rfold (\<lambda>s r. server_round prompt cap req leave r s) s1 rs = Inr s'" by auto
  then show ?case using Cons round_ok [of r s s1] by auto
qed simp

end

interpretation name_server: select_server "''server> ''" None "\<lambda>root buf sz. request root buf" name_disconnect clients_ok
  by unfold_locales (auto intro: clients_ok_accept clients_ok_leave dest: request_root)

definition slots_ok :: "clients \<Rightarrow> bool" where
  "slots_ok t \<longleftrightarrow> length (client_fds t) = 1024 \<and> (\<forall>fd \<in> set (client_fds t). 0 \<le> fd)"

lemma slots_ok_update: "slots_ok t \<Longrightarrow> 0 \<le> fd \<Longrightarrow> slots_ok \<lparr>client_fds = (client_fds t)[i := fd], connectcnt = n\<rparr>"
  using set_update_subset_insert [of "client_fds t" i fd] by (auto simp: slots_ok_def)

interpretation data_server: select_server "''node> ''" "Some 3" data_request data_disconnect slots_ok
proof
  show "slots_ok t'" if "slots_ok t" "accept_client fd t = Inr t'" "0 < fd" for t fd t'
    using that slots_ok_update [of t fd]
    by (auto simp: accept_client_def Let_def slots_ok_def split: option.splits if_splits)
  show "slots_ok (data_disconnect i t)" if "slots_ok t" for i t
    using slots_ok_update [OF that, of 0 i "connectcnt t - 1"] by (cases t) (simp add: data_disconnect_def)
qed (rule data_request_root)

text \<open>
  In every run of the file name server, over any rounds of typed commands, connections,
  messages and departures that do not end it, every connected client is watched and the tree
  is still the uninitialised one.
\<close>

theorem name_server_rounds:
  assumes "rfold (\<lambda>s r. name_round r s) server_init rs = Inr s"
    and "\<forall>r \<in> set rs. \<forall>fd buf sz. incoming r = Some (fd, buf, sz) \<longrightarrow> 0 < fd"
  shows "watched (fs_table s) = {fd \<in> set (client_fds (fs_table s)). fd \<noteq> 0} \<and> fs_root s = None"
proof -
  have "clients_ok (fs_table server_init)" "fs_root server_init = None"
    by (simp_all add: server_init_def clients_ok_def init_clients_def)
  then show ?thesis
    using name_server.rounds_ok [OF assms(1) [unfolded name_round_def] _ _ assms(2)] watched_all by auto
qed

definition quiet_round :: ready where
  "quiet_round = \<lparr>typed = None, next_typed = [], incoming = None, readable = (\<lambda>_. None), send_ok = (\<lambda>fd. 0 < fd)\<rparr>"

theorem name_server_rounds_witness:
  "\<exists>s. rfold (\<lambda>s r. name_round r s) server_init [quiet_round\<lparr>incoming := Some (4, ''1:hello'', [])\<rparr>, quiet_round] = Inr s
     \<and> watched (fs_table s) = {fd \<in> set (client_fds (fs_table s)). fd \<noteq> 0} \<and> fs_root s = None"
proof -
  let ?rs = "[quiet_round\<lparr>incoming := Some (4, ''1:hello'', [])\<rparr>, quiet_round]"
  have slots: "replicate 1024 (0 :: int) = 0 # replicate 1023 0" using replicate_Suc [of 1023 "0 :: int"] by simp
  have req: "request None ''1:hello'' = Inr (Echo (echo_text ''1:hello''), None)"
    by (simp add: request_def operation_def split_string_def)
  have "accept_client 4 init_clients = Inr \<lparr>client_fds = 4 # replicate 1023 0, connectcnt = 1\<rparr>"
    by (simp add: accept_client_def init_clients_def slots)
  then obtain s1 where "name_round (quiet_round\<lparr>incoming := Some (4, ''1:hello'', [])\<rparr>) server_init = Inr s1"
      "connectcnt (fs_table s1) = 1" "client_fds (fs_table s1) = 4 # replicate 1023 0"
    by (simp add: name_round_def server_round_def quiet_round_def accept_connection_def server_init_def crash_def req
        answer_def fs_send_def fs_emit_def)
  moreover from this(2,3) have "name_round quiet_round s1 = Inr s1"
    by (simp add: name_round_def server_round_def quiet_round_def serve_slot_def slot_input_def)
  ultimately have run: "rfold (\<lambda>s r. name_round r s) server_init ?rs = Inr s1" by simp
  have "\<forall>r \<in> set ?rs. \<forall>fd buf sz. incoming r = Some (fd, buf, sz) \<longrightarrow> 0 < fd" by (simp add: quiet_round_def)
  then show ?thesis using name_server_rounds [OF run] run by blast
qed

section \<open>Echo\<close>

definition echoes :: "ready \<Rightarrow> int list \<Rightarrow> server_out list" where
  "echoes r fds = concat (map (\<lambda>fd. case readable r fd of None \<Rightarrow> [] | Some d \<Rightarrow> [Shows (cstr d @ [NL]), Sends fd (cstr d)])
     (filter (\<lambda>fd. fd \<noteq> 0) fds))"

text \<open>
  When the sockets of some clients are readable, the round sends every one of them the
  text it has sent, up to the first NUL, in the order of the table, and nothing to the others.
\<close>

theorem name_server_echoes:
  assumes "server_ok s" and "connectcnt (fs_table s) \<le> 1024" and "typed r = None" and "incoming r = None"
    and "\<forall>fd. fd \<noteq> 0 \<longrightarrow> send_ok r fd" and "\<forall>fd d. readable r fd = Some d \<longrightarrow> d \<noteq> [] \<and> length (cstr d) < 8192"
  shows "name_round r s = Inr (fs_emit (echoes r (take (connectcnt (fs_table s)) (client_fds (fs_table s)))) s)"
proof -
  let ?t = "fs_table s"
  have len: "length (client_fds ?t) = 1024" using assms(1) by (simp add: server_ok_def clients_ok_def)
  have "serve_slots name_disconnect r [k..<connectcnt ?t] (fs_emit es s)
      = Inr (fs_emit (es @ echoes r (drop k (take (connectcnt ?t) (client_fds ?t)))) s)" if "k \<le> connectcnt ?t" for k es
    using that
  proof (induction "connectcnt ?t - k" arbitrary: k es)
    case (Suc n)
    let ?fd = "client_fds ?t ! k"
    have k: "k < connectcnt ?t" "k < 1024" using Suc.hyps(2) assms(2) by auto
    have d: "drop k (take (connectcnt ?t) (client_fds ?t)) = ?fd # drop (Suc k) (take (connectcnt ?t) (client_fds ?t))"
      using k len by (subst Cons_nth_drop_Suc [symmetric]) auto
    have "d \<noteq> []" "length (cstr d) < 8192" if "readable r ?fd = Some d" for d using assms(6) that by blast+
    then have "serve_slot name_disconnect r k (fs_emit es s) = Inr (fs_emit (es @ echoes r [?fd]) s)"
      using assms(3,5) k len
      by (cases "readable r ?fd") (auto simp: serve_slot_def slot_input_def echoes_def fs_send_def fs_emit_def not_le Let_def)
    then show ?case
      using Suc.hyps(1) [of "Suc k" "es @ echoes r [?fd]"] Suc.hyps(2) k d
      by (auto simp: upt_conv_Cons echoes_def)
  qed (simp add: echoes_def)
  from this [of 0 "[]"] show ?thesis
    using assms(3,4) by (simp add: name_round_def server_round_def Let_def fs_emit_def)
qed

abbreviation one_client :: fs_server where
  "one_client \<equiv> server_init\<lparr>fs_table := \<lparr>client_fds = 4 # replicate 1023 0, connectcnt = 1\<rparr>\<rparr>"

theorem name_server_echoes_witness:
  "name_round (quiet_round\<lparr>readable := (\<lambda>fd. if fd = 4 then Some ''hi'' else None), send_ok := (\<lambda>_. True)\<rparr>) one_client
     = Inr (fs_emit [Shows (''hi'' @ [NL]), Sends 4 ''hi''] one_client)"
proof -
  have "server_ok one_client"
    by (auto simp: server_ok_def server_init_def clients_ok_def nth_Cons')
  moreover have "cstr ''hi'' = ''hi''" by simp
  ultimately show ?thesis
    using name_server_echoes [of one_client "quiet_round\<lparr>readable := (\<lambda>fd. if fd = 4 then Some ''hi'' else None), send_ok := (\<lambda>_. True)\<rparr>"]
    by (simp add: quiet_round_def echoes_def split: if_splits)
qed

section \<open>Three ways to end a server\<close>

text \<open>
  A free slot of the table holds 0, the descriptor of the standard input. After a client
  has left, a command typed at the server is followed by a second read of the standard input,
  and sending that line to descriptor 0, which is no socket, ends the server.
\<close>

theorem typed_command_ends_server:
  assumes "server_ok s" and "i < connectcnt (fs_table s)" and "connectcnt (fs_table s) \<le> 1024" and "client_fds (fs_table s) ! i = 0"
    and "typed r = Some cmd" and "incoming r = None" and "\<forall>fd. readable r fd = None"
    and "next_typed r \<noteq> []" and "length (cstr (next_typed r)) < 8192" and "\<not> send_ok r 0"
  shows "name_round r s = Inl (Exit 1)"
proof -
  let ?s = "console ''server> '' cmd s" and ?t = "fs_table s"
  have len: "length (client_fds ?t) = 1024" using assms(1) by (simp add: server_ok_def clients_ok_def)
  have slot: "serve_slot name_disconnect r k ?s = (if client_fds ?t ! k = 0 then Inl (Exit 1) else Inr ?s)" if "k < 1024" for k
    using that len assms(5,7-10) by (simp add: serve_slot_def slot_input_def Let_def fs_send_def)
  have "serve_slots name_disconnect r [k..<connectcnt ?t] ?s = Inl (Exit 1)" if "k \<le> i" for k
    using that
  proof (induction "i - k" arbitrary: k)
    case 0
    then have "[k..<connectcnt ?t] = i # [Suc i..<connectcnt ?t]" using assms(2) by (simp add: upt_conv_Cons)
    then show ?case using slot [of i] assms(2-4) by simp
  next
    case (Suc n)
    then have "[k..<connectcnt ?t] = k # [Suc k..<connectcnt ?t]" using assms(2) by (simp add: upt_conv_Cons)
    then show ?case using Suc.hyps(1) [of "Suc k"] Suc.hyps(2) slot [of k] assms(2,3) by auto
  qed
  from this [of 0] show ?thesis using assms(5,6) by (simp add: name_round_def server_round_def Let_def)
qed

theorem typed_command_ends_server_witness:
  "name_round (quiet_round\<lparr>typed := Some ''count'', next_typed := ''count''\<rparr>)
     (server_init\<lparr>fs_table := \<lparr>client_fds = replicate 1024 0, connectcnt = 1\<rparr>\<rparr>) = Inl (Exit 1)"
proof -
  let ?s = "server_init\<lparr>fs_table := \<lparr>client_fds = replicate 1024 0, connectcnt = 1\<rparr>\<rparr>"
  have "server_ok ?s" by (auto simp: server_ok_def server_init_def clients_ok_def)
  then show ?thesis
    using typed_command_ends_server [of ?s 0 "quiet_round\<lparr>typed := Some ''count'', next_typed := ''count''\<rparr>" "''count''"]
    by (simp add: quiet_round_def)
qed

lemma data_connection_counts:
  assumes "data_round r s = Inr s'" and "incoming r \<noteq> None"
  shows "fs_curr s' = Suc (fs_curr s) \<and> fs_curr s < 3"
proof -
  let ?s = "case typed r of None \<Rightarrow> s | Some l \<Rightarrow> console ''node> '' l s"
  obtain fd buf sz where c: "incoming r = Some (fd, buf, sz)" using assms(2) by auto
  have "accept_connection (Some 3) data_request r (fd, buf, sz) ?s = Inr s'"
    using assms(1) c by (simp add: data_round_def server_round_def Let_def)
  then have "fs_curr s' = Suc (fs_curr ?s) \<and> fs_curr ?s < 3"
    by (auto simp: accept_connection_def Let_def not_le split: if_splits dest!: answer_keeps)
  then show ?thesis by (simp split: option.splits)
qed

text \<open>
  The data server keeps the sockets of all connections it ever accepts in a table of three
  entries: it survives at most three connections, whoever has left in between. Its tree
  stays uninitialised.
\<close>

theorem data_server_three_connections:
  assumes "rfold (\<lambda>s r. data_round r s) server_init rs = Inr s"
    and "\<forall>r \<in> set rs. \<exists>fd buf sz. incoming r = Some (fd, buf, sz) \<and> 0 < fd"
  shows "length rs \<le> 3 \<and> fs_curr s = length rs \<and> fs_root s = None"
proof -
  have "length rs + fs_curr s0 \<le> max 3 (fs_curr s0) \<and> fs_curr s = fs_curr s0 + length rs"
    if "rfold (\<lambda>s r. data_round r s) s0 rs = Inr s" for s0
    using that assms(2)
  proof (induction rs arbitrary: s0)
    case (Cons r rs)
    then obtain s1 where s1: "data_round r s0 = Inr s1" "rfold (\<lambda>s r. data_round r s) s1 rs = Inr s" by auto
    then show ?case using Cons data_connection_counts [OF s1(1)] by fastforce
  qed simp
  from this [OF assms(1)] have "length rs \<le> 3 \<and> fs_curr s = length rs" by (simp add: server_init_def)
  moreover have "slots_ok (fs_table server_init)" "fs_root server_init = None"
    by (simp_all add: server_init_def slots_ok_def init_clients_def)
  then have "fs_root s = None"
    using data_server.rounds_ok [OF assms(1) [unfolded data_round_def]] assms(2) by force
  ultimately show ?thesis by simp
qed

theorem data_server_three_connections_witness:
  "\<exists>s. rfold (\<lambda>s r. data_round r s) server_init [quiet_round\<lparr>incoming := Some (4, ''xhello'', ''5'')\<rparr>] = Inr s \<and> fs_curr s = 1"
proof -
  let ?r = "quiet_round\<lparr>incoming := Some (4, ''xhello'', ''5'')\<rparr>"
  have slots: "replicate 1024 (0 :: int) = 0 # replicate 1023 0" using replicate_Suc [of 1023 "0 :: int"] by simp
  have req: "data_request None ''xhello'' ''5'' = Inr (Echo (echo_text ''xhello''), None)"
    by (simp add: data_request_def operation_def split_string_def)
  have "accept_client 4 init_clients = Inr \<lparr>client_fds = 4 # replicate 1023 0, connectcnt = 1\<rparr>"
    by (simp add: accept_client_def init_clients_def slots)
  then obtain s1 where "data_round ?r server_init = Inr s1"
    by (simp add: data_round_def server_round_def quiet_round_def accept_connection_def server_init_def crash_def req
        answer_def fs_send_def fs_emit_def)
  then have run: "rfold (\<lambda>s r. data_round r s) server_init [?r] = Inr s1" by simp
  moreover have "\<forall>r \<in> set [?r]. \<exists>fd buf sz. incoming r = Some (fd, buf, sz) \<and> 0 < fd" by simp
  ultimately show ?thesis using data_server_three_connections [OF run] by auto
qed

section \<open>From the client to the file name server\<close>

lemma strtok_two:
  assumes "word u" and "word v"
  shows "split_string (u @ CHR '' '' # v) = Inr [u, v]"
  using split_words [of "[u, v]"] assms by simp

text \<open>
  The line \<open>cat\<close> with a file name, typed at the client, is sent to the file name server
  behind the name of the client; the server finds the request behind the colon and answers
  with the name of the file, with the newline that was typed. Nothing else is sent.
\<close>

theorem cat_request_answered:
  assumes "word (f @ [NL])" and "CHR '':'' \<notin> set name" and "length name < 100"
  shows "\<exists>m. client_line file_size_of name (''cat '' @ f @ [NL]) = Inr (True, [To_name_server m, Tells ''client > ''])
    \<and> request None m = Inr (Send (f @ [NL]), None)"
proof -
  let ?msg = "''cat '' @ f @ [NL]"
  have len: "length f < 99" using assms(1) by (simp add: word_def)
  have split: "split_string ?msg = Inr [''cat'', f @ [NL]]"
    using strtok_two [of "''cat''" "f @ [NL]"] assms(1) by (simp add: word_def)
  have "\<not> strncmp_eq ?msg ''exit'' 4" by (simp add: strncmp_eq_def)
  then have "client_line file_size_of name ?msg = Inr (True, [To_name_server (name @ CHR '':'' # ?msg), Tells ''client > ''])"
    using split len assms(3) by (simp add: client_line_def Let_def)
  moreover have "drop 1 (dropWhile (\<lambda>c. c \<noteq> CHR '':'') (name @ CHR '':'' # ?msg)) = ?msg"
    using behind_colon [OF assms(2)] by simp
  then have "request None (name @ CHR '':'' # ?msg) = Inr (Send (f @ [NL]), None)"
    using split len by (simp add: request_def operation_def Let_def del: drop_Suc_Cons)
  ultimately show ?thesis by blast
qed

theorem cat_request_answered_witness:
  "\<exists>m. client_line (\<lambda>_. None) ''1'' (''cat a.txt'' @ [NL]) = Inr (True, [To_name_server m, Tells ''client > ''])
     \<and> request None m = Inr (Send (''a.txt'' @ [NL]), None)"
  using cat_request_answered [of "''a.txt''" "''1''" "\<lambda>_. None"] by (simp add: word_def)

end
