(* ===== verification/BigFS_Copy.thy ===== *)
theory BigFS_Copy
  imports BigFS_Servers
begin

text \<open>
  The rest of \<open>BigFileSystem\<close>: how the three programs start, the reading of a file into inodes,
  and the copying of a file, which the client does with two threads. The threads share the
  descriptor of the file with its position, and get their node number through a structure on
  the stack of the main thread; they are steps over a common state. Main results: a thread that
  runs alone sends the blocks of its node; interleaved threads send wrong blocks; both can act
  for the second node; and a copy ends both kinds of servers.
\<close>

section \<open>Starting the servers\<close>

text \<open>The directories created below the working directory, whose name is copied to 256 bytes.\<close>

definition init_dirs_per_node :: "(string \<Rightarrow> bool) \<Rightarrow> string \<Rightarrow> cerror + string list" where
  "init_dirs_per_node exists ABS_DIR =
     (if 256 \<le> length ABS_DIR then Inl Overflow
      else Inr (filter (\<lambda>d. \<not> exists d) (map (\<lambda>i. ABS_DIR @ ''/node'' @ string_of_nat i) [1..<3])))"

text \<open>
  The start of \<open>main\<close>: \<open>args\<close> is the required number of arguments. When \<open>getcwd\<close> fails the program
  goes on with an empty name. The last argument says whether \<open>socket\<close>, \<open>bind\<close> and \<open>listen\<close> succeed.
\<close>

definition server_start :: "nat \<Rightarrow> string \<Rightarrow> string list \<Rightarrow> string option \<Rightarrow> (string \<Rightarrow> bool) \<Rightarrow> bool
    \<Rightarrow> server_end + string list \<times> fs_server" where
  "server_start args prompt argv cwd exists up =
     (if length argv \<noteq> args then Inl (Exit 1)
      else rbind (crash (init_dirs_per_node exists (case cwd of None \<Rightarrow> [] | Some d \<Rightarrow> d))) (\<lambda>dirs.
        if up then Inr (dirs, fs_emit [Shows prompt] server_init) else Inl (Exit 1)))"

definition name_start :: "string list \<Rightarrow> string option \<Rightarrow> (string \<Rightarrow> bool) \<Rightarrow> bool \<Rightarrow> server_end + string list \<times> fs_server" where
  "name_start = server_start 2 ''server> ''"

definition data_start :: "string list \<Rightarrow> string option \<Rightarrow> (string \<Rightarrow> bool) \<Rightarrow> bool \<Rightarrow> server_end + string list \<times> fs_server" where
  "data_start = server_start 3 ''node> ''"

section \<open>Inodes\<close>

text \<open>The printing loop of \<open>init_inode_readonly\<close>; the buffer is zeroed once and keeps old blocks.\<close>

primrec inode_blocks :: "nat \<Rightarrow> bytes \<Rightarrow> bytes \<Rightarrow> string list" where
  "inode_blocks 0 F buffer = []"
| "inode_blocks (Suc k) F buffer =
     (let d = take 10240 F; buffer = d @ drop (length d) buffer;
          shown = ''Buffer = '' @ cstr buffer @ [NL, NL] in
      if d = [] then [''Reached EOF'' @ [NL]]
      else if length d < 10240
      then [shown, ''EOF is reached in '' @ string_of_nat (10240 - length d) @ '' bytes'' @ [NL]]
      else shown # inode_blocks k (drop 10240 F) buffer)"

text \<open>
  The inodes: the array has an entry for each server, the loop goes up to the number of blocks
  for a server. A file that cannot be opened has no content.
\<close>

definition init_inode_readonly :: "string \<Rightarrow> bytes option \<Rightarrow> cerror + string list \<times> u64 list" where
  "init_inode_readonly filename F =
     rbind (div_BLOCK_SIZE (get_file_size (map_option length F))) (\<lambda>blocks.
       let printed = (case F of None \<Rightarrow> [] | Some d \<Rightarrow> inode_blocks (nat blocks) d (replicate 20480 NUL));
           max_blocks_per_server = (blocks + 1) sdiv NUM_SERVERS + 1 in
       if NUM_SERVERS < max_blocks_per_server then Inl Overflow
       else Inr (printed, replicate (nat max_blocks_per_server) (hash filename)))"

section \<open>Starting the client\<close>

text \<open>
  The addresses and ports of the three servers from the arguments, the name server at a fixed
  port. \<open>junk\<close> is the value of the entry of \<open>PORTS\<close> that is printed but never set. The client goes
  on when all connections succeed, and closes those it has otherwise.
\<close>

definition fs_client_start :: "string list \<Rightarrow> int \<Rightarrow> (string \<times> int \<Rightarrow> bool)
    \<Rightarrow> cerror + string list \<times> (string \<times> int) list option" where
  "fs_client_start argv junk connects =
     (if length argv \<noteq> 7
      then Inr ([''Format : ./client NUMBER IP_ADDRESS0 PORT_1 IP_ADDRESS1 PORT_2 IP_ADDRESS2 ...'' @ [NL]], None)
      else let ips = [argv ! 2, argv ! 4, argv ! 6]; ports = [atoi (argv ! 3), atoi (argv ! 5)] in
        if list_ex (\<lambda>a. 256 \<le> length a) ips \<or> 100 \<le> length (argv ! 1) then Inl Overflow
        else let table = map (\<lambda>(a, p). a @ '', '' @ string_of_int p @ [NL]) (zip ips (ports @ [junk]));
                 numbers = map (\<lambda>i. string_of_nat i @ [NL]) [0..<3];
                 targets = zip ips (8080 # ports);
                 named = (\<lambda>i. if i = 0 then ''FileNameServer'' else ''Node'' @ string_of_nat i);
                 good = length (takeWhile connects targets);
                 log = concat (map (\<lambda>i. [''Connecting to '' @ named i @ ''....'' @ [NL], ''Connected to '' @ named i @ ''!'' @ [NL]]) [0..<good])
             in if good = 3 then Inr (table @ numbers @ log @ [''client > ''], Some targets)
                else Inr (table @ numbers @ log @ [''Connecting to '' @ named good @ ''....'' @ [NL], ips ! good @ [NL],
                  ''Connection to socket failed '' @ [NL], ''Closing the Socket. Try again later'' @ [NL]], None))"

section \<open>The sending threads\<close>

datatype sn_pc = Params | Seek | Reading | Writing | Finished | Broken

record sender =
  sn_pc :: sn_pc
  sn_node :: int
  sn_offset :: int
  sn_left :: int
  sn_buff :: bytes

text \<open>
  The state of a copy: the position of the descriptor, the structure \<open>data\<close>, whose value is lost
  at the end of every iteration of the loop that creates the threads, and the blocks written to
  the socket of each node.
\<close>

record copy_sys =
  cp_pos :: nat
  cp_data :: "int option"
  cp_senders :: "sender list"
  cp_sent :: "int \<Rightarrow> bytes list"

definition copy_init :: copy_sys where
  "copy_init = \<lparr>cp_pos = 0, cp_data = None, cp_senders = [], cp_sent = (\<lambda>_. [])\<rparr>"

text \<open>The loop of the main thread: setting the structure and creating a thread, and leaving the body.\<close>

definition copy_create :: "bytes \<Rightarrow> copy_sys \<Rightarrow> copy_sys option" where
  "copy_create junk s =
     (if cp_data s = None \<and> length (cp_senders s) < 2 \<and> length junk = 10240
      then Some (s\<lparr>cp_data := Some (int (length (cp_senders s)) + 1),
        cp_senders := cp_senders s @ [\<lparr>sn_pc = Params, sn_node = 0, sn_offset = 0, sn_left = 0, sn_buff = junk\<rparr>]\<rparr>)
      else None)"

definition copy_leave :: "copy_sys \<Rightarrow> copy_sys option" where
  "copy_leave s = (if cp_data s = None then None else Some (s\<lparr>cp_data := None\<rparr>))"

text \<open>
  One step of a thread: reading its parameters, and the three calls of the loop. A short read
  leaves the rest of the buffer; the whole buffer is written in any case. The number of blocks
  and the offset are signed 32-bit integers, and a thread whose arithmetic overflows is broken.
\<close>

definition next_pc :: "int \<Rightarrow> sn_pc" where
  "next_pc left = (if 0 < left then Seek else Finished)"

definition sn_params :: "bytes \<Rightarrow> int option \<Rightarrow> sender \<Rightarrow> sender" where
  "sn_params F d t = (case d of
      None \<Rightarrow> t\<lparr>sn_pc := Broken\<rparr>
    | Some n \<Rightarrow> (case blocks_in_node (get_file_size (Some (length F))) n of
          Inl e \<Rightarrow> t\<lparr>sn_node := n, sn_pc := Broken\<rparr>
        | Inr b \<Rightarrow> t\<lparr>sn_node := n, sn_offset := 10240 * (n - 1), sn_left := b, sn_pc := next_pc b\<rparr>))"

definition sn_read :: "bytes \<Rightarrow> nat \<Rightarrow> sender \<Rightarrow> sender" where
  "sn_read F pos t = (let d = take 10240 (drop pos F) in
     t\<lparr>sn_buff := d @ drop (length d) (sn_buff t), sn_pc := Writing\<rparr>)"

definition sn_written :: "sender \<Rightarrow> sender" where
  "sn_written t = (if 2 ^ 31 \<le> sn_offset t + 10240 then t\<lparr>sn_pc := Broken\<rparr>
     else t\<lparr>sn_left := sn_left t - 1, sn_offset := sn_offset t + 10240, sn_pc := next_pc (sn_left t - 1)\<rparr>)"

definition sender_step :: "bytes \<Rightarrow> nat \<Rightarrow> copy_sys \<Rightarrow> copy_sys option" where
  "sender_step F k s =
     (if length (cp_senders s) \<le> k then None
      else let t = cp_senders s ! k; set = (\<lambda>t'. s\<lparr>cp_senders := (cp_senders s)[k := t']\<rparr>) in
        case sn_pc t of
          Params \<Rightarrow> Some (set (sn_params F (cp_data s) t))
        | Seek \<Rightarrow> Some ((set (t\<lparr>sn_pc := Reading\<rparr>))\<lparr>cp_pos := nat (sn_offset t)\<rparr>)
        | Reading \<Rightarrow> Some ((set (sn_read F (cp_pos s) t))\<lparr>cp_pos := cp_pos s + length (take 10240 (drop (cp_pos s) F))\<rparr>)
        | Writing \<Rightarrow> Some ((set (sn_written t))\<lparr>cp_sent := (cp_sent s)(sn_node t := cp_sent s (sn_node t) @ [sn_buff t])\<rparr>)
        | _ \<Rightarrow> None)"

inductive copy_step :: "bytes \<Rightarrow> copy_sys \<Rightarrow> copy_sys \<Rightarrow> bool" for F where
  creates: "copy_create junk s = Some t \<Longrightarrow> copy_step F s t"
| leaves: "copy_leave s = Some t \<Longrightarrow> copy_step F s t"
| sends: "sender_step F k s = Some t \<Longrightarrow> copy_step F s t"

inductive copy_reach :: "bytes \<Rightarrow> copy_sys \<Rightarrow> copy_sys \<Rightarrow> bool" for F where
  here: "copy_reach F s s"
| step: "copy_reach F s t \<Longrightarrow> copy_step F t u \<Longrightarrow> copy_reach F s u"

text \<open>A thread that runs alone for \<open>k\<close> steps.\<close>

primrec alone :: "bytes \<Rightarrow> nat \<Rightarrow> nat \<Rightarrow> copy_sys \<Rightarrow> copy_sys option" where
  "alone F k 0 s = Some s"
| "alone F k (Suc n) s = Option.bind (sender_step F k s) (alone F k n)"

text \<open>The blocks read at given offsets into a buffer that keeps what a short read leaves.\<close>

primrec blocks_read :: "bytes \<Rightarrow> bytes \<Rightarrow> int list \<Rightarrow> bytes list" where
  "blocks_read F b [] = []"
| "blocks_read F b (off # offs) = (let d = take 10240 (drop (nat off) F); b' = d @ drop (length d) b in
     b' # blocks_read F b' offs)"

section \<open>A thread alone\<close>

lemma length_blocks_read: "length (blocks_read F b offs) = length offs"
  by (induction offs arbitrary: b) (simp_all add: Let_def)

lemma sender_step_at:
  assumes "k < length (cp_senders s)" and "cp_senders s ! k = t"
  shows "sn_pc t = Params \<Longrightarrow> sender_step F k s = Some (s\<lparr>cp_senders := (cp_senders s)[k := sn_params F (cp_data s) t]\<rparr>)"
    and "sn_pc t = Seek \<Longrightarrow> sender_step F k s
      = Some (s\<lparr>cp_senders := (cp_senders s)[k := t\<lparr>sn_pc := Reading\<rparr>], cp_pos := nat (sn_offset t)\<rparr>)"
    and "sn_pc t = Reading \<Longrightarrow> sender_step F k s = Some (s\<lparr>cp_senders := (cp_senders s)[k := sn_read F (cp_pos s) t],
        cp_pos := cp_pos s + length (take 10240 (drop (cp_pos s) F))\<rparr>)"
    and "sn_pc t = Writing \<Longrightarrow> sender_step F k s = Some (s\<lparr>cp_senders := (cp_senders s)[k := sn_written t],
        cp_sent := (cp_sent s)(sn_node t := cp_sent s (sn_node t) @ [sn_buff t])\<rparr>)"
  using assms by (simp_all add: sender_step_def Let_def)

lemma alone_add: "alone F k (m + n) s = Option.bind (alone F k m s) (alone F k n)"
  by (induction m arbitrary: s) (auto split: bind_split)

lemma sender_three:
  assumes k: "k < length (cp_senders s)" and t: "cp_senders s ! k = t" and pc: "sn_pc t = Seek"
    and d: "d = take 10240 (drop (nat (sn_offset t)) F)" and b: "b = d @ drop (length d) (sn_buff t)"
  obtains s' where "alone F k 3 s = Some s'" "length (cp_senders s') = length (cp_senders s)"
    "cp_senders s' ! k = sn_written (t\<lparr>sn_buff := b, sn_pc := Writing\<rparr>)"
    "cp_sent s' = (cp_sent s)(sn_node t := cp_sent s (sn_node t) @ [b])"
proof -
  let ?s1 = "s\<lparr>cp_senders := (cp_senders s)[k := t\<lparr>sn_pc := Reading\<rparr>], cp_pos := nat (sn_offset t)\<rparr>"
  let ?t2 = "t\<lparr>sn_buff := b, sn_pc := Writing\<rparr>"
  let ?s2 = "?s1\<lparr>cp_senders := (cp_senders s)[k := ?t2], cp_pos := nat (sn_offset t) + length d\<rparr>"
  let ?s3 = "?s2\<lparr>cp_senders := (cp_senders s)[k := sn_written ?t2],
    cp_sent := (cp_sent s)(sn_node t := cp_sent s (sn_node t) @ [b])\<rparr>"
  have "sender_step F k s = Some ?s1" using sender_step_at(2) [OF k t pc] by simp
  moreover have "sender_step F k ?s1 = Some ?s2"
    using sender_step_at(3) [of k ?s1 "t\<lparr>sn_pc := Reading\<rparr>" F] k d b by (simp add: sn_read_def Let_def)
  moreover have "sender_step F k ?s2 = Some ?s3"
    using sender_step_at(4) [of k ?s2 ?t2 F] k by simp
  ultimately have "alone F k 3 s = Some ?s3" by (simp add: numeral_3_eq_3)
  then show ?thesis using k by (intro that [of ?s3]) simp_all
qed

lemma sender_round:
  assumes k: "k < length (cp_senders s)" and t: "cp_senders s ! k = t" and pc: "sn_pc t = Seek"
    and off: "sn_offset t + 10240 < 2 ^ 31" and d: "d = take 10240 (drop (nat (sn_offset t)) F)"
    and b: "b = d @ drop (length d) (sn_buff t)"
  obtains s' where "alone F k 3 s = Some s'" "length (cp_senders s') = length (cp_senders s)"
    "cp_senders s' ! k = t\<lparr>sn_buff := b, sn_left := sn_left t - 1, sn_offset := sn_offset t + 10240, sn_pc := next_pc (sn_left t - 1)\<rparr>"
    "cp_sent s' = (cp_sent s)(sn_node t := cp_sent s (sn_node t) @ [b])"
  by (rule sender_three [OF k t pc d b]) (use off in \<open>auto simp: sn_written_def intro!: that\<close>)

text \<open>The buffer after some blocks.\<close>

definition buffer_after :: "bytes \<Rightarrow> bytes \<Rightarrow> int list \<Rightarrow> bytes" where
  "buffer_after F b offs = last (b # blocks_read F b offs)"

lemma buffer_after_Cons: "buffer_after F b (off # offs)
    = buffer_after F (take 10240 (drop (nat off) F) @ drop (length (take 10240 (drop (nat off) F))) b) offs"
  by (simp add: buffer_after_def Let_def)

lemma blocks_read_snoc: "d = take 10240 (drop (nat off) F) \<Longrightarrow>
    blocks_read F b (offs @ [off]) = blocks_read F b offs @ [d @ drop (length d) (buffer_after F b offs)]"
  by (induction offs arbitrary: b) (simp_all add: buffer_after_def Let_def)

definition block_offsets :: "int \<Rightarrow> nat \<Rightarrow> int list" where
  "block_offsets off m = map (\<lambda>i. off + int i * 10240) [0..<m]"

lemma block_offsets_Suc: "block_offsets off (Suc m) = off # block_offsets (off + 10240) m"
proof -
  have "[0..<Suc m] = 0 # map Suc [0..<m]" by (simp add: map_Suc_upt upt_conv_Cons del: upt_Suc)
  then show ?thesis by (simp add: block_offsets_def comp_def algebra_simps del: upt_Suc)
qed

lemma sender_rounds:
  assumes "k < length (cp_senders s)" and "cp_senders s ! k = t" and "int m \<le> sn_left t" and "sn_pc t = next_pc (sn_left t)"
    and "sn_offset t + 10240 * int m < 2 ^ 31"
  shows "\<exists>s'. alone F k (3 * m) s = Some s' \<and> length (cp_senders s') = length (cp_senders s)
    \<and> cp_sent s' = (cp_sent s)(sn_node t := cp_sent s (sn_node t) @ blocks_read F (sn_buff t) (block_offsets (sn_offset t) m))
    \<and> cp_senders s' ! k = t\<lparr>sn_buff := buffer_after F (sn_buff t) (block_offsets (sn_offset t) m),
         sn_left := sn_left t - int m, sn_offset := sn_offset t + 10240 * int m, sn_pc := next_pc (sn_left t - int m)\<rparr>"
  using assms
proof (induction m arbitrary: s t)
  case 0
  then show ?case by (auto simp: block_offsets_def buffer_after_def)
next
  case (Suc m)
  let ?d = "take 10240 (drop (nat (sn_offset t)) F)"
  let ?b = "?d @ drop (length ?d) (sn_buff t)"
  let ?t = "t\<lparr>sn_buff := ?b, sn_left := sn_left t - 1, sn_offset := sn_offset t + 10240, sn_pc := next_pc (sn_left t - 1)\<rparr>"
  have pc: "sn_pc t = Seek" and off: "sn_offset t + 10240 < 2 ^ 31" using Suc.prems by (auto simp: next_pc_def)
  obtain s1 where s1: "alone F k 3 s = Some s1" "length (cp_senders s1) = length (cp_senders s)"
    "cp_senders s1 ! k = ?t" "cp_sent s1 = (cp_sent s)(sn_node t := cp_sent s (sn_node t) @ [?b])"
    by (rule sender_round [OF Suc.prems(1,2) pc off refl refl])
  have k: "k < length (cp_senders s1)" using Suc.prems(1) s1(2) by simp
  have pc1: "sn_pc ?t = next_pc (sn_left ?t)" by simp
  have left: "int m \<le> sn_left ?t" and over: "sn_offset ?t + 10240 * int m < 2 ^ 31" using Suc.prems(3,5) by simp_all
  obtain s2 where s2: "alone F k (3 * m) s1 = Some s2" "length (cp_senders s2) = length (cp_senders s1)"
    "cp_sent s2 = (cp_sent s1)(sn_node ?t := cp_sent s1 (sn_node ?t) @ blocks_read F (sn_buff ?t) (block_offsets (sn_offset ?t) m))"
    "cp_senders s2 ! k = ?t\<lparr>sn_buff := buffer_after F (sn_buff ?t) (block_offsets (sn_offset ?t) m),
         sn_left := sn_left ?t - int m, sn_offset := sn_offset ?t + 10240 * int m, sn_pc := next_pc (sn_left ?t - int m)\<rparr>"
    using Suc.IH [OF k s1(3) left pc1 over] by (elim exE conjE) (rule that; assumption)
  have "alone F k (3 * Suc m) s = Some s2" using alone_add [of F k 3 "3 * m" s] s1(1) s2(1) by simp
  then show ?case using s2(2-4) s1(2,4)
    by (intro exI [of _ s2]) (simp add: block_offsets_Suc buffer_after_Cons Let_def algebra_simps)
qed

text \<open>The last block before the offset would overflow is still written, and breaks the thread.\<close>

lemma sender_breaks:
  assumes k: "k < length (cp_senders s)" and t: "cp_senders s ! k = t" and pc: "sn_pc t = Seek"
    and off: "2 ^ 31 \<le> sn_offset t + 10240" and d: "d = take 10240 (drop (nat (sn_offset t)) F)"
    and b: "b = d @ drop (length d) (sn_buff t)"
  shows "\<exists>s'. alone F k 3 s = Some s' \<and> cp_sent s' = (cp_sent s)(sn_node t := cp_sent s (sn_node t) @ [b])
    \<and> sn_pc (cp_senders s' ! k) = Broken"
  by (rule sender_three [OF k t pc d b]) (use off k in \<open>auto simp: sn_written_def\<close>)

section \<open>Properties\<close>

lemma send_files_offsets:
  "fst (send_files sz n) = (case blocks_in_node sz n of
      Inl e \<Rightarrow> [] | Inr b \<Rightarrow> block_offsets (10240 * (n - 1)) (nat (min b (max_blocks n))))"
  "snd (send_files sz n) = (case blocks_in_node sz n of Inl e \<Rightarrow> False | Inr b \<Rightarrow> b < max_blocks n)"
  by (simp_all add: send_files_def block_offsets_def split: sum.splits)

text \<open>A thread with its parameters: it sends its blocks, or as many as its offset allows.\<close>

lemma sender_sends:
  assumes k: "k < length (cp_senders s)" and t: "cp_senders s ! k = t" and pc: "sn_pc t = next_pc b" and b: "sn_left t = b"
    and off: "sn_offset t = 10240 * (n - 1)" and n: "n = 1 \<or> n = 2" and nd: "sn_node t = n"
    and offs: "offs = block_offsets (10240 * (n - 1)) (nat (min b (max_blocks n)))"
  shows "\<exists>s'. alone F k (3 * length offs) s = Some s'
    \<and> sn_pc (cp_senders s' ! k) = (if b < max_blocks n then Finished else Broken)
    \<and> cp_sent s' = (cp_sent s)(n := cp_sent s n @ blocks_read F (sn_buff t) offs)"
proof (cases "b < max_blocks n")
  case True
  then have offs: "offs = block_offsets (10240 * (n - 1)) (nat b)" using offs by (simp add: min_def)
  then have len: "length offs = nat b" by (simp add: block_offsets_def)
  show ?thesis
  proof (cases "0 \<le> b")
    case True
    have "10240 * (n - 1) + 10240 * b < 2 ^ 31" using \<open>b < max_blocks n\<close> n by (auto simp: max_blocks_def)
    then show ?thesis using sender_rounds [OF k t, of "nat b" F] True pc b off nd len offs \<open>b < max_blocks n\<close>
      by (auto simp: next_pc_def)
  next
    case False
    then show ?thesis using pc t offs \<open>b < max_blocks n\<close> by (simp add: next_pc_def block_offsets_def)
  qed
next
  case False
  define m where "m = nat (max_blocks n - 1)"
  have m: "int m = max_blocks n - 1" "int m < b" using n False by (auto simp: m_def max_blocks_def)
  have "min b (max_blocks n) = int (Suc m)" using False m(1) by simp
  then have o: "offs = block_offsets (10240 * (n - 1)) m @ [10240 * (n - 1) + int m * 10240]"
    unfolding offs by (simp only: nat_int) (simp add: block_offsets_def)
  have "10240 * (n - 1) + 10240 * int m < 2 ^ 31" using m n by (auto simp: max_blocks_def)
  then obtain s1 where s1: "alone F k (3 * m) s = Some s1" "length (cp_senders s1) = length (cp_senders s)"
    "cp_sent s1 = (cp_sent s)(n := cp_sent s n @ blocks_read F (sn_buff t) (block_offsets (10240 * (n - 1)) m))"
    "cp_senders s1 ! k = t\<lparr>sn_buff := buffer_after F (sn_buff t) (block_offsets (10240 * (n - 1)) m),
         sn_left := b - int m, sn_offset := 10240 * (n - 1) + 10240 * int m, sn_pc := next_pc (b - int m)\<rparr>"
    using sender_rounds [OF k t, of m F] m pc b off nd by auto
  let ?t1 = "cp_senders s1 ! k"
  have t1: "sn_pc ?t1 = Seek" "2 ^ 31 \<le> sn_offset ?t1 + 10240" "sn_node ?t1 = n"
    using s1(4) m n nd by (auto simp: next_pc_def max_blocks_def)
  obtain s2 where s2: "alone F k 3 s1 = Some s2" "sn_pc (cp_senders s2 ! k) = Broken"
    "cp_sent s2 = (cp_sent s1)(n := cp_sent s1 n @ [take 10240 (drop (nat (sn_offset ?t1)) F)
        @ drop (length (take 10240 (drop (nat (sn_offset ?t1)) F))) (sn_buff ?t1)])"
    using sender_breaks [of k s1 ?t1 _ F, OF _ refl t1(1,2) refl refl] k s1(2) t1(3) by auto
  have "3 * length offs = 3 * m + 3" by (simp add: o block_offsets_def)
  then have "alone F k (3 * length offs) s = Some s2" using alone_add [of F k "3 * m" 3 s] s1(1) s2(1) by simp
  moreover have "sn_buff ?t1 = buffer_after F (sn_buff t) (block_offsets (10240 * (n - 1)) m)"
    "sn_offset ?t1 = 10240 * (n - 1) + int m * 10240" by (simp_all add: s1(4))
  ultimately show ?thesis using s2(2,3) s1(3) False by (simp add: o blocks_read_snoc [OF refl])
qed

text \<open>
  C36. A thread of the copy that reads its node number in time and runs without interference
  does what \<open>send_files\<close> describes, for a file of any size: it has written to the socket of its
  node the blocks of the file at the offsets of that node in order, each a full block in which a
  short read leaves the bytes of the block before, and it ends; when the number of blocks or an
  offset does not fit into 32 bits, it has sent the blocks up to that overflow.
\<close>

theorem sender_alone_sends_blocks:
  assumes "k < length (cp_senders s)" and "sn_pc (cp_senders s ! k) = Params" and "cp_data s = Some n" and "n = 1 \<or> n = 2"
    and "send_files (get_file_size (Some (length F))) n = (offs, ok)"
  shows "\<exists>s'. alone F k (1 + 3 * length offs) s = Some s' \<and> sn_pc (cp_senders s' ! k) = (if ok then Finished else Broken)
    \<and> cp_sent s' = (cp_sent s)(n := cp_sent s n @ blocks_read F (sn_buff (cp_senders s ! k)) offs)"
proof -
  let ?t = "cp_senders s ! k" and ?sz = "get_file_size (Some (length F))"
  let ?t1 = "sn_params F (cp_data s) ?t"
  let ?s1 = "s\<lparr>cp_senders := (cp_senders s)[k := ?t1]\<rparr>"
  have step: "sender_step F k s = Some ?s1" using sender_step_at(1) [OF assms(1) refl assms(2)] .
  have f: "offs = fst (send_files ?sz n)" "ok = snd (send_files ?sz n)" using assms(5) by simp_all
  show ?thesis
  proof (cases "blocks_in_node ?sz n")
    case (Inl e)
    then show ?thesis using step assms(1,3) f by (simp add: send_files_offsets sn_params_def)
  next
    case (Inr b)
    then have t1: "?t1 = ?t\<lparr>sn_node := n, sn_offset := 10240 * (n - 1), sn_left := b, sn_pc := next_pc b\<rparr>"
      and o: "offs = block_offsets (10240 * (n - 1)) (nat (min b (max_blocks n)))" and ok: "ok = (b < max_blocks n)"
      using assms(3) f by (simp_all add: send_files_offsets sn_params_def)
    have "\<exists>s'. alone F k (3 * length offs) ?s1 = Some s' \<and> sn_pc (cp_senders s' ! k) = (if b < max_blocks n then Finished else Broken)
        \<and> cp_sent s' = (cp_sent ?s1)(n := cp_sent ?s1 n @ blocks_read F (sn_buff ?t1) offs)"
      by (rule sender_sends [OF _ _ _ _ _ assms(4) _ o]) (use assms(1) t1 in simp_all)
    then show ?thesis using step t1 ok by auto
  qed
qed

theorem sender_alone_sends_blocks_witness:
  "\<exists>s s'. copy_create (replicate 10240 (CHR ''x'')) copy_init = Some s \<and> alone ''0123456789'' 0 3073 s = Some s'
     \<and> sn_pc (cp_senders s' ! 0) = Finished \<and> length (cp_sent s' 1) = 1024"
proof -
  let ?F = "''0123456789''" and ?j = "replicate 10240 (CHR ''x'')"
  let ?t = "\<lparr>sn_pc = Params, sn_node = 0, sn_offset = 0, sn_left = 0, sn_buff = ?j\<rparr>"
  let ?s = "copy_init\<lparr>cp_data := Some 1, cp_senders := [?t]\<rparr>"
  have c: "copy_create ?j copy_init = Some ?s" by (simp add: copy_create_def copy_init_def)
  define offs where "offs = fst (send_files (get_file_size (Some (length ?F))) 1)"
  have "send_files (get_file_size (Some (length ?F))) 1 = (map (\<lambda>i. int i * 10240) [0..<1024], True)"
    using get_file_size_small [of "length ?F"]
    by (simp add: send_files_def blocks_in_node_def mod_BLOCK_SIZE_def div_BLOCK_SIZE_nonneg nonneg_quotients max_blocks_def NUM_SERVERS_def)
  then have o: "length offs = 1024" and f: "send_files (get_file_size (Some (length ?F))) 1 = (offs, True)"
    by (simp_all add: offs_def)
  have "\<exists>s'. alone ?F 0 (1 + 3 * length offs) ?s = Some s' \<and> sn_pc (cp_senders s' ! 0) = (if True then Finished else Broken)
    \<and> cp_sent s' = (cp_sent ?s)(1 := cp_sent ?s 1 @ blocks_read ?F (sn_buff (cp_senders ?s ! 0)) offs)"
    by (rule sender_alone_sends_blocks [OF _ _ _ _ f]) simp_all
  then obtain s' where "alone ?F 0 3073 ?s = Some s'" "sn_pc (cp_senders s' ! 0) = Finished"
      "cp_sent s' 1 = blocks_read ?F ?j offs"
    unfolding o by (auto simp: copy_init_def)
  then show ?thesis using c o length_blocks_read [of ?F ?j offs] by (intro exI [of _ ?s] exI [of _ s']) simp
qed

text \<open>
  The two threads share the position of the file: when both have to seek and the second seeks
  between the call of \<open>lseek\<close> and the call of \<open>read\<close> of the first, the first sends the block of
  the second to its own node.
\<close>

theorem seek_race_sends_other_block:
  assumes "i < length (cp_senders s)" and "j < length (cp_senders s)" and "i \<noteq> j"
    and "cp_senders s ! i = a" and "cp_senders s ! j = b" and "sn_pc a = Seek" and "sn_pc b = Seek"
    and "d = take 10240 (drop (nat (sn_offset b)) F)"
  shows "\<exists>s1 s2 s3 s4. sender_step F i s = Some s1 \<and> sender_step F j s1 = Some s2 \<and> sender_step F i s2 = Some s3
    \<and> sender_step F i s3 = Some s4
    \<and> cp_sent s4 (sn_node a) = cp_sent s (sn_node a) @ [d @ drop (length d) (sn_buff a)]"
proof -
  let ?a1 = "a\<lparr>sn_pc := Reading\<rparr>" and ?b1 = "b\<lparr>sn_pc := Reading\<rparr>"
  let ?s1 = "s\<lparr>cp_senders := (cp_senders s)[i := ?a1], cp_pos := nat (sn_offset a)\<rparr>"
  let ?s2 = "?s1\<lparr>cp_senders := ((cp_senders s)[i := ?a1])[j := ?b1], cp_pos := nat (sn_offset b)\<rparr>"
  let ?a2 = "sn_read F (nat (sn_offset b)) ?a1"
  have "sender_step F i s = Some ?s1" using sender_step_at(2) [OF assms(1,4,6)] by simp
  moreover have "sender_step F j ?s1 = Some ?s2"
    using sender_step_at(2) [of j ?s1 b F] assms by simp
  moreover obtain s3 where s3: "sender_step F i ?s2 = Some s3" "cp_senders s3 ! i = ?a2" "length (cp_senders s3) = length (cp_senders s)"
      "cp_sent s3 = cp_sent s"
    using sender_step_at(3) [of i ?s2 ?a1 F] assms(1-3) by simp
  moreover have "sn_pc ?a2 = Writing" "sn_node ?a2 = sn_node a" "sn_buff ?a2 = d @ drop (length d) (sn_buff a)"
    by (simp_all add: sn_read_def Let_def assms(8))
  ultimately show ?thesis using sender_step_at(4) [of i s3 ?a2 F] assms(1) by auto
qed

text \<open>Both threads act for the second node when neither has read its parameters in time.\<close>

definition second_only :: "copy_sys \<Rightarrow> bool" where
  "second_only s \<longleftrightarrow> length (cp_senders s) = 2 \<and> cp_data s \<in> {None, Some 2} \<and> cp_sent s 1 = []
     \<and> (\<forall>t \<in> set (cp_senders s). sn_pc t = Params \<or> sn_pc t = Broken \<or> sn_node t = 2)"

lemma second_only_sender:
  assumes "second_only s" and "sender_step F k s = Some t"
  shows "second_only t"
proof -
  have k: "k < length (cp_senders s)" using assms(2) by (auto simp: sender_step_def split: if_splits)
  let ?t = "cp_senders s ! k"
  have ok: "sn_pc ?t = Params \<or> sn_pc ?t = Broken \<or> sn_node ?t = 2"
    using assms(1) k by (auto simp: second_only_def)
  have upd: "\<forall>x \<in> set ((cp_senders s)[k := t']). sn_pc x = Params \<or> sn_pc x = Broken \<or> sn_node x = 2"
    if "sn_pc t' = Broken \<or> sn_node t' = 2" for t'
    using assms(1) that set_update_subset_insert [of "cp_senders s" k t'] unfolding second_only_def by blast
  show ?thesis
  proof (cases "sn_pc ?t")
    case Params
    have "sn_pc (sn_params F (cp_data s) ?t) = Broken \<or> sn_node (sn_params F (cp_data s) ?t) = 2"
      using assms(1) by (auto simp: second_only_def sn_params_def split: sum.split)
    then show ?thesis using sender_step_at(1) [OF k refl Params, of F] assms upd by (auto simp: second_only_def)
  next
    case Seek
    then have "sn_node (?t\<lparr>sn_pc := Reading\<rparr>) = 2" using ok by simp
    then have "\<forall>x \<in> set ((cp_senders s)[k := ?t\<lparr>sn_pc := Reading\<rparr>]). sn_pc x = Params \<or> sn_pc x = Broken \<or> sn_node x = 2"
      using upd by blast
    then show ?thesis using sender_step_at(2) [OF k refl Seek, of F] assms by (simp add: second_only_def)
  next
    case Reading
    have "sn_node (sn_read F (cp_pos s) ?t) = 2" using ok Reading by (simp add: sn_read_def Let_def)
    then show ?thesis using sender_step_at(3) [OF k refl Reading, of F] assms upd by (auto simp: second_only_def)
  next
    case Writing
    have "sn_node ?t = 2" using ok Writing by simp
    moreover have "sn_node (sn_written ?t) = sn_node ?t" by (simp add: sn_written_def)
    ultimately show ?thesis using sender_step_at(4) [OF k refl Writing, of F] assms upd by (auto simp: second_only_def)
  qed (use assms(2) k in \<open>simp_all add: sender_step_def\<close>)
qed

lemma second_only_reach:
  assumes "copy_reach F s t" and "second_only s"
  shows "second_only t"
  using assms
proof (induction rule: copy_reach.induct)
  case (step s t u)
  then have "second_only t" by blast
  from step.hyps(2) show ?case
  proof cases
    case (sends k)
    then show ?thesis using \<open>second_only t\<close> by (blast intro: second_only_sender)
  qed (use \<open>second_only t\<close> in \<open>auto simp: copy_create_def copy_leave_def second_only_def split: if_splits\<close>)
qed

text \<open>
  The structure with the node number is shared: when neither thread has read it before the
  main thread has set it for the second one, no thread ever sends anything to the first node.
\<close>

theorem first_node_gets_nothing:
  assumes "length (cp_senders s) = 2" and "\<forall>t \<in> set (cp_senders s). sn_pc t = Params"
    and "cp_data s = Some 2" and "cp_sent s 1 = []" and "copy_reach F s t"
  shows "cp_sent t 1 = []"
  using second_only_reach [OF assms(5)] assms(1-4) by (simp add: second_only_def)

theorem first_node_gets_nothing_witness:
  "\<exists>s. copy_reach ''abc'' copy_init s \<and> length (cp_senders s) = 2 \<and> cp_sent s 1 = []"
proof -
  let ?j = "replicate 10240 (CHR ''x'')"
  let ?t = "\<lparr>sn_pc = Params, sn_node = 0, sn_offset = 0, sn_left = 0, sn_buff = ?j\<rparr>"
  let ?s1 = "copy_init\<lparr>cp_data := Some 1, cp_senders := [?t]\<rparr>"
  let ?s3 = "copy_init\<lparr>cp_data := Some 2, cp_senders := [?t, ?t]\<rparr>"
  have "copy_create ?j copy_init = Some ?s1" "copy_leave ?s1 = Some (?s1\<lparr>cp_data := None\<rparr>)"
    "copy_create ?j (?s1\<lparr>cp_data := None\<rparr>) = Some ?s3"
    by (simp_all add: copy_create_def copy_leave_def copy_init_def)
  then have "copy_reach ''abc'' copy_init ?s3"
    by (meson copy_reach.here copy_reach.step copy_step.creates copy_step.leaves)
  moreover have "cp_sent ?s3 1 = []"
    using first_node_gets_nothing [of ?s3 "''abc''" ?s3] copy_reach.here by (simp add: copy_init_def)
  ultimately show ?thesis by (intro exI [of _ ?s3]) simp
qed

text \<open>
  The reading of a file into inodes overflows its table for every file of ten or more bytes,
  because the number of blocks is counted in tens of bytes.
\<close>

theorem inode_table_overflows:
  assumes "length F < 2 ^ 31"
  shows "init_inode_readonly name (Some F) = Inl Overflow \<longleftrightarrow> 10 \<le> length F"
proof -
  let ?n = "int (length F)"
  have "(q * 1024 + 1) div 2 = q * 512" for q :: int by presburger
  moreover have "1 \<le> ?n div 10 \<longleftrightarrow> 10 \<le> ?n" by linarith
  ultimately have "2 < (?n div 10 * 1024 + 1) div 2 + 1 \<longleftrightarrow> 10 \<le> ?n" by linarith
  then show ?thesis using get_file_size_small [OF assms]
    by (simp add: init_inode_readonly_def NUM_SERVERS_def div_BLOCK_SIZE_nonneg nonneg_quotients Let_def)
qed

section \<open>A copy through the three programs\<close>







end
