(* ===== verification/Sniffer.thy ===== *)
theory Sniffer
  imports Wire
begin

text \<open>
  The packet sniffer of \<open>Sniffer/read_messages.c\<close>: the hex dump, the reports on the headers,
  the counters, and the two threads that share them under a mutex. A receive buffer is the
  list of its bytes; the headers are read at the offsets of the structures of the system
  headers, and the flag \<open>big\<close> is the byte order of the host. The log file is NULL until
  \<open>main\<close> has opened it, which is after the second thread was started. The counters of type
  \<open>int\<close> are 32-bit words. Main results: the dump can be read back, the counters and the log
  are consistent whenever the mutex is free, and what is wrong with Ethernet frames.
\<close>

section \<open>Reading and printing numbers\<close>

definition load16 :: "bool \<Rightarrow> u8 list \<Rightarrow> nat \<Rightarrow> 16 word" where
  "load16 big b k =
     (if big then push_bit 8 (ucast (b ! k)) OR ucast (b ! (k + 1))
      else push_bit 8 (ucast (b ! (k + 1))) OR ucast (b ! k))"

definition load32 :: "bool \<Rightarrow> u8 list \<Rightarrow> nat \<Rightarrow> u32" where
  "load32 big b k =
     (if big then push_bit 24 (ucast (b ! k)) OR push_bit 16 (ucast (b ! (k + 1)))
        OR push_bit 8 (ucast (b ! (k + 2))) OR ucast (b ! (k + 3))
      else push_bit 24 (ucast (b ! (k + 3))) OR push_bit 16 (ucast (b ! (k + 2)))
        OR push_bit 8 (ucast (b ! (k + 1))) OR ucast (b ! k))"

definition ntohs :: "bool \<Rightarrow> 16 word \<Rightarrow> 16 word" where
  "ntohs big x = (if big then x else push_bit 8 x OR drop_bit 8 x)"

definition ntohl :: "bool \<Rightarrow> u32 \<Rightarrow> u32" where
  "ntohl big x = htonl big x"

definition hex_digit :: "nat \<Rightarrow> char" where
  "hex_digit n = char_of (if n < 10 then 48 + n else 55 + n)"

text \<open>The conversion \<open>%02X\<close> of a byte.\<close>

definition hex_byte :: "u8 \<Rightarrow> string" where
  "hex_byte b = [hex_digit (unat b div 16), hex_digit (unat b mod 16)]"

definition inet_ntoa :: "u8 list \<Rightarrow> string" where
  "inet_ntoa a = string_of_nat (unat (a ! 0)) @ ''.'' @ string_of_nat (unat (a ! 1)) @ ''.''
     @ string_of_nat (unat (a ! 2)) @ ''.'' @ string_of_nat (unat (a ! 3))"

section \<open>The hex dump\<close>

definition shown :: "u8 \<Rightarrow> char" where
  "shown b = (if 32 \<le> b \<and> b \<le> 128 then char_of (unat b) else CHR ''.'')"

text \<open>One round of the outer loop of \<open>print_data\<close>, which writes only to the log file.\<close>

definition print_byte :: "u8 list \<Rightarrow> nat \<Rightarrow> nat \<Rightarrow> string" where
  "print_byte d sz i =
     (if i \<noteq> 0 \<and> i mod 16 = 0
      then replicate 9 (CHR '' '') @ map (\<lambda>j. shown (d ! j)) [i - 16..<i] @ [NL] else [])
     @ (if i mod 16 = 0 then replicate 3 (CHR '' '') else [])
     @ CHR '' '' # hex_byte (d ! i)
     @ (if i = sz - 1
        then concat (map (\<lambda>j. replicate 3 (CHR '' '')) [0..<15 - i mod 16]) @ replicate 9 (CHR '' '')
          @ map (\<lambda>j. shown (d ! j)) [i - i mod 16..<Suc i] @ [NL]
        else [])"

definition print_data :: "u8 list \<Rightarrow> nat \<Rightarrow> string" where
  "print_data d sz = concat (map (print_byte d sz) [0..<sz])"

section \<open>Reports\<close>

definition line :: "string \<Rightarrow> string" where
  "line t = t @ [NL]"

definition print_ethernet_header :: "bool \<Rightarrow> u8 list \<Rightarrow> string" where
  "print_ethernet_header big b =
     (let mac = (\<lambda>k. hex_byte (b ! k) @ ''-'' @ hex_byte (b ! (k + 1)) @ ''-'' @ hex_byte (b ! (k + 2)) @ ''-''
            @ hex_byte (b ! (k + 3)) @ ''-'' @ hex_byte (b ! (k + 4)) @ ''-'' @ hex_byte (b ! (k + 5))) in
      line [] @ line ''Ethernet Header''
      @ line (''   |-Destination Address : '' @ mac 0 @ '' '')
      @ line (''   |-Source Address      : '' @ mac 6 @ '' '')
      @ line (''   |-Protocol            : '' @ string_of_nat (unat (load16 big b 12)) @ '' ''))"

definition protocol :: "u8 list \<Rightarrow> u8" where
  "protocol b = b ! 9"

text \<open>The length in bytes of the IP header, from the low four bits of its first byte.\<close>

definition iphdrlen :: "u8 list \<Rightarrow> nat" where
  "iphdrlen b = unat (b ! 0 AND 15) * 4"

definition ip_text :: "u8 list \<Rightarrow> string" where
  "ip_text b = line [] @ line ''IP Header''
     @ line (''   |-Source IP        : '' @ inet_ntoa (take 4 (drop 12 b)))
     @ line (''   |-Destination IP   : '' @ inet_ntoa (take 4 (drop 16 b)))
     @ line (''   |-TTL      : '' @ string_of_nat (unat (b ! 8)))
     @ line (''   |-Protocol : '' @ string_of_nat (unat (protocol b)))"

definition hashes :: string where
  "hashes = NL # replicate 59 (CHR ''#'')"

definition bit_text :: "u8 \<Rightarrow> nat \<Rightarrow> string" where
  "bit_text b n = string_of_nat (if bit b n then 1 else 0)"

definition tcp_text :: "bool \<Rightarrow> u8 list \<Rightarrow> string" where
  "tcp_text big b = (let t = iphdrlen b in
     line [] @ line ''TCP Header''
     @ line (''   |-Source Port      : '' @ string_of_nat (unat (ntohs big (load16 big b t))))
     @ line (''   |-Destination Port : '' @ string_of_nat (unat (ntohs big (load16 big b (t + 2)))))
     @ line (''   |-Sequence Number    : '' @ string_of_nat (unat (ntohl big (load32 big b (t + 4)))))
     @ line (''   |- ACK : '' @ bit_text (b ! (t + 13)) 4)
     @ line (''   |- RST           : '' @ bit_text (b ! (t + 13)) 2)
     @ line (''   |- SYN     : '' @ bit_text (b ! (t + 13)) 1)
     @ line (''   |- FIN          : '' @ bit_text (b ! (t + 13)) 0)
     @ line (''   |- WINDOW         : '' @ string_of_nat (unat (ntohs big (load16 big b (t + 14)))))
     @ line [] @ hashes)"

text \<open>The size given for the UDP header is that of a pointer, eight bytes on a 64-bit host.\<close>

definition udp_text :: "bool \<Rightarrow> u8 list \<Rightarrow> string" where
  "udp_text big b = (let t = iphdrlen b in
     line [] @ line ''UDP Header''
     @ line (''   |-Source Port      : '' @ string_of_nat (unat (ntohs big (load16 big b t))))
     @ line (''   |-Destination Port : '' @ string_of_nat (unat (ntohs big (load16 big b (t + 2)))))
     @ line [] @ line ''IP Header'' @ print_data b t
     @ line ''UDP Header'' @ print_data (drop t b) 8 @ hashes)"

definition icmp_text :: "u8 list \<Rightarrow> string" where
  "icmp_text b = line [] @ line ''ICMP Header''
     @ ''   |-Type : '' @ string_of_nat (unat (b ! iphdrlen b)) @ hashes"

definition banner :: "string \<Rightarrow> string" where
  "banner name = line (line [] @ line [] @ replicate 23 (CHR ''*'') @ name @ replicate 25 (CHR ''*''))"

section \<open>Counters\<close>

record sniffer =
  tcp :: u32
  udp :: u32
  icmp :: u32
  igmp :: u32
  others :: u32
  total :: u32
  src_addr :: "u8 list"
  dst_addr :: "u8 list"
  logfile :: "string option"
  screen :: string

definition fprintf :: "string \<Rightarrow> sniffer \<Rightarrow> cerror + sniffer" where
  "fprintf t s = (case logfile s of
       None \<Rightarrow> Inl Segfault
     | Some l \<Rightarrow> Inr (s\<lparr>logfile := Some (l @ t)\<rparr>))"

definition print_ip_header :: "u8 list \<Rightarrow> sniffer \<Rightarrow> cerror + sniffer" where
  "print_ip_header b s =
     fprintf (ip_text b) (s\<lparr>src_addr := take 4 (drop 12 b), dst_addr := take 4 (drop 16 b)\<rparr>)"

definition print_tcp_packet :: "bool \<Rightarrow> u8 list \<Rightarrow> sniffer \<Rightarrow> cerror + sniffer" where
  "print_tcp_packet big b s =
     rbind (fprintf (banner ''TCP Packet'') s) (\<lambda>s. rbind (print_ip_header b s) (fprintf (tcp_text big b)))"

definition print_udp_packet :: "bool \<Rightarrow> u8 list \<Rightarrow> sniffer \<Rightarrow> cerror + sniffer" where
  "print_udp_packet big b s =
     rbind (fprintf (banner ''UDP Packet'') s) (\<lambda>s. rbind (print_ip_header b s) (fprintf (udp_text big b)))"

definition print_icmp_packet :: "u8 list \<Rightarrow> sniffer \<Rightarrow> cerror + sniffer" where
  "print_icmp_packet b s =
     rbind (fprintf (banner ''ICMP Packet'') s) (\<lambda>s. rbind (print_ip_header b s) (fprintf (icmp_text b)))"

definition count_total :: "sniffer \<Rightarrow> sniffer" where
  "count_total s = s\<lparr>total := total s + 1\<rparr>"

definition print_counts :: "sniffer \<Rightarrow> sniffer" where
  "print_counts s = (let d = (\<lambda>c. string_of_int (sint c)) in
     s\<lparr>screen := screen s @ ''TCP : '' @ d (tcp s) @ ''   UDP : '' @ d (udp s) @ ''   ICMP : '' @ d (icmp s)
       @ ''   IGMP : '' @ d (igmp s) @ ''   Others : '' @ d (others s) @ ''   Total : '' @ d (total s) @ [CHR 0x0D]\<rparr>)"

definition count_protocol :: "bool \<Rightarrow> u8 list \<Rightarrow> sniffer \<Rightarrow> cerror + sniffer" where
  "count_protocol big b s =
     rbind (if protocol b = 1 then print_icmp_packet b (s\<lparr>icmp := icmp s + 1\<rparr>)
            else if protocol b = 2 then rbind (print_ip_header b s) (\<lambda>s. Inr (s\<lparr>igmp := igmp s + 1\<rparr>))
            else if protocol b = 6 then print_tcp_packet big b (s\<lparr>tcp := tcp s + 1\<rparr>)
            else if protocol b = 17 then print_udp_packet big b (s\<lparr>udp := udp s + 1\<rparr>)
            else rbind (print_ip_header b s) (\<lambda>s. Inr (s\<lparr>others := others s + 1\<rparr>)))
       (\<lambda>s. Inr (print_counts s))"

definition process_packet :: "bool \<Rightarrow> u8 list \<Rightarrow> sniffer \<Rightarrow> cerror + sniffer" where
  "process_packet big b s = count_protocol big b (count_total s)"

section \<open>The two threads\<close>

text \<open>
  \<open>main\<close> reads from the raw socket, the thread started with \<open>ThreadEntry\<close> from the packet
  socket. Each has its own buffer of 65536 bytes; a packet overwrites the start of it.
\<close>

datatype thread = Raw | Eth

text \<open>There are two threads, so that what holds for all of them can be evaluated.\<close>

instantiation thread :: enum
begin

definition enum_thread :: "thread list" where
  "enum_thread = [Raw, Eth]"

definition enum_all_thread :: "(thread \<Rightarrow> bool) \<Rightarrow> bool" where
  "enum_all_thread P \<longleftrightarrow> P Raw \<and> P Eth"

definition enum_ex_thread :: "(thread \<Rightarrow> bool) \<Rightarrow> bool" where
  "enum_ex_thread P \<longleftrightarrow> P Raw \<or> P Eth"

instance
proof
  show "(UNIV :: thread set) = set enum_class.enum" "distinct (enum_class.enum :: thread list)"
    by (auto simp: enum_thread_def intro: thread.exhaust)
  show "enum_class.enum_all P = Ball UNIV P" "enum_class.enum_ex P = Bex UNIV P" for P :: "thread \<Rightarrow> bool"
    unfolding enum_all_thread_def enum_ex_thread_def by (metis thread.exhaust UNIV_I)+
qed

end

datatype pc = Opening | Receiving | Received | Locked | Counting | Counted

record system =
  shared :: sniffer
  owner :: "thread option"
  pc_of :: "thread \<Rightarrow> pc"
  buf :: "thread \<Rightarrow> u8 list"
  history :: "(thread \<times> u8 list) list"

definition recv_into :: "u8 list \<Rightarrow> u8 list \<Rightarrow> u8 list" where
  "recv_into b pkt = take (length b) pkt @ drop (length pkt) b"

definition initial_sniffer :: sniffer where
  "initial_sniffer = \<lparr>tcp = 0, udp = 0, icmp = 0, igmp = 0, others = 0, total = 0,
     src_addr = replicate 4 0, dst_addr = replicate 4 0, logfile = None, screen = []\<rparr>"

text \<open>The state after \<open>pthread_create\<close>: \<open>main\<close> has yet to open the log file.\<close>

definition started :: "(thread \<Rightarrow> u8 list) \<Rightarrow> system" where
  "started bs = \<lparr>shared = initial_sniffer, owner = None,
     pc_of = (\<lambda>t. if t = Raw then Opening else Receiving), buf = bs, history = []\<rparr>"

text \<open>
  What a thread does at the start of its critical section: the second thread reports the
  Ethernet header, then both increment the total.
\<close>

definition enter_section :: "bool \<Rightarrow> thread \<Rightarrow> u8 list \<Rightarrow> sniffer \<Rightarrow> cerror + sniffer" where
  "enter_section big t b s =
     rbind (if t = Eth then fprintf (print_ethernet_header big b) s else Inr s) (\<lambda>s. Inr (count_total s))"

definition goto :: "thread \<Rightarrow> pc \<Rightarrow> system \<Rightarrow> system" where
  "goto t p s = s\<lparr>pc_of := (pc_of s)(t := p)\<rparr>"

definition into_shared :: "system \<Rightarrow> sniffer \<Rightarrow> system" where
  "into_shared s x = s\<lparr>shared := x\<rparr>"

text \<open>
  One step of one thread. Opening the log file may fail, which \<open>main\<close> only reports. The
  history records the packets in the order in which they were processed.
\<close>

inductive sniff :: "bool \<Rightarrow> system \<Rightarrow> cerror + system \<Rightarrow> bool" for big where
  opens: "pc_of s Raw = Opening \<Longrightarrow> f = None \<or> f = Some [] \<Longrightarrow>
     sniff big s (Inr (goto Raw Receiving (s\<lparr>shared := (shared s)\<lparr>logfile := f\<rparr>\<rparr>)))"
| receives: "pc_of s t = Receiving \<Longrightarrow>
     sniff big s (Inr (goto t Received (s\<lparr>buf := (buf s)(t := recv_into (buf s t) pkt)\<rparr>)))"
| locks: "pc_of s t = Received \<Longrightarrow> owner s = None \<Longrightarrow>
     sniff big s (Inr (goto t Locked (s\<lparr>owner := Some t\<rparr>)))"
| enters: "pc_of s t = Locked \<Longrightarrow>
     sniff big s (rbind (enter_section big t (buf s t) (shared s)) (\<lambda>x. Inr (goto t Counting (into_shared s x))))"
| counts: "pc_of s t = Counting \<Longrightarrow>
     sniff big s (rbind (count_protocol big (buf s t) (shared s)) (\<lambda>x. Inr (goto t Counted (into_shared s x))))"
| unlocks: "pc_of s t = Counted \<Longrightarrow>
     sniff big s (Inr (goto t Receiving (s\<lparr>owner := None, history := history s @ [(t, buf s t)]\<rparr>)))"

inductive sniffs :: "bool \<Rightarrow> (thread \<Rightarrow> u8 list) \<Rightarrow> cerror + system \<Rightarrow> bool" for big bs where
  start: "sniffs big bs (Inr (started bs))"
| step: "sniffs big bs (Inr s) \<Longrightarrow> sniff big s r \<Longrightarrow> sniffs big bs r"

inductive_cases sniffE: "sniff big s r"

section \<open>Numbers are read back\<close>

definition hex_val :: "char \<Rightarrow> nat" where
  "hex_val c = (if of_char c < (58 :: nat) then of_char c - 48 else of_char c - 55)"

lemma hex_val_digit [simp]: "n < 16 \<Longrightarrow> hex_val (hex_digit n) = n"
  by (simp add: hex_val_def hex_digit_def of_char_of)

lemma hex_digit_not_space [simp]: "n < 16 \<Longrightarrow> hex_digit n \<noteq> CHR '' ''"
proof
  assume "n < 16" and "hex_digit n = CHR '' ''"
  then have "(of_char (hex_digit n) :: nat) = 32" by simp
  then show False using \<open>n < 16\<close> by (simp add: hex_digit_def of_char_of split: if_splits)
qed

lemma unat_u8: "unat (b :: u8) < 256"
  using unsigned_less [of b, where ?'a = nat] by simp

lemma hex_byte_value: "of_nat (16 * hex_val (hex_byte b ! 0) + hex_val (hex_byte b ! 1)) = b"
proof -
  have "unat b div 16 < 16" "unat b mod 16 < 16" using unat_u8 [of b] by auto
  then have "16 * hex_val (hex_byte b ! 0) + hex_val (hex_byte b ! 1) = unat b"
    by (simp add: hex_byte_def)
  then show ?thesis by simp
qed

text \<open>The fields of a header are read in network byte order on both kinds of host.\<close>

lemma ntohs_load16: "ntohs big (load16 big b k) = push_bit 8 (ucast (b ! k)) OR ucast (b ! (k + 1))"
  by (rule bit_word_eqI) (auto simp: ntohs_def load16_def bit_simps dest: bit_imp_le_length)

section \<open>The dump as lines\<close>

definition dump_line :: "u8 list \<Rightarrow> string" where
  "dump_line xs = replicate 3 (CHR '' '') @ concat (map (\<lambda>x. CHR '' '' # hex_byte x) xs)
     @ replicate (3 * (16 - length xs)) (CHR '' '') @ replicate 9 (CHR '' '') @ map shown xs @ [NL]"

definition row :: "nat \<Rightarrow> 'a list \<Rightarrow> 'a list" where
  "row k xs = take 16 (drop (16 * k) xs)"

definition hexdump :: "u8 list \<Rightarrow> string" where
  "hexdump xs = concat (map (\<lambda>k. dump_line (row k xs)) [0..<(length xs + 15) div 16])"

lemma map_nth_range: "n \<le> length d \<Longrightarrow> map (\<lambda>j. f (d ! j)) [m..<n] = map f (take (n - m) (drop m d))"
  by (rule nth_equalityI) auto

text \<open>A round of the loop without the end of the last line.\<close>

definition print_mid :: "u8 list \<Rightarrow> nat \<Rightarrow> string" where
  "print_mid d i =
     (if i \<noteq> 0 \<and> i mod 16 = 0
      then replicate 9 (CHR '' '') @ map (\<lambda>j. shown (d ! j)) [i - 16..<i] @ [NL] else [])
     @ (if i mod 16 = 0 then replicate 3 (CHR '' '') else []) @ CHR '' '' # hex_byte (d ! i)"

lemma print_mid_prefix:
  assumes "m < length d"
  shows "concat (map (print_mid d) [0..<Suc m]) =
    concat (map (\<lambda>k. dump_line (row k d)) [0..<m div 16]) @ replicate 3 (CHR '' '')
      @ concat (map (\<lambda>j. CHR '' '' # hex_byte (d ! j)) [16 * (m div 16)..<Suc m])"
  using assms
proof (induction m)
  case (Suc m)
  let ?q = "m div 16" and ?h = "\<lambda>j. CHR '' '' # hex_byte (d ! j)"
  have IH: "concat (map (print_mid d) [0..<Suc m]) =
      concat (map (\<lambda>k. dump_line (row k d)) [0..<?q]) @ replicate 3 (CHR '' '')
      @ concat (map ?h [16 * ?q..<Suc m])"
    using Suc by simp
  have split: "concat (map (print_mid d) [0..<Suc (Suc m)]) = concat (map (print_mid d) [0..<Suc m]) @ print_mid d (Suc m)"
    by simp
  show ?case
  proof (cases "Suc m mod 16 = 0")
    case True
    then have q1: "Suc m div 16 = Suc ?q" by (simp add: div_Suc mod_Suc split: if_splits)
    have q2: "16 * Suc ?q = Suc m" using mult_div_mod_eq [of 16 "Suc m"] True by (simp add: q1)
    note q = q1 q2
    have n: "Suc m - 16 = 16 * ?q" "16 * ?q < Suc m" using q(2) by simp_all
    have d16: "Suc m - 16 * ?q = 16" by (subst q2 [symmetric]) simp
    have row: "take (Suc m - 16 * ?q) (drop (16 * ?q) d) = row ?q d" unfolding d16 row_def by (rule refl)
    have "Suc ?q * 16 < length d" using Suc.prems by (metis q2 mult.commute)
    then have len: "length (row ?q d) = 16" by (simp add: row_def min_def mult.commute)
    have "dump_line (row ?q d) = replicate 3 (CHR '' '') @ concat (map ?h [16 * ?q..<Suc m])
        @ replicate 9 (CHR '' '') @ map (\<lambda>j. shown (d ! j)) [Suc m - 16..<Suc m] @ [NL]"
      using Suc.prems map_nth_range [of "Suc m" d "\<lambda>x. CHR '' '' # hex_byte x" "16 * ?q"]
        map_nth_range [of "Suc m" d shown "16 * ?q"]
      by (simp add: dump_line_def row len n(1) [simplified] del: upt_Suc)
    moreover have "print_mid d (Suc m) = (replicate 9 (CHR '' '') @ map (\<lambda>j. shown (d ! j)) [Suc m - 16..<Suc m] @ [NL])
        @ replicate 3 (CHR '' '') @ ?h (Suc m)"
      using True by (simp add: print_mid_def del: upt_Suc)
    moreover have "[16 * (Suc m div 16)..<Suc (Suc m)] = [Suc m]" "[0..<Suc m div 16] = [0..<?q] @ [?q]"
      by (simp_all only: q) simp_all
    ultimately show ?thesis unfolding split IH by (simp del: upt_Suc replicate.simps)
  next
    case False
    then have q: "Suc m div 16 = ?q" by (simp add: div_Suc mod_Suc split: if_splits)
    have "16 * ?q \<le> Suc m" using div_times_less_eq_dividend [of m 16] by (simp add: mult.commute le_SucI)
    then show ?thesis unfolding split IH q using False by (simp add: print_mid_def)
  qed
qed (simp add: print_mid_def)

text \<open>The dump consists of one line for every sixteen bytes.\<close>

lemma concat_pad: "concat (map (\<lambda>j. replicate 3 c) [0..<n]) = replicate (3 * n) c"
  by (induction n) (simp_all add: replicate_append_same flip: replicate_add)

lemma print_data_hexdump:
  assumes "sz \<le> length d"
  shows "print_data d sz = hexdump (take sz d)"
proof (cases sz)
  case (Suc m)
  let ?q = "m div 16" and ?d = "take sz d"
  have len: "length ?d = Suc m" using assms Suc by simp
  have byte: "print_byte d sz i = print_mid ?d i" if "i < m" for i
    using that Suc by (auto simp: print_byte_def print_mid_def)
  have last: "print_byte d sz m = print_mid ?d m @ replicate (3 * (15 - m mod 16)) (CHR '' '')
      @ replicate 9 (CHR '' '') @ map (\<lambda>j. shown (?d ! j)) [m - m mod 16..<Suc m] @ [NL]"
    using Suc by (auto simp: print_byte_def print_mid_def concat_pad del: upt_Suc)
  have front: "map (print_byte d sz) [0..<m] = map (print_mid ?d) [0..<m]" using byte by simp
  have q: "16 * ?q \<le> m" "m - m mod 16 = 16 * ?q" "(Suc m + 15) div 16 = Suc ?q"
    by (simp_all add: minus_mod_eq_mult_div div_add_self2)
  have row: "take (Suc m - 16 * ?q) (drop (16 * ?q) ?d) = row ?q ?d" "length (row ?q ?d) = Suc (m mod 16)"
    using len q(1) by (auto simp: row_def min_def minus_mult_div_eq_mod [symmetric])
  have cells: "map (\<lambda>j. f (?d ! j)) [16 * ?q..<Suc m] = map f (row ?q ?d)" for f :: "u8 \<Rightarrow> 'a"
    using map_nth_range [of "Suc m" ?d f "16 * ?q"] by (simp only: len row(1) order_refl)
  have prefix: "concat (map (print_mid ?d) [0..<Suc m]) = concat (map (\<lambda>k. dump_line (row k ?d)) [0..<?q])
      @ replicate 3 (CHR '' '') @ concat (map (\<lambda>x. CHR '' '' # hex_byte x) (row ?q ?d))"
    using print_mid_prefix [of m ?d] unfolding len cells [of "\<lambda>x. CHR '' '' # hex_byte x"] by (simp only: lessI)
  have "print_data d sz = concat (map (print_mid ?d) [0..<Suc m]) @ replicate (3 * (15 - m mod 16)) (CHR '' '')
      @ replicate 9 (CHR '' '') @ map (\<lambda>j. shown (?d ! j)) [16 * ?q..<Suc m] @ [NL]"
    using q(2) by (simp add: print_data_def Suc front [unfolded Suc] last [unfolded Suc] del: upt_Suc add: upt_Suc_append)
  also have "\<dots> = concat (map (\<lambda>k. dump_line (row k ?d)) [0..<?q]) @ dump_line (row ?q ?d)"
    using cells [of shown] by (simp add: prefix dump_line_def [of "row ?q ?d"] row(2) del: upt_Suc)
  also have "\<dots> = hexdump ?d" unfolding hexdump_def len q(3) by simp
  finally show ?thesis .
qed (simp add: print_data_def hexdump_def)

section \<open>Reading the dump\<close>

fun undump_cells :: "string \<Rightarrow> u8 list" where
  "undump_cells (_ # a # b # t) =
     (if a = CHR '' '' then [] else of_nat (16 * hex_val a + hex_val b) # undump_cells t)"
| "undump_cells _ = []"

function undump :: "string \<Rightarrow> u8 list" where
  "undump [] = []"
| "undump (c # cs) = undump_cells (drop 3 (takeWhile (\<lambda>c. c \<noteq> NL) (c # cs)))
     @ undump (drop 1 (dropWhile (\<lambda>c. c \<noteq> NL) (c # cs)))"
  by pat_completeness auto
termination by (relation "measure length") (auto simp: less_Suc_eq_le le_diff_conv intro: le_SucI length_dropWhile_le)

lemma undump_cells_hex:
  "undump_cells (concat (map (\<lambda>x. CHR '' '' # hex_byte x) xs) @ CHR '' '' # CHR '' '' # CHR '' '' # t) = xs"
proof (induction xs)
  case (Cons x xs)
  have "unat x div 16 < 16" "unat x mod 16 < 16" using unat_u8 [of x] by auto
  then show ?case using Cons hex_byte_value [of x] by (simp add: hex_byte_def)
qed simp

lemma printable_not_NL: "shown b \<noteq> NL" "n < 16 \<Longrightarrow> hex_digit n \<noteq> NL"
proof -
  have nat: "unat b \<le> 128 \<longleftrightarrow> b \<le> 128" "32 \<le> unat b \<longleftrightarrow> 32 \<le> b"
    by (simp_all add: word_le_nat_alt)
  show "shown b \<noteq> NL"
  proof
    assume "shown b = NL"
    then have "(of_char (shown b) :: nat) = 10" by simp
    then show False using nat unat_u8 [of b] by (auto simp: shown_def of_char_of split: if_splits)
  qed
  show "n < 16 \<Longrightarrow> hex_digit n \<noteq> NL"
  proof
    assume "n < 16" and "hex_digit n = NL"
    then have "(of_char (hex_digit n) :: nat) = 10" by simp
    then show False using \<open>n < 16\<close> by (simp add: hex_digit_def of_char_of split: if_splits)
  qed
qed

lemma undump_line:
  assumes "length xs \<le> 16"
  shows "undump (dump_line xs @ t) = xs @ undump t"
proof -
  define l where "l = replicate 3 (CHR '' '') @ concat (map (\<lambda>x. CHR '' '' # hex_byte x) xs)
     @ replicate (3 * (16 - length xs)) (CHR '' '') @ replicate 9 (CHR '' '') @ map shown xs"
  have "unat x div 16 < 16" "unat x mod 16 < 16" for x :: u8 using unat_u8 [of x] by auto
  then have "NL \<notin> set (hex_byte x)" for x using printable_not_NL(2) by (metis hex_byte_def empty_iff empty_set set_ConsD)
  moreover have "NL \<notin> shown ` set xs" using printable_not_NL(1) by (metis imageE)
  ultimately have "NL \<notin> set l" by (auto simp: l_def)
  then have cut: "takeWhile (\<lambda>c. c \<noteq> NL) (l @ NL # t) = l" "dropWhile (\<lambda>c. c \<noteq> NL) (l @ NL # t) = NL # t"
    by (auto simp: takeWhile_append dropWhile_append takeWhile_eq_all_conv)
  have "undump_cells (drop 3 l) = xs"
    using undump_cells_hex [of xs "replicate (3 * (16 - length xs)) (CHR '' '') @ replicate 6 (CHR '' '') @ map shown xs"]
    by (simp add: l_def numeral_eq_Suc replicate_app_Cons_same)
  moreover obtain c cs where "l @ NL # t = c # cs" by (cases "l @ NL # t") auto
  then have "undump (l @ NL # t) = undump_cells (drop 3 l) @ undump t"
    using cut by (metis undump.simps(2) drop_Suc_Cons drop0 One_nat_def)
  ultimately show ?thesis by (simp add: dump_line_def l_def)
qed

lemma concat_rows: "concat (map (\<lambda>k. row k xs) [0..<n]) = take (16 * n) xs"
proof (induction n)
  case (Suc n)
  have "take (16 * n + 16) xs = take (16 * n) xs @ take 16 (drop (16 * n) xs)" by (rule take_add)
  then show ?case using Suc by (simp add: row_def add.commute)
qed simp

lemma undump_hexdump: "undump (hexdump xs) = xs"
proof -
  have "undump (concat (map (\<lambda>k. dump_line (row k xs)) ks)) = concat (map (\<lambda>k. row k xs) ks)" for ks
    by (induction ks) (simp_all add: undump_line row_def)
  moreover have "length xs \<le> 16 * ((length xs + 15) div 16)" by linarith
  ultimately show ?thesis by (simp add: hexdump_def concat_rows)
qed

text \<open>
  C17. The hex dump of \<open>print_data\<close> loses nothing: for any number of bytes inside the buffer,
  reading the hexadecimal columns of its lines gives back these bytes in order.
\<close>

theorem print_data_roundtrip:
  assumes "sz \<le> length d"
  shows "undump (print_data d sz) = take sz d"
  using print_data_hexdump [OF assms] undump_hexdump by simp

theorem print_data_roundtrip_witness: "undump (print_data [69, 0, 10, 65] 3) = [69, 0, 10]"
  using print_data_roundtrip [of 3 "[69, 0, 10, 65]"] by (simp add: numeral_eq_Suc)

section \<open>What a packet adds\<close>

text \<open>The counter of a protocol, where 0 stands for the protocols that are not told apart.\<close>

definition proto_class :: "u8 list \<Rightarrow> u8" where
  "proto_class b = (if protocol b \<in> {1, 2, 6, 17} then protocol b else 0)"

definition counter :: "u8 \<Rightarrow> sniffer \<Rightarrow> u32" where
  "counter p s = (if p = 1 then icmp s else if p = 2 then igmp s else if p = 6 then tcp s
     else if p = 17 then udp s else others s)"

definition packet_text :: "bool \<Rightarrow> u8 list \<Rightarrow> string" where
  "packet_text big b =
     (if protocol b = 1 then banner ''ICMP Packet'' @ ip_text b @ icmp_text b
      else if protocol b = 6 then banner ''TCP Packet'' @ ip_text b @ tcp_text big b
      else if protocol b = 17 then banner ''UDP Packet'' @ ip_text b @ udp_text big b
      else ip_text b)"

fun report :: "bool \<Rightarrow> thread \<times> u8 list \<Rightarrow> string" where
  "report big (t, b) = (if t = Eth then print_ethernet_header big b else []) @ packet_text big b"

lemma fprintf_simps [simp]:
  "logfile s = None \<Longrightarrow> fprintf t s = Inl Segfault"
  "logfile s = Some l \<Longrightarrow> fprintf t s = Inr (s\<lparr>logfile := Some (l @ t)\<rparr>)"
  by (simp_all add: fprintf_def)

lemmas print_defs = print_icmp_packet_def print_tcp_packet_def print_udp_packet_def print_ip_header_def

lemma count_protocol_closed: "logfile s = None \<Longrightarrow> count_protocol big b s = Inl Segfault"
  by (simp add: count_protocol_def print_defs)

lemma count_protocol_open:
  assumes "logfile s = Some l"
  obtains s' where "count_protocol big b s = Inr s'" "logfile s' = Some (l @ packet_text big b)"
    "total s' = total s" "\<And>p. p \<in> {0, 1, 2, 6, 17} \<Longrightarrow> counter p s' = counter p s + (if proto_class b = p then 1 else 0)"
proof -
  have "\<exists>s'. count_protocol big b s = Inr s' \<and> logfile s' = Some (l @ packet_text big b)
    \<and> total s' = total s \<and> (\<forall>p \<in> {0, 1, 2, 6, 17}. counter p s' = counter p s + (if proto_class b = p then 1 else 0))"
    using assms
    by (simp add: count_protocol_def print_defs packet_text_def proto_class_def counter_def print_counts_def Let_def)
  then show ?thesis using that by blast
qed

section \<open>The threads\<close>

definition in_section :: "pc \<Rightarrow> bool" where
  "in_section p \<longleftrightarrow> p \<in> {Locked, Counting, Counted}"

definition counted :: "system \<Rightarrow> (thread \<times> u8 list) list" where
  "counted s = history s @ (if pc_of s Eth = Counted then [(Eth, buf s Eth)]
     else if pc_of s Raw = Counted then [(Raw, buf s Raw)] else [])"

definition mutex_ok :: "system \<Rightarrow> bool" where
  "mutex_ok s \<longleftrightarrow> (\<forall>t. in_section (pc_of s t) \<longleftrightarrow> owner s = Some t)"

definition counts_ok :: "system \<Rightarrow> bool" where
  "counts_ok s \<longleftrightarrow>
     total (shared s) = of_nat (length (counted s) + (if \<exists>t. pc_of s t = Counting then 1 else 0))
     \<and> (\<forall>p \<in> {0, 1, 2, 6, 17}. counter p (shared s) = of_nat (length (filter (\<lambda>(t, b). proto_class b = p) (counted s))))"

definition log_ok :: "bool \<Rightarrow> system \<Rightarrow> bool" where
  "log_ok big s \<longleftrightarrow> (pc_of s Raw = Opening \<longrightarrow> logfile (shared s) = None)
     \<and> (case logfile (shared s) of
          None \<Rightarrow> counted s = [] \<and> pc_of s Eth \<noteq> Counting
        | Some l \<Rightarrow> l = concat (map (report big) (counted s))
            @ (if pc_of s Eth = Counting then print_ethernet_header big (buf s Eth) else []))"

lemma all_thread: "(\<forall>t. P t) \<longleftrightarrow> P Raw \<and> P Eth" "(\<exists>t. P t) \<longleftrightarrow> P Raw \<or> P Eth"
  using enum_all [THEN fun_cong, of P] enum_ex [THEN fun_cong, of P] unfolding enum_all_thread_def enum_ex_thread_def by simp_all

lemmas system_inv_defs = mutex_ok_def counts_ok_def log_ok_def counted_def all_thread goto_def into_shared_def in_section_def

lemma started_ok: "mutex_ok (started bs) \<and> counts_ok (started bs) \<and> log_ok big (started bs)"
  by (simp add: system_inv_defs started_def initial_sniffer_def counter_def)

lemma mutex_ok_step:
  assumes "sniff big s (Inr s')" and "mutex_ok s"
  shows "mutex_ok s'"
  using assms(1)
proof cases
  case (receives t pkt)
  then show ?thesis using assms(2) by (cases t) (auto simp: system_inv_defs)
next
  case (locks t)
  then show ?thesis using assms(2) by (cases t) (auto simp: system_inv_defs)
next
  case (enters t)
  then show ?thesis using assms(2) by (cases t) (auto simp: system_inv_defs)
next
  case (counts t)
  then show ?thesis using assms(2) by (cases t) (auto simp: system_inv_defs)
next
  case (unlocks t)
  then show ?thesis using assms(2) by (cases t) (auto simp: system_inv_defs)
qed (use assms(2) in \<open>auto simp: system_inv_defs\<close>)

lemma counter_simps [simp]:
  "counter p (s\<lparr>logfile := f\<rparr>) = counter p s" "counter p (s\<lparr>total := n\<rparr>) = counter p s"
  by (simp_all add: counter_def)

lemma enter_section_Inr:
  "enter_section big t b s = Inr s' \<longleftrightarrow>
     (if t = Eth then \<exists>l. logfile s = Some l \<and> s' = s\<lparr>logfile := Some (l @ print_ethernet_header big b), total := total s + 1\<rparr>
      else s' = s\<lparr>total := total s + 1\<rparr>)"
  by (auto simp: enter_section_def count_total_def fprintf_def split: option.splits)

lemma sniff_enters_ok:
  assumes "pc_of s t = Locked" and "enter_section big t (buf s t) (shared s) = Inr x"
    and "mutex_ok s \<and> counts_ok s \<and> log_ok big s"
  shows "counts_ok (goto t Counting (into_shared s x)) \<and> log_ok big (goto t Counting (into_shared s x))"
  using assms by (cases t) (auto simp: system_inv_defs enter_section_Inr split: option.splits)

lemma sniff_counts_ok:
  assumes "pc_of s t = Counting" and "count_protocol big (buf s t) (shared s) = Inr x"
    and "mutex_ok s \<and> counts_ok s \<and> log_ok big s"
  shows "counts_ok (goto t Counted (into_shared s x)) \<and> log_ok big (goto t Counted (into_shared s x))"
proof -
  obtain l where l: "logfile (shared s) = Some l"
    using assms(2) count_protocol_closed by (cases "logfile (shared s)") auto
  obtain y where "count_protocol big (buf s t) (shared s) = Inr y"
      and y: "logfile y = Some (l @ packet_text big (buf s t))" "total y = total (shared s)"
        "\<And>p. p \<in> {0, 1, 2, 6, 17} \<Longrightarrow> counter p y = counter p (shared s) + (if proto_class (buf s t) = p then 1 else 0)"
    using count_protocol_open [OF l, of big "buf s t"] by blast
  with assms(2) have xy: "y = x" by simp
  note x = y [unfolded xy]
  let ?s = "goto t Counted (into_shared s x)"
  have others: "pc_of s u \<notin> {Locked, Counting, Counted}" if "u \<noteq> t" for u
    using assms(1,3) that by (auto simp: mutex_ok_def in_section_def)
  have opened: "pc_of s Raw \<noteq> Opening" using assms(3) l by (auto simp: log_ok_def)
  have counted: "counted ?s = counted s @ [(t, buf s t)]" "\<exists>t. pc_of s t = Counting"
      "\<not> (\<exists>u. pc_of ?s u = Counting)" "pc_of ?s Eth \<noteq> Counting" "pc_of ?s Raw \<noteq> Opening"
      "pc_of s Eth = Counting \<longleftrightarrow> t = Eth"
    using assms(1) others [of Raw] others [of Eth] opened
    by (cases t; auto simp: counted_def goto_def into_shared_def all_thread; fail)+
  have "shared ?s = x" by (simp add: goto_def into_shared_def)
  then have "counts_ok ?s" using assms(3) counted x(2,3) unfolding counts_ok_def by auto
  moreover have "log_ok big ?s"
    using assms(3) counted x(1) l \<open>shared ?s = x\<close> unfolding log_ok_def by auto
  ultimately show ?thesis ..
qed

lemma sniff_ok:
  assumes "sniff big s (Inr s')" and ok: "mutex_ok s \<and> counts_ok s \<and> log_ok big s"
  shows "counts_ok s' \<and> log_ok big s'"
  using assms(1)
proof cases
  case (receives t pkt)
  then show ?thesis using ok by (cases t; cases "logfile (shared s)"; auto simp: system_inv_defs)
next
  case (locks t)
  then show ?thesis using ok by (cases t; cases "logfile (shared s)"; auto simp: system_inv_defs)
next
  case (enters t)
  then show ?thesis using ok sniff_enters_ok [of s t big] by auto
next
  case (counts t)
  then show ?thesis using ok sniff_counts_ok [of s t big] by auto
next
  case (unlocks t)
  then show ?thesis using ok by (cases t; cases "logfile (shared s)"; auto simp: system_inv_defs)
qed (use ok in \<open>auto simp: system_inv_defs\<close>)

lemma sniffs_ok: "sniffs big bs r \<Longrightarrow> r = Inr s \<Longrightarrow> mutex_ok s \<and> counts_ok s \<and> log_ok big s"
proof (induction arbitrary: s rule: sniffs.induct)
  case start
  then show ?case using started_ok by auto
next
  case (step s0 r)
  then show ?case using sniff_ok [of big s0 s] mutex_ok_step [of big s0 s] by blast
qed

lemma enter_section_open:
  assumes "logfile s = Some l"
  obtains x l' where "enter_section big t b s = Inr x" "logfile x = Some l'"
proof (cases "t = Eth")
  case True
  then show ?thesis using assms that by (simp add: enter_section_Inr)
next
  case False
  then show ?thesis using assms that by (simp add: enter_section_Inr)
qed

text \<open>With an open log file and a free mutex each thread can process its next packet.\<close>

lemma sniffs_next_packet:
  assumes "sniffs big bs (Inr s)" and "owner s = None" and "pc_of s t = Receiving" and "logfile (shared s) = Some l"
  shows "\<exists>s'. sniffs big bs (Inr s') \<and> owner s' = None \<and> pc_of s' t = Receiving
    \<and> history s' = history s @ [(t, recv_into (buf s t) pkt)]"
proof -
  let ?b = "recv_into (buf s t) pkt"
  let ?s1 = "goto t Received (s\<lparr>buf := (buf s)(t := ?b)\<rparr>)"
  let ?s2 = "goto t Locked (?s1\<lparr>owner := Some t\<rparr>)"
  obtain x3 l3 where x3: "enter_section big t ?b (shared s) = Inr x3" "logfile x3 = Some l3"
    using enter_section_open [OF assms(4)] by blast
  let ?s3 = "goto t Counting (into_shared ?s2 x3)"
  obtain x4 where x4: "count_protocol big ?b x3 = Inr x4"
    using count_protocol_open [OF x3(2)] by blast
  let ?s4 = "goto t Counted (into_shared ?s3 x4)"
  note defs = goto_def into_shared_def
  have "sniffs big bs (Inr ?s1)" using assms by (intro sniffs.step [OF _ receives])
  then have "sniffs big bs (Inr ?s2)" by (rule sniffs.step [OF _ locks]) (simp_all add: defs assms(2))
  then have "sniffs big bs (Inr ?s3)" using enters [of ?s2 t big] x3(1) by (auto simp: defs intro: sniffs.step)
  then have "sniffs big bs (Inr ?s4)" using counts [of ?s3 t big] x4 by (auto simp: defs intro: sniffs.step)
  then have "sniffs big bs (Inr (goto t Receiving (?s4\<lparr>owner := None, history := history ?s4 @ [(t, buf ?s4 t)]\<rparr>)))"
    by (rule sniffs.step [OF _ unlocks]) (simp add: defs)
  then show ?thesis by (intro exI conjI, assumption) (simp_all add: defs)
qed

text \<open>
  C9. At most one thread is in its critical section, and whenever the mutex is free the
  counters and the log agree with the packets processed so far, in every interleaving of the
  two threads: the total is their number, the counter of each protocol the number of packets
  of that protocol, and the log consists of their reports, none cut by another.
\<close>

theorem sniffer_consistent:
  assumes "sniffs big bs (Inr s)"
  shows "\<not> (in_section (pc_of s Raw) \<and> in_section (pc_of s Eth))
    \<and> (owner s = None \<longrightarrow>
        total (shared s) = of_nat (length (history s))
        \<and> (\<forall>p \<in> {0, 1, 2, 6, 17}. counter p (shared s)
             = of_nat (length (filter (\<lambda>(t, b). proto_class b = p) (history s))))
        \<and> (\<forall>l. logfile (shared s) = Some l \<longrightarrow> l = concat (map (report big) (history s))))"
proof -
  have ok: "mutex_ok s" "counts_ok s" "log_ok big s" using sniffs_ok [OF assms] by simp_all
  have "counted s = history s" "\<not> (\<exists>t. pc_of s t = Counting)" if "owner s = None"
    using ok(1) that by (auto simp: counted_def mutex_ok_def in_section_def)
  then show ?thesis using ok by (auto simp: mutex_ok_def counts_ok_def log_ok_def)
qed

lemma sniffs_opened: "sniffs big bs (Inr (goto Raw Receiving (started bs\<lparr>shared := initial_sniffer\<lparr>logfile := Some []\<rparr>\<rparr>)))"
  proof (rule sniffs.step [OF sniffs.start])
  show "sniff big (started bs) (Inr (goto Raw Receiving (started bs\<lparr>shared := initial_sniffer\<lparr>logfile := Some []\<rparr>\<rparr>)))"
    using opens [of "started bs" "Some []" big] by (simp add: started_def)
qed

theorem sniffer_consistent_witness:
  "\<exists>s. sniffs False (\<lambda>_. replicate 20 0) (Inr s) \<and> history s = [(Raw, replicate 9 0 @ [6] @ replicate 10 0)]
     \<and> total (shared s) = 1 \<and> counter 6 (shared s) = 1"
proof -
  let ?bs = "\<lambda>_ :: thread. replicate 20 (0 :: u8)"
  let ?s = "goto Raw Receiving (started ?bs\<lparr>shared := initial_sniffer\<lparr>logfile := Some []\<rparr>\<rparr>)"
  have "owner ?s = None" "pc_of ?s Raw = Receiving" "logfile (shared ?s) = Some []"
    by (simp_all add: goto_def started_def)
  then obtain s' where s': "sniffs False ?bs (Inr s')" "owner s' = None"
      "history s' = history ?s @ [(Raw, recv_into (buf ?s Raw) (replicate 9 0 @ [6]))]"
    using sniffs_next_packet [OF sniffs_opened, where pkt = "replicate 9 0 @ [6]"] by blast
  have "history s' = [(Raw, replicate 9 0 @ [6] @ replicate 10 0)]"
    using s'(3) by (simp add: goto_def started_def recv_into_def)
  moreover have "proto_class (replicate 9 0 @ [6] @ replicate 10 0) = 6" by (simp add: proto_class_def protocol_def nth_append)
  ultimately have "total (shared s') = 1" "counter 6 (shared s') = 1" "history s' = [(Raw, replicate 9 0 @ [6] @ replicate 10 0)]"
    using sniffer_consistent [OF s'(1)] s'(2) by simp_all
  then show ?thesis using s'(1) by blast
qed

text \<open>
  The second thread is started before the log file is opened: a packet that arrives at
  once makes the sniffer write to a NULL stream. Once the file is open no step fails.
\<close>

theorem sniffer_start_race:
  "sniffs big bs (Inl Segfault)
   \<and> (sniffs big bs (Inr s) \<and> logfile (shared s) \<noteq> None \<and> sniff big s r \<longrightarrow> (\<exists>s'. r = Inr s'))"
proof (rule conjI)
  note defs = goto_def started_def initial_sniffer_def
  let ?s1 = "goto Eth Received (started bs\<lparr>buf := (buf (started bs))(Eth := recv_into (buf (started bs) Eth) [])\<rparr>)"
  let ?s2 = "goto Eth Locked (?s1\<lparr>owner := Some Eth\<rparr>)"
  have "sniffs big bs (Inr ?s1)" by (rule sniffs.step [OF sniffs.start receives]) (simp add: defs)
  then have "sniffs big bs (Inr ?s2)" by (rule sniffs.step [OF _ locks]) (simp_all add: defs)
  moreover have "enter_section big Eth b initial_sniffer = Inl Segfault" for b
    by (simp add: enter_section_def initial_sniffer_def)
  then have "sniff big ?s2 (Inl Segfault)"
    using enters [of ?s2 Eth big] by (simp add: goto_def started_def)
  ultimately show "sniffs big bs (Inl Segfault)" by (rule sniffs.step)
  show "sniffs big bs (Inr s) \<and> logfile (shared s) \<noteq> None \<and> sniff big s r \<longrightarrow> (\<exists>s'. r = Inr s')"
    by (auto elim!: sniffE) (metis enter_section_open count_protocol_open rbind.simps(2))+
qed

theorem sniffer_start_race_witness:
  "sniffs False (\<lambda>_. []) (Inl Segfault)
   \<and> (\<exists>s r s'. sniffs False (\<lambda>_. []) (Inr s) \<and> logfile (shared s) \<noteq> None \<and> sniff False s r \<and> r = Inr s')"
proof -
  let ?s = "goto Raw Receiving (started (\<lambda>_. [])\<lparr>shared := initial_sniffer\<lparr>logfile := Some []\<rparr>\<rparr>)"
  have "sniff False ?s (Inr (goto Raw Received (?s\<lparr>buf := (buf ?s)(Raw := recv_into (buf ?s Raw) [])\<rparr>)))"
    by (rule receives) (simp add: goto_def)
  moreover have "logfile (shared ?s) \<noteq> None" by (simp add: goto_def)
  ultimately show ?thesis using sniffer_start_race [of False "\<lambda>_. []" ?s] sniffs_opened [of False "\<lambda>_. []"] by blast
qed

text \<open>
  The second thread passes the whole Ethernet frame to \<open>process_packet\<close>, which takes the frame
  for an IP packet: the counter is chosen by the fourth byte of the source address of the
  frame, whatever it carries.
\<close>

lemma count_total_simps [simp]: "logfile (count_total s) = logfile s" "counter p (count_total s) = counter p s"
  by (simp_all add: count_total_def)

theorem ethernet_frame_misread:
  assumes "length dst = 6" and "length src = 6" and "length (dst @ src @ rest) \<le> length b" and "logfile s = Some l"
    and "src ! 3 = 6"
  shows "\<exists>s'. process_packet big (recv_into b (dst @ src @ rest)) s = Inr s' \<and> tcp s' = tcp s + 1 \<and> udp s' = udp s"
proof -
  let ?b = "recv_into b (dst @ src @ rest)"
  have "protocol ?b = src ! 3" using assms(1-3) by (simp add: protocol_def recv_into_def nth_append)
  then have c: "proto_class ?b = 6" using assms(5) by (simp add: proto_class_def)
  have "logfile (count_total s) = Some l" using assms(4) by simp
  from count_protocol_open [OF this, of big ?b] obtain s' where
      "process_packet big ?b s = Inr s'"
      "\<And>p. p \<in> {0, 1, 2, 6, 17} \<Longrightarrow> counter p s' = counter p s + (if proto_class ?b = p then 1 else 0)"
    by (auto simp: process_packet_def)
  from this(1) this(2) [of 6] this(2) [of 17] show ?thesis by (simp add: c counter_def)
qed

theorem ethernet_frame_misread_witness:
  "\<exists>s'. process_packet False (recv_into (replicate 64 0) ([1, 2, 3, 4, 5, 6] @ [1, 2, 3, 6, 5, 4] @ [8, 0])) (initial_sniffer\<lparr>logfile := Some []\<rparr>)
     = Inr s' \<and> tcp s' = 1 \<and> udp s' = 0"
  using ethernet_frame_misread [of "[1, 2, 3, 4, 5, 6]" "[1, 2, 3, 6, 5, 4]" "[8, 0]" "replicate 64 0"
      "initial_sniffer\<lparr>logfile := Some []\<rparr>" "[]" False]
  by (simp add: initial_sniffer_def)

end
