(* ===== verification/Multicast_Chat.thy ===== *)
theory Multicast_Chat
  imports NP_Prelude
begin

text \<open>
  The multicast chat of \<open>UDPChatter/multicast_chat_client.c\<close>: the commands typed at one client,
  the datagrams it sends, and what a receiving thread does with a datagram. The clock, the
  success of \<open>sendto\<close> and the sender's address are parameters; \<open>send_msg\<close> is the global buffer
  of 8192 bytes that is sent as a whole, so what follows the terminator is left from earlier
  messages. Main results: a typed line is shown by every receiver, the table of subjects stays
  consistent over all events and bounds the number of subscriptions, and messages for a
  subject reach everybody.
\<close>

section \<open>State\<close>

datatype socket = Main_socket | Recv_socket nat

datatype out = Screen string | Datagram socket string bytes | Start nat

record chat =
  client_id :: string
  send_msg :: bytes
  subject_list :: "string list"
  num_groups :: nat
  num_threads :: nat
  tid :: nat
  addr :: string
  outs :: "out list"

datatype status = Running | Stopped nat

definition BUFSIZE :: nat where "BUFSIZE = 8192"
definition MAX_SUBJECTS :: nat where "MAX_SUBJECTS = 20"

definition group_of :: "nat \<Rightarrow> string" where
  "group_of n = ''239.0.0.'' @ string_of_nat n"

definition out :: "out \<Rightarrow> chat \<Rightarrow> chat" where
  "out x s = s\<lparr>outs := outs s @ [x]\<rparr>"

text \<open>
  The client before its first prompt: the address is that of the last of the \<open>num_groups\<close>
  groups, and the first receiving thread is started.
\<close>

definition chat_init :: "string \<Rightarrow> cerror + chat" where
  "chat_init cid =
     (if length cid < 256
      then Inr \<lparr>client_id = cid, send_msg = replicate BUFSIZE NUL, subject_list = replicate MAX_SUBJECTS [],
        num_groups = 1, num_threads = 1, tid = 1, addr = group_of 0, outs = [Start 0]\<rparr>
      else Inl Overflow)"

section \<open>Buffers\<close>

text \<open>\<open>sprintf\<close> and \<open>strcpy\<close> into a buffer, and \<open>strcat\<close>.\<close>

definition put_str :: "bytes \<Rightarrow> string \<Rightarrow> cerror + bytes" where
  "put_str b t = (if length t < length b then Inr (t @ NUL # drop (length t + 1) b) else Inl Overflow)"

definition strcat :: "bytes \<Rightarrow> bytes \<Rightarrow> cerror + bytes" where
  "strcat b t = put_str b (cstr b @ cstr t)"

definition append_msg :: "bytes \<Rightarrow> chat \<Rightarrow> cerror + chat" where
  "append_msg t s = rbind (strcat (send_msg s) t) (\<lambda>b. Inr (s\<lparr>send_msg := b\<rparr>))"

definition set_subject :: "nat \<Rightarrow> string \<Rightarrow> chat \<Rightarrow> cerror + chat" where
  "set_subject i t s =
     (if i < length (subject_list s) \<and> length t < 256
      then Inr (s\<lparr>subject_list := (subject_list s)[i := t]\<rparr>) else Inl Overflow)"

section \<open>Sending\<close>

text \<open>The results of the calls of \<open>sendto\<close> within one round are given by \<open>ok\<close>.\<close>

definition send_dgram :: "(bytes \<Rightarrow> bool) \<Rightarrow> socket \<Rightarrow> bytes \<Rightarrow> chat \<Rightarrow> chat \<times> status" where
  "send_dgram ok sock d s =
     (if ok d then (out (Datagram sock (addr s) d) s, Running)
      else (out (Screen (''Error in sendto()'' @ [NL])) s, Stopped 1))"

text \<open>
  The search for the closing quote: \<open>i\<close> is the index of the first character of the rest of
  the line. Running past the end of the line reads what \<open>getline\<close> has not written.
\<close>

fun scan_quote :: "nat \<Rightarrow> char \<Rightarrow> string \<Rightarrow> nat \<Rightarrow> cerror + nat option" where
  "scan_quote start nx [] i = Inl Uninitialised"
| "scan_quote start nx (c # cs) i =
     (if c = NL then Inr None
      else if start < i \<and> c = CHR 0x22 \<and> take 1 cs = [nx] then Inr (Some i)
      else scan_quote start nx cs (Suc i))"

text \<open>The loop over the subjects up to the first empty entry.\<close>

fun known :: "string list \<Rightarrow> string \<Rightarrow> cerror + bool" where
  "known [] t = Inl Overflow"
| "known (x # xs) t = (if x = [] then Inr False else if x = t then Inr True else known xs t)"

definition add_subject :: "string \<Rightarrow> chat \<Rightarrow> cerror + string option \<times> chat" where
  "add_subject t s = rbind (known (subject_list s) t) (\<lambda>k.
     if k then Inr (None, s)
     else rbind (set_subject (num_threads s - 1) t s) (\<lambda>s.
       let s = s\<lparr>num_groups := num_groups s + 1, num_threads := num_threads s + 1\<rparr> in
       if num_threads s - 1 < MAX_SUBJECTS
       then Inr (Some t, out (Screen (''Subscribed to '' @ t @ ''!'' @ [NL])) (out (Start (tid s)) (s\<lparr>tid := tid s + 1\<rparr>)))
       else Inl Overflow))"

definition subscribe :: "string \<Rightarrow> chat \<Rightarrow> cerror + string option \<times> chat" where
  "subscribe line s =
     (if take 1 (drop 11 line) = [CHR 0x22] then
        rbind (scan_quote 12 NL (drop 12 line) 12) (\<lambda>epos. case epos of
            None \<Rightarrow> Inr (None, s)
          | Some e \<Rightarrow> if e - 12 < 256 then add_subject (cstr (take (e - 12) (drop 12 line))) s else Inl Overflow)
      else Inr (None, s))"

text \<open>\<open>strncmp\<close> of an entry with the unterminated copy of the subject, over the entry's length.\<close>

fun entry_matches :: "string \<Rightarrow> string \<Rightarrow> cerror + bool" where
  "entry_matches [] u = Inr True"
| "entry_matches (c # cs) [] = Inl Uninitialised"
| "entry_matches (c # cs) (d # ds) = (if c = d then entry_matches cs ds else Inr False)"

fun send_matching :: "(bytes \<Rightarrow> bool) \<Rightarrow> string \<Rightarrow> string \<Rightarrow> nat list \<Rightarrow> bool \<Rightarrow> chat \<Rightarrow> cerror + bool \<times> chat \<times> status" where
  "send_matching ok u rest [] sent s = Inr (sent, s, Running)"
| "send_matching ok u rest (i # js) sent s =
     (if length (subject_list s) \<le> i then Inl Overflow
      else rbind (entry_matches (subject_list s ! i) u) (\<lambda>m.
        if \<not> m then send_matching ok u rest js sent s
        else if MAX_SUBJECTS \<le> i + 1 then Inl Overflow
        else rbind (append_msg rest s) (\<lambda>s.
          case send_dgram ok (Recv_socket (i + 1)) (send_msg s) s of
            (s, Running) \<Rightarrow> send_matching ok u rest js True s
          | (s, Stopped n) \<Rightarrow> Inr (sent, s, Stopped n))))"

definition sendto_subject :: "(bytes \<Rightarrow> bool) \<Rightarrow> string \<Rightarrow> chat \<Rightarrow> cerror + bool \<times> chat \<times> status" where
  "sendto_subject ok line s =
     (if take 1 (drop 8 line) = [CHR 0x22] then
        rbind (scan_quote 9 (CHR '' '') (drop 9 line) 9) (\<lambda>epos. case epos of
            None \<Rightarrow> rbind (append_msg line s) (\<lambda>s. Inr (False, s, Running))
          | Some e \<Rightarrow> if e + 1 - 9 \<le> 256
              then send_matching ok (take (e + 1 - 9) (drop 9 line)) (drop (e + 2) line) [0..<num_threads s - 1] False s
              else Inl Overflow)
      else rbind (append_msg line s) (\<lambda>s. Inr (False, s, Running)))"

text \<open>The announcement of a subject, in a zeroed buffer of 256 bytes.\<close>

definition announcement :: "string \<Rightarrow> cerror + bytes" where
  "announcement t =
     (if length t + 3 \<le> 256 then Inr (CHR ''#'' # t @ NL # replicate (256 - (length t + 2)) NUL) else Inl Overflow)"

definition finish_round :: "(bytes \<Rightarrow> bool) \<Rightarrow> bool \<Rightarrow> string option \<Rightarrow> chat \<Rightarrow> cerror + chat \<times> status" where
  "finish_round ok no_send subj s =
     (case (if no_send then (s, Running) else send_dgram ok Main_socket (send_msg s) s) of
        (s, Stopped n) \<Rightarrow> Inr (s, Stopped n)
      | (s, Running) \<Rightarrow> (case subj of
            None \<Rightarrow> Inr (s, Running)
          | Some t \<Rightarrow> rbind (announcement t) (\<lambda>d. Inr (send_dgram ok Main_socket d s))))"

text \<open>One round of the main loop; the input is \<open>None\<close> at the end of the file.\<close>

definition chat_round :: "(bytes \<Rightarrow> bool) \<Rightarrow> string \<Rightarrow> string option \<Rightarrow> chat \<Rightarrow> cerror + chat \<times> status" where
  "chat_round ok time input s =
     rbind (put_str (send_msg s) (client_id s @ '' at '' @ time @ '': '')) (\<lambda>b.
       let s = out (Screen ''Chat > '') (s\<lparr>send_msg := b\<rparr>) in
       case input of
         None \<Rightarrow> finish_round ok False None s
       | Some line \<Rightarrow>
           if strcmp_eq line (''exit'' @ [NL]) then Inr (out (Screen (''Exiting Chat...'' @ [NL])) s, Stopped 0)
           else if strcmp_eq line [NL] then Inr (s, Running)
           else if strncmp_eq line ''!subscribe '' 11 then
             rbind (subscribe line s) (\<lambda>(subj, s). finish_round ok (subj \<noteq> None) subj s)
           else if strncmp_eq line ''!sendto '' 8 then
             rbind (sendto_subject ok line s) (\<lambda>(no_send, s, st).
               if st = Running then finish_round ok no_send None s else Inr (s, st))
           else rbind (append_msg line s) (finish_round ok False None))"

section \<open>Receiving\<close>

text \<open>The search of the table for an announced subject, which is appended when it is not there.\<close>

fun learn :: "nat list \<Rightarrow> string \<Rightarrow> chat \<Rightarrow> cerror + chat" where
  "learn [] t s = Inr s"
| "learn (i # js) t s =
     (if length (subject_list s) \<le> i then Inl Overflow
      else if subject_list s ! i = t then Inr s
      else if i = num_groups s - 1 then set_subject (num_groups s) t (s\<lparr>num_groups := num_groups s + 1\<rparr>)
      else learn js t s)"

definition receive :: "string \<Rightarrow> bytes \<Rightarrow> chat \<Rightarrow> cerror + chat" where
  "receive ip d s =
     (let recvline = take BUFSIZE d @ [NUL] in
      if take 1 recvline = ''#''
      then learn [0..<num_groups s] (cstr (map (\<lambda>c. if c = NL then NUL else c) (drop 1 recvline))) s
      else Inr (out (Screen (cstr recvline)) (out (Screen (''('' @ ip @ '') '')) s)))"

section \<open>Events\<close>

datatype chat_event = Typed string "string option" | Received string bytes

fun chat_step :: "(bytes \<Rightarrow> bool) \<Rightarrow> chat \<times> status \<Rightarrow> chat_event \<Rightarrow> cerror + chat \<times> status" where
  "chat_step ok (s, Stopped n) e = Inr (s, Stopped n)"
| "chat_step ok (s, Running) (Typed time input) = chat_round ok time input s"
| "chat_step ok (s, Running) (Received ip d) = rbind (receive ip d s) (\<lambda>s. Inr (s, Running))"

definition chat_run :: "(bytes \<Rightarrow> bool) \<Rightarrow> string \<Rightarrow> chat_event list \<Rightarrow> cerror + chat \<times> status" where
  "chat_run ok cid es = rbind (chat_init cid) (\<lambda>s. rfold (chat_step ok) (s, Running) es)"

section \<open>The invariant of a client\<close>

fun starts :: "out list \<Rightarrow> nat list" where
  "starts [] = []"
| "starts (Start k # xs) = k # starts xs"
| "starts (x # xs) = starts xs"

fun dests :: "out list \<Rightarrow> string list" where
  "dests [] = []"
| "dests (Datagram sock g d # xs) = g # dests xs"
| "dests (x # xs) = dests xs"

definition table_ok :: "chat \<Rightarrow> bool" where
  "table_ok s \<longleftrightarrow> length (subject_list s) = MAX_SUBJECTS
     \<and> (\<forall>i < MAX_SUBJECTS. num_groups s \<le> i \<longrightarrow> subject_list s ! i = [])
     \<and> (\<forall>t \<in> set (subject_list s). length t < 256)"

definition threads_ok :: "chat \<Rightarrow> bool" where
  "threads_ok s \<longleftrightarrow> tid s = num_threads s \<and> 1 \<le> num_threads s \<and> num_threads s \<le> num_groups s
     \<and> num_threads s \<le> MAX_SUBJECTS \<and> starts (outs s) = [0..<tid s]"

definition dest_ok :: "chat \<Rightarrow> bool" where
  "dest_ok s \<longleftrightarrow> addr s = group_of 0 \<and> set (dests (outs s)) \<subseteq> {group_of 0}"

definition chat_ok :: "chat \<Rightarrow> bool" where
  "chat_ok s \<longleftrightarrow> length (send_msg s) = BUFSIZE \<and> table_ok s \<and> threads_ok s \<and> dest_ok s"

lemma starts_append [simp]: "starts (xs @ ys) = starts xs @ starts ys"
  by (induction xs rule: starts.induct) auto

lemma dests_append [simp]: "dests (xs @ ys) = dests xs @ dests ys"
  by (induction xs rule: dests.induct) auto

lemmas chat_inv_defs = chat_ok_def table_ok_def threads_ok_def dest_ok_def out_def

lemma put_str_length: "put_str b t = Inr b' \<Longrightarrow> length b' = length b"
  by (auto simp: put_str_def split: if_splits)

lemma append_msg_ok: "append_msg t s = Inr s' \<Longrightarrow> chat_ok s \<Longrightarrow> chat_ok s' \<and> num_threads s' = num_threads s"
  by (auto simp: append_msg_def strcat_def chat_inv_defs dest: put_str_length)

lemma send_dgram_ok: "send_dgram ok sock d s = (s', st) \<Longrightarrow> chat_ok s \<Longrightarrow> chat_ok s'"
  by (auto simp: send_dgram_def chat_inv_defs split: if_splits)

lemma screen_ok: "chat_ok s \<Longrightarrow> chat_ok (out (Screen t) s)"
  by (auto simp: chat_inv_defs)

lemma table_update:
  assumes "table_ok s" and "i < num_groups s'" and "num_groups s \<le> num_groups s'" and "length t < 256"
    and "subject_list s' = (subject_list s)[i := t]"
  shows "table_ok s'"
  using assms set_update_subset_insert [of "subject_list s" i t]
  by (auto simp: table_ok_def nth_list_update)

lemma add_subject_ok: "add_subject t s = Inr (r, s') \<Longrightarrow> chat_ok s \<Longrightarrow> chat_ok s'"
proof -
  assume a: "add_subject t s = Inr (r, s')" and ok: "chat_ok s"
  show "chat_ok s'"
  proof (cases r)
    case None
    then show ?thesis using a ok by (auto simp: add_subject_def Let_def split: if_splits)
  next
    case (Some u)
    then have s': "length t < 256" "num_threads s < MAX_SUBJECTS" and
        "s' = out (Screen (''Subscribed to '' @ t @ ''!'' @ [NL])) (out (Start (tid s))
          (s\<lparr>subject_list := (subject_list s)[num_threads s - 1 := t], num_groups := num_groups s + 1,
             num_threads := num_threads s + 1, tid := tid s + 1\<rparr>))"
      using a ok by (auto simp: add_subject_def set_subject_def Let_def chat_inv_defs split: if_splits)
    moreover from this have "table_ok s'"
      using ok by (intro table_update [of s "num_threads s - 1" s' t]) (auto simp: chat_ok_def threads_ok_def out_def)
    ultimately show ?thesis using ok by (auto simp: chat_inv_defs)
  qed
qed

lemma subscribe_ok: "subscribe line s = Inr (r, s') \<Longrightarrow> chat_ok s \<Longrightarrow> chat_ok s'"
  by (auto simp: subscribe_def split: if_splits option.splits dest: add_subject_ok)

lemma send_matching_ok:
  "send_matching ok u rest js sent s = Inr (r, s', st) \<Longrightarrow> chat_ok s \<Longrightarrow> chat_ok s'"
proof (induction js arbitrary: sent s)
  case (Cons i js)
  show ?case
  proof (cases "entry_matches (subject_list s ! i) u = Inr True")
    case True
    then obtain s1 where s1: "append_msg rest s = Inr s1"
      using Cons.prems(1) by (cases "append_msg rest s") (auto split: if_splits)
    obtain s2 st2 where s2: "send_dgram ok (Recv_socket (i + 1)) (send_msg s1) s1 = (s2, st2)" by force
    have "chat_ok s2" using s1 s2 Cons.prems(2) append_msg_ok send_dgram_ok by blast
    then show ?thesis
      using Cons True s1 s2 by (cases st2) (auto split: if_splits)
  next
    case False
    then show ?thesis using Cons by (auto split: if_splits)
  qed
qed simp

lemma sendto_subject_ok: "sendto_subject ok line s = Inr (r, s', st) \<Longrightarrow> chat_ok s \<Longrightarrow> chat_ok s'"
  by (auto simp: sendto_subject_def split: if_splits option.splits dest: append_msg_ok send_matching_ok)

lemma finish_round_ok: "finish_round ok no_send subj s = Inr (s', st) \<Longrightarrow> chat_ok s \<Longrightarrow> chat_ok s'"
  by (auto simp: finish_round_def split: if_splits prod.splits status.splits option.splits dest: send_dgram_ok)

lemma chat_round_ok:
  assumes "chat_round ok time input s = Inr (s', st)" and "chat_ok s"
  shows "chat_ok s'"
proof -
  obtain b where b: "put_str (send_msg s) (client_id s @ '' at '' @ time @ '': '') = Inr b"
    using assms(1) by (auto simp: chat_round_def)
  let ?s = "out (Screen ''Chat > '') (s\<lparr>send_msg := b\<rparr>)"
  have "chat_ok ?s" using assms(2) put_str_length [OF b] by (auto simp: chat_inv_defs)
  then show ?thesis
    using assms(1) b screen_ok [of ?s]
    by (auto simp: chat_round_def Let_def split: option.splits if_splits
        dest: subscribe_ok sendto_subject_ok append_msg_ok finish_round_ok)
qed

lemma learn_ok: "learn js t s = Inr s' \<Longrightarrow> chat_ok s \<Longrightarrow> chat_ok s'"
proof (induction js t s rule: learn.induct)
  case (2 i js t s)
  show ?case
  proof (cases "i = num_groups s - 1 \<and> subject_list s ! i \<noteq> t")
    case True
    then have "length t < 256" "num_groups s < MAX_SUBJECTS"
        and s': "s' = s\<lparr>num_groups := num_groups s + 1, subject_list := (subject_list s)[num_groups s := t]\<rparr>"
      using "2.prems" by (auto simp: set_subject_def chat_inv_defs split: if_splits)
    then have "table_ok s'"
      using "2.prems"(2) by (intro table_update [of s "num_groups s" s' t]) (auto simp: chat_ok_def)
    then show ?thesis using "2.prems"(2) s' by (auto simp: chat_ok_def threads_ok_def dest_ok_def)
  next
    case False
    then show ?thesis using 2 by (auto split: if_splits)
  qed
qed simp

lemma receive_ok: "receive ip d s = Inr s' \<Longrightarrow> chat_ok s \<Longrightarrow> chat_ok s'"
  by (auto simp: receive_def Let_def screen_ok split: if_splits dest: learn_ok)

lemma chat_step_ok: "chat_step ok (s, st) e = Inr (s', st') \<Longrightarrow> chat_ok s \<Longrightarrow> chat_ok s'"
  by (cases "(ok, (s, st), e)" rule: chat_step.cases) (auto dest: chat_round_ok receive_ok)

lemma chat_events_ok: "rfold (chat_step ok) (s, st) es = Inr (s', st') \<Longrightarrow> chat_ok s \<Longrightarrow> chat_ok s'"
proof (induction es arbitrary: s st)
  case (Cons e es)
  then show ?case by (auto dest: chat_step_ok)
qed simp

lemma chat_init_ok: "chat_init cid = Inr s \<Longrightarrow> chat_ok s"
  by (auto simp: chat_init_def chat_inv_defs MAX_SUBJECTS_def split: if_splits)

text \<open>
  Whatever is typed and received, in any order: the table of subjects has its twenty
  entries, all in bounds and empty from the number of groups on; the receiving threads are
  started once each and in order, at most twenty of them; and every datagram goes to the
  first group, also those meant for a subject.
\<close>

theorem chat_invariant:
  assumes "chat_run ok cid es = Inr (s, st)"
  shows "chat_ok s"
  using assms chat_init_ok chat_events_ok by (auto simp: chat_run_def)

theorem chat_invariant_witness:
  "\<exists>s. chat_run (\<lambda>_. True) ''bob'' [Received ''10.0.0.1'' (''#news'' @ [NL])] = Inr (s, Running)
     \<and> chat_ok s \<and> num_groups s = 2 \<and> subject_list s ! 1 = ''news''"
proof -
  let ?run = "chat_run (\<lambda>_. True) ''bob'' [Received ''10.0.0.1'' (''#news'' @ [NL])]"
  have "\<exists>s. ?run = Inr (s, Running) \<and> num_groups s = 2 \<and> subject_list s ! 1 = ''news''"
    by (simp add: chat_run_def chat_init_def receive_def BUFSIZE_def MAX_SUBJECTS_def set_subject_def)
  then show ?thesis using chat_invariant [of "\<lambda>_. True" "''bob''" "[Received ''10.0.0.1'' (''#news'' @ [NL])]"] by blast
qed

section \<open>A message is shown\<close>

text \<open>What a receiver shows of a message.\<close>

definition shown_by :: "string \<Rightarrow> string \<Rightarrow> chat \<Rightarrow> chat" where
  "shown_by ip t r = out (Screen t) (out (Screen (''('' @ ip @ '') '')) r)"

lemma put_str_fits: "length t < length b \<Longrightarrow> put_str b t = Inr (t @ NUL # drop (length t + 1) b)"
  by (simp add: put_str_def)

lemma receive_message:
  assumes "nul_free t" and "length t < BUFSIZE" and "take 1 t \<noteq> ''#''" and "t \<noteq> []"
  shows "receive ip (t @ NUL # rest) r = Inr (shown_by ip t r)"
proof -
  have "take BUFSIZE (t @ NUL # rest) @ [NUL] = t @ NUL # take (BUFSIZE - length t - 1) rest @ [NUL]"
    using assms(2) by (cases "BUFSIZE - length t") auto
  then show ?thesis using assms by (cases t) (auto simp: receive_def Let_def shown_by_def)
qed

definition heading :: "chat \<Rightarrow> string \<Rightarrow> string" where
  "heading s time = client_id s @ '' at '' @ time @ '': ''"

definition prompted :: "chat \<Rightarrow> string \<Rightarrow> chat" where
  "prompted s time = out (Screen ''Chat > '')
     (s\<lparr>send_msg := heading s time @ NUL # drop (length (heading s time) + 1) (send_msg s)\<rparr>)"

lemma prompt_fits:
  assumes "length (heading s time) < length (send_msg s)"
  shows "put_str (send_msg s) (client_id s @ '' at '' @ time @ '': '')
    = Inr (heading s time @ NUL # drop (length (heading s time) + 1) (send_msg s))"
  using put_str_fits [OF assms] by (simp add: heading_def)

lemma append_prompted:
  assumes "nul_free (heading s time @ t)" and "length (heading s time @ t) < length (send_msg s)"
  obtains rest where "append_msg t (prompted s time)
    = Inr (prompted s time\<lparr>send_msg := (heading s time @ t) @ NUL # rest\<rparr>)"
proof -
  let ?b = "send_msg (prompted s time)"
  have "length ?b = length (send_msg s)" using assms(2) by (simp add: prompted_def out_def)
  moreover have "cstr ?b = heading s time" using assms(1) by (simp add: prompted_def out_def)
  ultimately have "strcat ?b t = Inr ((heading s time @ t) @ NUL # drop (length (heading s time @ t) + 1) ?b)"
    using assms put_str_fits [of "heading s time @ t" ?b] by (simp add: strcat_def)
  then show ?thesis using that by (simp add: append_msg_def)
qed

text \<open>
  A line that is not a command is sent as one datagram to the group, and every client that
  receives it shows the sender, the time and the line, whatever earlier messages have left
  behind in the buffer.
\<close>

theorem chat_line_shown:
  assumes "chat_ok s" and "nul_free (heading s time @ line)" and "length (heading s time @ line) < BUFSIZE"
    and "take 1 (heading s time) \<noteq> ''#''"
    and "line \<notin> {''exit'' @ [NL], [NL]}" and "take 11 line \<noteq> ''!subscribe ''" and "take 8 line \<noteq> ''!sendto ''"
  shows "\<exists>s' d. chat_round (\<lambda>_. True) time (Some line) s = Inr (s', Running)
    \<and> outs s' = outs s @ [Screen ''Chat > '', Datagram Main_socket (group_of 0) d]
    \<and> subject_list s' = subject_list s
    \<and> (\<forall>ip r. receive ip d r = Inr (shown_by ip (heading s time @ line) r))"
proof -
  have len: "length (send_msg s) = BUFSIZE" "addr s = group_of 0"
    using assms(1) by (auto simp: chat_ok_def dest_ok_def)
  obtain rest where rest: "append_msg line (prompted s time)
      = Inr (prompted s time\<lparr>send_msg := (heading s time @ line) @ NUL # rest\<rparr>)"
    using append_prompted assms(2,3) len by metis
  let ?s = "prompted s time\<lparr>send_msg := (heading s time @ line) @ NUL # rest\<rparr>"
  have "nul_free line" "length (heading s time) < length (send_msg s)" using assms(2,3) len by auto
  then have "chat_round (\<lambda>_. True) time (Some line) s = rbind (append_msg line (prompted s time)) (finish_round (\<lambda>_. True) False None)"
    using assms(5-7) prompt_fits [of s time]
    by (simp add: chat_round_def Let_def strcmp_eq_def strncmp_eq_def prompted_def)
  also have "\<dots> = Inr (out (Datagram Main_socket (group_of 0) ((heading s time @ line) @ NUL # rest)) ?s, Running)"
    unfolding rest rbind.simps by (simp add: finish_round_def send_dgram_def prompted_def out_def len(2))
  finally have "chat_round (\<lambda>_. True) time (Some line) s
      = Inr (out (Datagram Main_socket (group_of 0) ((heading s time @ line) @ NUL # rest)) ?s, Running)" .
  moreover have "receive ip ((heading s time @ line) @ NUL # rest) r = Inr (shown_by ip (heading s time @ line) r)" for ip r
    using assms(2-4) by (intro receive_message) (auto simp: heading_def take_Cons' split: if_splits)
  ultimately show ?thesis by (auto simp: prompted_def out_def)
qed

lemma initial_chat:
  assumes "length cid < 256"
  obtains s where "chat_init cid = Inr s" "chat_ok s" "client_id s = cid" "subject_list s = replicate MAX_SUBJECTS []"
    "num_threads s = 1" "num_groups s = 1" "outs s = [Start 0]"
proof -
  obtain s where "chat_init cid = Inr s" using assms by (simp add: chat_init_def)
  moreover from this have "chat_ok s" by (rule chat_init_ok)
  ultimately show ?thesis using that assms by (auto simp: chat_init_def)
qed

theorem chat_line_shown_witness:
  "\<exists>s s' d. chat_init ''bob'' = Inr s \<and> chat_round (\<lambda>_. True) ''10:00'' (Some (''hello'' @ [NL])) s = Inr (s', Running)
     \<and> receive ''10.0.0.1'' d s = Inr (shown_by ''10.0.0.1'' (''bob at 10:00: hello'' @ [NL]) s)"
proof -
  obtain s where s: "chat_init ''bob'' = Inr s" "chat_ok s" "client_id s = ''bob''"
    using initial_chat [of "''bob''"] by auto
  then show ?thesis
    using chat_line_shown [of s "''10:00''" "''hello'' @ [NL]"] by (auto simp: heading_def BUFSIZE_def)
qed

section \<open>Subjects\<close>

lemma scan_quote_found:
  "NL \<notin> set t \<Longrightarrow> CHR 0x22 \<notin> set t \<Longrightarrow> start \<le> i \<Longrightarrow> start < i + length t \<Longrightarrow> nx \<noteq> CHR 0x22 \<Longrightarrow>
   scan_quote start nx (t @ CHR 0x22 # nx # rest) i = Inr (Some (i + length t))"
  by (induction t arbitrary: i) auto

lemma learn_range:
  assumes "k < num_groups r" and "num_groups r \<le> length (subject_list r)" and "t \<notin> set (take (num_groups r) (subject_list r))"
  shows "learn [k..<num_groups r] t r = set_subject (num_groups r) t (r\<lparr>num_groups := num_groups r + 1\<rparr>)"
proof -
  have miss: "subject_list r ! i \<noteq> t" if "i < num_groups r" for i
    using assms(2,3) that by (auto simp: in_set_conv_nth)
  show ?thesis using assms(1)
  proof (induction "num_groups r - k" arbitrary: k)
    case (Suc n)
    then have "[k..<num_groups r] = k # [Suc k..<num_groups r]" by (simp add: upt_conv_Cons)
    then show ?case using Suc miss [of k] assms(2) by (cases "k = num_groups r - 1") auto
  qed simp
qed

lemma learn_known:
  assumes "t \<in> set (drop k (take (num_groups r) (subject_list r)))" and "num_groups r \<le> length (subject_list r)"
  shows "learn [k..<num_groups r] t r = Inr r"
  using assms(1)
proof (induction "num_groups r - k" arbitrary: k)
  case (Suc n)
  then have k: "k < num_groups r" by simp
  then have r: "[k..<num_groups r] = k # [Suc k..<num_groups r]" by (simp add: upt_conv_Cons)
  have "drop k (take (num_groups r) (subject_list r)) = subject_list r ! k # drop (Suc k) (take (num_groups r) (subject_list r))"
    using k assms(2) by (subst Cons_nth_drop_Suc [symmetric]) auto
  then have "subject_list r ! k = t \<or> t \<in> set (drop (Suc k) (take (num_groups r) (subject_list r)))"
    using Suc.prems by auto
  moreover have "k \<noteq> num_groups r - 1 \<or> subject_list r ! k = t"
    using calculation k by auto
  ultimately show ?case using Suc k assms(2) r by auto
qed simp

lemma receive_announcement:
  assumes "announcement t = Inr d" and "nul_free t" and "NL \<notin> set t"
  shows "receive ip d r = learn [0..<num_groups r] t r"
proof -
  let ?f = "\<lambda>c. if c = NL then NUL else c"
  have d: "length d = 256" "d = CHR ''#'' # t @ NL # replicate (256 - (length t + 2)) NUL"
    using assms(1) by (auto simp: announcement_def split: if_splits)
  have "map ?f t = t" using assms(3) by (induction t) auto
  then have "cstr (map ?f (drop 1 (d @ [NUL]))) = t" using assms(2) by (simp add: d(2))
  moreover have "take BUFSIZE d = d" using d(1) by (simp add: BUFSIZE_def)
  ultimately show ?thesis by (simp add: receive_def Let_def d(2) [THEN arg_cong [of _ _ "take 1"]] del: drop_Suc_Cons)
      (simp add: d(2))
qed

definition plain_subject :: "string \<Rightarrow> bool" where
  "plain_subject t \<longleftrightarrow> t \<noteq> [] \<and> nul_free t \<and> NL \<notin> set t \<and> CHR 0x22 \<notin> set t \<and> length t + 3 \<le> 256"

lemma subscribe_new:
  assumes "plain_subject t" and "known (subject_list s) t = Inr False" and "num_threads s < MAX_SUBJECTS"
    and "chat_ok s"
  shows "subscribe (''!subscribe '' @ CHR 0x22 # t @ [CHR 0x22, NL]) s
    = Inr (Some t, out (Screen (''Subscribed to '' @ t @ ''!'' @ [NL])) (out (Start (tid s))
        (s\<lparr>subject_list := (subject_list s)[num_threads s - 1 := t], num_groups := num_groups s + 1,
           num_threads := num_threads s + 1, tid := tid s + 1\<rparr>)))"
proof -
  have "scan_quote 12 NL (t @ [CHR 0x22, NL]) 12 = Inr (Some (12 + length t))"
    using assms(1) scan_quote_found [of t 12 12 NL "[]"] by (auto simp: plain_subject_def)
  moreover have "length (subject_list s) = MAX_SUBJECTS" using assms(4) by (simp add: chat_ok_def table_ok_def)
  ultimately show ?thesis
    using assms(1-3) by (simp add: subscribe_def plain_subject_def add_subject_def set_subject_def Let_def)
qed

text \<open>
  A new subscription is stored, starts the next receiving thread and is announced to the
  group; a client that receives the announcement adds the subject to its own table once: when
  the subject is already there, nothing changes.
\<close>

theorem subscription_announced:
  assumes "chat_ok s" and "plain_subject t" and "known (subject_list s) t = Inr False" and "num_threads s < MAX_SUBJECTS"
    and "length (heading s time) < BUFSIZE"
  shows "\<exists>s' d. chat_round (\<lambda>_. True) time (Some (''!subscribe '' @ CHR 0x22 # t @ [CHR 0x22, NL])) s = Inr (s', Running)
    \<and> outs s' = outs s @ [Screen ''Chat > '', Start (tid s), Screen (''Subscribed to '' @ t @ ''!'' @ [NL]),
          Datagram Main_socket (group_of 0) d]
    \<and> subject_list s' = (subject_list s)[num_threads s - 1 := t]
    \<and> (\<forall>ip r. chat_ok r \<and> num_groups r < MAX_SUBJECTS \<longrightarrow>
          receive ip d r = Inr (if t \<in> set (take (num_groups r) (subject_list r)) then r
            else r\<lparr>num_groups := num_groups r + 1, subject_list := (subject_list r)[num_groups r := t]\<rparr>))"
proof -
  let ?line = "''!subscribe '' @ CHR 0x22 # t @ [CHR 0x22, NL]" and ?p = "prompted s time"
  have len: "length (send_msg s) = BUFSIZE" "addr s = group_of 0"
    using assms(1) by (auto simp: chat_ok_def dest_ok_def)
  have p: "chat_ok ?p" "subject_list ?p = subject_list s" "num_threads ?p = num_threads s" "tid ?p = tid s"
      "num_groups ?p = num_groups s"
    using assms(1,5) len by (auto simp: prompted_def chat_inv_defs)
  have "nul_free ?line" using assms(2) by (auto simp: plain_subject_def)
  then have round: "chat_round (\<lambda>_. True) time (Some ?line) s
      = rbind (subscribe ?line ?p) (\<lambda>(subj, s). finish_round (\<lambda>_. True) (subj \<noteq> None) subj s)"
    using prompt_fits [of s time] assms(5) len
    by (simp add: chat_round_def Let_def strcmp_eq_def strncmp_eq_def prompted_def)
  obtain d where d: "announcement t = Inr d" using assms(2) by (auto simp: plain_subject_def announcement_def)
  have "receive ip d r = Inr (if t \<in> set (take (num_groups r) (subject_list r)) then r
      else r\<lparr>num_groups := num_groups r + 1, subject_list := (subject_list r)[num_groups r := t]\<rparr>)"
    if r: "chat_ok r" "num_groups r < MAX_SUBJECTS" for ip r
  proof -
    have n: "0 < num_groups r" "length (subject_list r) = MAX_SUBJECTS"
      using r(1) by (auto simp: chat_ok_def threads_ok_def table_ok_def)
    have "receive ip d r = learn [0..<num_groups r] t r"
      using receive_announcement [OF d] assms(2) by (auto simp: plain_subject_def)
    then show ?thesis
      using n r(2) assms(2) learn_range [of 0 r t] learn_known [of t 0 r]
      by (auto simp: set_subject_def plain_subject_def)
  qed
  moreover have "subscribe ?line ?p = Inr (Some t, out (Screen (''Subscribed to '' @ t @ ''!'' @ [NL])) (out (Start (tid ?p))
        (?p\<lparr>subject_list := (subject_list ?p)[num_threads ?p - 1 := t], num_groups := num_groups ?p + 1,
           num_threads := num_threads ?p + 1, tid := tid ?p + 1\<rparr>)))"
    using subscribe_new [of t ?p] assms(2-4) p by simp
  ultimately show ?thesis
    unfolding round by (auto simp: finish_round_def d send_dgram_def out_def prompted_def len(2))
qed

theorem subscription_announced_witness:
  "\<exists>s s' d. chat_init ''bob'' = Inr s
     \<and> chat_round (\<lambda>_. True) ''10:00'' (Some (''!subscribe '' @ CHR 0x22 # ''news'' @ [CHR 0x22, NL])) s = Inr (s', Running)
     \<and> receive ''10.0.0.1'' d s = Inr (s\<lparr>num_groups := 2, subject_list := (subject_list s)[1 := ''news'']\<rparr>)"
proof -
  obtain s where s: "chat_init ''bob'' = Inr s" "chat_ok s" "client_id s = ''bob''"
      "subject_list s = replicate MAX_SUBJECTS []" "num_threads s = 1" "num_groups s = 1"
    using initial_chat [of "''bob''"] by auto
  have pre: "known (subject_list s) ''news'' = Inr False" using s(4) by (simp add: MAX_SUBJECTS_def numeral_eq_Suc)
  have plain: "plain_subject ''news''" by (simp add: plain_subject_def)
  have size: "num_threads s < MAX_SUBJECTS" "length (heading s ''10:00'') < BUFSIZE"
    using s by (simp_all add: heading_def BUFSIZE_def MAX_SUBJECTS_def)
  obtain s' d where
      r: "chat_round (\<lambda>_. True) ''10:00'' (Some (''!subscribe '' @ CHR 0x22 # ''news'' @ [CHR 0x22, NL])) s = Inr (s', Running)"
      and d: "\<forall>ip r. chat_ok r \<and> num_groups r < MAX_SUBJECTS \<longrightarrow>
        receive ip d r = Inr (if ''news'' \<in> set (take (num_groups r) (subject_list r)) then r
         else r\<lparr>num_groups := num_groups r + 1, subject_list := (subject_list r)[num_groups r := ''news'']\<rparr>)"
    using subscription_announced [OF s(2) plain pre size] by (elim exE conjE) (rule that)
  have "''news'' \<notin> set (take (num_groups s) (subject_list s))" using s(4) by (auto dest: in_set_takeD)
  then have "receive ''10.0.0.1'' d s = Inr (s\<lparr>num_groups := 2, subject_list := (subject_list s)[1 := ''news'']\<rparr>)"
    using d s(2,6) by (simp add: MAX_SUBJECTS_def)
  then show ?thesis using s(1) r by (intro exI conjI)
qed

lemma entry_matches_prefix: "entry_matches t (t @ u) = Inr True"
  by (induction t) auto

text \<open>
  A message for a subject is sent through the socket of the subject's thread, but to the
  address of the first group: every client shows it, subscribed or not.
\<close>

theorem subject_message_shown_by_all:
  assumes "chat_ok s" and "num_threads s = 2" and "subject_list s ! 0 = t" and "plain_subject t"
    and "nul_free (heading s time @ msg)" and "length (heading s time @ msg) < BUFSIZE" and "take 1 (heading s time) \<noteq> ''#''"
  shows "\<exists>s' d. chat_round (\<lambda>_. True) time (Some (''!sendto '' @ CHR 0x22 # t @ [CHR 0x22, CHR '' ''] @ msg)) s = Inr (s', Running)
    \<and> outs s' = outs s @ [Screen ''Chat > '', Datagram (Recv_socket 1) (group_of 0) d]
    \<and> (\<forall>ip r. receive ip d r = Inr (shown_by ip (heading s time @ msg) r))"
proof -
  let ?line = "''!sendto '' @ CHR 0x22 # t @ [CHR 0x22, CHR '' ''] @ msg" and ?p = "prompted s time"
  have len: "length (send_msg s) = BUFSIZE" "addr s = group_of 0" "length (subject_list s) = MAX_SUBJECTS"
    using assms(1) by (auto simp: chat_ok_def dest_ok_def table_ok_def)
  have p: "subject_list ?p = subject_list s" "num_threads ?p = 2" using assms(2) by (simp_all add: prompted_def out_def)
  have scan: "scan_quote 9 (CHR '' '') (t @ CHR 0x22 # CHR '' '' # msg) 9 = Inr (Some (9 + length t))"
    using assms(4) scan_quote_found [of t 9 9 "CHR '' ''" msg] by (auto simp: plain_subject_def)
  obtain rest where rest: "append_msg msg ?p = Inr (?p\<lparr>send_msg := (heading s time @ msg) @ NUL # rest\<rparr>)"
    using append_prompted assms(5,6) len by metis
  let ?s = "out (Datagram (Recv_socket 1) (group_of 0) ((heading s time @ msg) @ NUL # rest)) (?p\<lparr>send_msg := (heading s time @ msg) @ NUL # rest\<rparr>)"
  have "drop (length t + 2) (drop 9 ?line) = msg" "length t + 2 + 9 = 11 + length t" by simp_all
  then have cut: "drop (11 + length t) ?line = msg" by (simp only: drop_drop)
  have "length t + 1 \<le> 256" using assms(4) by (simp add: plain_subject_def)
  then have "sendto_subject (\<lambda>_. True) ?line ?p = send_matching (\<lambda>_. True) (t @ [CHR 0x22]) msg [0..<1] False ?p"
    using scan p(2) cut by (simp add: sendto_subject_def del: send_matching.simps)
  also have "\<dots> = Inr (True, ?s, Running)"
    using entry_matches_prefix [of t "[CHR 0x22]"] len rest p(1) assms(3)
    by (simp add: MAX_SUBJECTS_def send_dgram_def prompted_def out_def del: append_assoc)
  finally have "sendto_subject (\<lambda>_. True) ?line ?p = Inr (True, ?s, Running)" .
  moreover have "nul_free ?line" "length (heading s time) < length (send_msg s)"
    using assms(4-6) len by (auto simp: plain_subject_def)
  then have "chat_round (\<lambda>_. True) time (Some ?line) s = rbind (sendto_subject (\<lambda>_. True) ?line ?p) (\<lambda>(no_send, s, st).
      if st = Running then finish_round (\<lambda>_. True) no_send None s else Inr (s, st))"
    using prompt_fits [of s time] by (simp add: chat_round_def Let_def strcmp_eq_def strncmp_eq_def prompted_def)
  moreover have "receive ip ((heading s time @ msg) @ NUL # rest) r = Inr (shown_by ip (heading s time @ msg) r)" for ip r
    using assms(5-7) by (intro receive_message) (auto simp: heading_def take_Cons' split: if_splits)
  ultimately show ?thesis by (auto simp: finish_round_def prompted_def out_def)
qed

theorem subject_message_shown_by_all_witness:
  "\<exists>s s' d. chat_round (\<lambda>_. True) ''10:00'' (Some (''!sendto '' @ CHR 0x22 # ''news'' @ [CHR 0x22, CHR '' ''] @ ''hi'')) s = Inr (s', Running)
     \<and> receive ''10.0.0.1'' d s = Inr (shown_by ''10.0.0.1'' ''bob at 10:00: hi'' s)"
proof -
  let ?s = "\<lparr>client_id = ''bob'', send_msg = replicate BUFSIZE NUL, subject_list = ''news'' # replicate 19 [],
    num_groups = 2, num_threads = 2, tid = 2, addr = group_of 0, outs = [Start 0, Start 1]\<rparr>"
  have "chat_ok ?s" by (auto simp: chat_inv_defs MAX_SUBJECTS_def nth_Cons' numeral_eq_Suc)
  then show ?thesis
    using subject_message_shown_by_all [of ?s "''news''" "''10:00''" "''hi''"]
    by (auto simp: heading_def BUFSIZE_def plain_subject_def)
qed

text \<open>At the end of its input the client does not stop: it sends its heading again and again.\<close>

lemma chat_end_of_input:
  assumes "length (heading s time) < length (send_msg s)"
  shows "\<exists>s'. chat_round (\<lambda>_. True) time None s = Inr (s', Running)
    \<and> dests (outs s') = dests (outs s) @ [addr s] \<and> length (send_msg s') = length (send_msg s)"
  using assms prompt_fits [of s time]
  by (simp add: chat_round_def Let_def finish_round_def send_dgram_def out_def)

end
