(* ===== verification/Chat_Network.thy ===== *)
theory Chat_Network
  imports Multicast_Chat
begin

text \<open>
  Several clients of \<open>UDPChatter/multicast_chat_client.c\<close> on one network: their start, the
  receiving threads with \<open>pselect\<close>, timeouts and errors, and the delivery of datagrams to the
  threads that are bound to the group and port they were sent to. Datagrams can be lost,
  repeated and reordered: a step delivers any datagram that was ever sent, to one thread. Each
  thread takes the number meant for it; the structure it is passed in is out of scope by then.
  Main results: what a thread receives was sent by a client of the network under that client's
  name, only the first thread of a client ever receives anything, and a client whose first
  thread was interrupted stays deaf.
\<close>

section \<open>Start\<close>

datatype chat_start = Usage | Started "16 word" chat

text \<open>
  \<open>main\<close> up to its loop: the arguments, of which \<open>htons\<close> keeps 16 bits of the port, and the client
  before its first prompt.
\<close>

definition chat_main :: "string list \<Rightarrow> cerror + chat_start" where
  "chat_main argv =
     (if length argv \<noteq> 3 then Inr Usage
      else rbind (chat_init (argv ! 1)) (\<lambda>s. Inr (Started (word_of_int (atoi (argv ! 2))) s)))"

section \<open>The receiving threads\<close>

text \<open>The results of \<open>socket\<close>, the two calls of \<open>setsockopt\<close> and \<open>bind\<close> in the order they are made.\<close>

definition thread_setup :: "bool list \<Rightarrow> status" where
  "thread_setup calls = (if list_all id calls then Running else Stopped 1)"

datatype recv_result = Recv_interrupted | Recv_failed | Got string bytes

datatype polled = Poll_interrupted | Poll_failed | Poll_odd | Poll_ready recv_result

text \<open>
  One round of the loop of a thread: the new state, whether the process goes on, and whether
  the thread does.
\<close>

fun receiver_round :: "polled \<Rightarrow> chat \<Rightarrow> cerror + chat \<times> status \<times> bool" where
  "receiver_round Poll_interrupted s = Inr (s, Running, False)"
| "receiver_round Poll_failed s = Inr (s, Running, False)"
| "receiver_round Poll_odd s = Inr (s, Running, False)"
| "receiver_round (Poll_ready Recv_interrupted) s = Inr (s, Running, True)"
| "receiver_round (Poll_ready Recv_failed) s = Inr (s, Stopped 1, False)"
| "receiver_round (Poll_ready (Got ip d)) s = rbind (receive ip d s) (\<lambda>s. Inr (s, Running, True))"

section \<open>The network\<close>

text \<open>A client with its threads that were started and those that listen, and what they received.\<close>

record member =
  m_ip :: string
  m_port :: "16 word"
  m_chat :: chat
  m_status :: status
  m_started :: "nat set"
  m_listening :: "nat set"
  m_got :: "(nat \<times> string \<times> bytes) list"

definition joined :: "string \<Rightarrow> 16 word \<Rightarrow> chat \<Rightarrow> member" where
  "joined ip port s = \<lparr>m_ip = ip, m_port = port, m_chat = s, m_status = Running, m_started = {}, m_listening = {}, m_got = []\<rparr>"

type_synonym net = "member list"

text \<open>A line typed at a client, with the time shown in the message.\<close>

definition net_type :: "(bytes \<Rightarrow> bool) \<Rightarrow> nat \<Rightarrow> string \<Rightarrow> string option \<Rightarrow> net \<Rightarrow> net option" where
  "net_type ok i time input N =
     (if i < length N \<and> m_status (N ! i) = Running \<and> nul_free time
      then (case chat_round ok time input (m_chat (N ! i)) of
          Inl e \<Rightarrow> None
        | Inr (s, st) \<Rightarrow> Some (N[i := (N ! i)\<lparr>m_chat := s, m_status := st\<rparr>]))
      else None)"

text \<open>A thread that was created runs up to its loop.\<close>

definition net_start :: "nat \<Rightarrow> nat \<Rightarrow> bool list \<Rightarrow> net \<Rightarrow> net option" where
  "net_start i k calls N =
     (if i < length N \<and> m_status (N ! i) = Running \<and> k \<in> set (starts (outs (m_chat (N ! i)))) \<and> k \<notin> m_started (N ! i)
        \<and> length calls = 4
      then Some (N[i := (N ! i)\<lparr>m_status := thread_setup calls, m_started := insert k (m_started (N ! i)),
          m_listening := (if thread_setup calls = Running then insert k (m_listening (N ! i)) else m_listening (N ! i))\<rparr>])
      else None)"

text \<open>A round of a listening thread.\<close>

definition net_poll :: "nat \<Rightarrow> nat \<Rightarrow> polled \<Rightarrow> net \<Rightarrow> net option" where
  "net_poll j k p N =
     (if j < length N \<and> m_status (N ! j) = Running \<and> k \<in> m_listening (N ! j)
      then (case receiver_round p (m_chat (N ! j)) of
          Inl e \<Rightarrow> None
        | Inr (s, st, on) \<Rightarrow> Some (N[j := (N ! j)\<lparr>m_chat := s, m_status := st,
            m_listening := (if on then m_listening (N ! j) else m_listening (N ! j) - {k}),
            m_got := (case p of Poll_ready (Got ip d) \<Rightarrow> m_got (N ! j) @ [(k, ip, d)] | _ \<Rightarrow> m_got (N ! j))\<rparr>]))
      else None)"

text \<open>The datagrams on their way to a thread: those sent to its group and port.\<close>

definition arrives :: "net \<Rightarrow> nat \<Rightarrow> nat \<Rightarrow> string \<Rightarrow> bytes \<Rightarrow> bool" where
  "arrives N j k ip d \<longleftrightarrow> (\<exists>i < length N. \<exists>sock. ip = m_ip (N ! i) \<and> m_port (N ! i) = m_port (N ! j)
     \<and> Datagram sock (group_of k) d \<in> set (outs (m_chat (N ! i))))"

text \<open>Whether the calls of \<open>sendto\<close> succeed is chosen anew for every line that is typed.\<close>

inductive net_step :: "net \<Rightarrow> net \<Rightarrow> bool" where
  types: "net_type ok i time input N = Some M \<Longrightarrow> net_step N M"
| starts: "net_start i k calls N = Some M \<Longrightarrow> net_step N M"
| polls: "net_poll j k p N = Some M \<Longrightarrow> (\<And>ip d. p = Poll_ready (Got ip d) \<Longrightarrow> arrives N j k ip d) \<Longrightarrow> net_step N M"

inductive net_reach :: "net \<Rightarrow> net \<Rightarrow> bool" where
  here: "net_reach N N"
| step: "net_reach N M \<Longrightarrow> net_step M L \<Longrightarrow> net_reach N L"

text \<open>A network of clients that have just started.\<close>

definition net_init :: "net \<Rightarrow> bool" where
  "net_init N \<longleftrightarrow> (\<forall>m \<in> set N. \<exists>argv s. chat_main argv = Inr (Started (m_port m) s) \<and> nul_free (argv ! 1)
     \<and> m = joined (m_ip m) (m_port m) s)"

section \<open>Messages carry the name of their sender\<close>

definition headed :: "string \<Rightarrow> bytes \<Rightarrow> bool" where
  "headed cid d \<longleftrightarrow> (\<exists>time rest. cstr d = cid @ '' at '' @ time @ '': '' @ rest)"

definition signed_by :: "string \<Rightarrow> bytes \<Rightarrow> bool" where
  "signed_by cid d \<longleftrightarrow> take 1 d = ''#'' \<or> headed cid d"

definition outs_signed :: "chat \<Rightarrow> bool" where
  "outs_signed s \<longleftrightarrow> nul_free (client_id s) \<and> (\<forall>sock g d. Datagram sock g d \<in> set (outs s) \<longrightarrow> signed_by (client_id s) d)"

text \<open>The message under construction in a round that began with the outputs \<open>os\<close>.\<close>

definition building :: "string \<Rightarrow> out list \<Rightarrow> chat \<Rightarrow> bool" where
  "building cid os s \<longleftrightarrow> client_id s = cid \<and> set os \<subseteq> set (outs s) \<and> outs_signed s \<and> headed cid (send_msg s)"

lemma building_signed: "building cid os s \<Longrightarrow> signed_by cid (send_msg s)"
  by (simp add: building_def signed_by_def)

lemma building_out [simp]:
  "building cid os s \<Longrightarrow> building cid os (out (Screen t) s)" "building cid os s \<Longrightarrow> building cid os (out (Start k) s)"
  by (auto simp: building_def outs_signed_def out_def)

lemma building_cong:
  "client_id s' = client_id s \<Longrightarrow> outs s' = outs s \<Longrightarrow> send_msg s' = send_msg s \<Longrightarrow> building cid os s' \<longleftrightarrow> building cid os s"
  by (simp add: building_def outs_signed_def)

lemma headed_append: "headed cid b \<Longrightarrow> cstr b' = cstr b @ t \<Longrightarrow> headed cid b'"
  unfolding headed_def by (metis append_assoc)

lemma append_msg_cstr:
  assumes "append_msg t s = Inr s'"
  shows "cstr (send_msg s') = cstr (send_msg s) @ cstr t" "client_id s' = client_id s" "outs s' = outs s"
proof -
  have "nul_free (cstr (send_msg s) @ cstr t)" using nul_free_cstr by (simp add: nul_free_def)
  then show "cstr (send_msg s') = cstr (send_msg s) @ cstr t"
    using assms cstr_append_NUL [of "cstr (send_msg s) @ cstr t"] cstr_nul_free [of "cstr (send_msg s) @ cstr t"]
    by (auto simp: append_msg_def strcat_def put_str_def split: if_splits)
  show "client_id s' = client_id s" "outs s' = outs s"
    using assms by (auto simp: append_msg_def strcat_def put_str_def split: if_splits)
qed

lemma append_msg_building: "append_msg t s = Inr s' \<Longrightarrow> building cid os s \<Longrightarrow> building cid os s'"
  using append_msg_cstr [of t s s'] by (auto simp: building_def outs_signed_def intro: headed_append)

lemma send_dgram_building:
  "send_dgram ok sock d s = (s', st) \<Longrightarrow> building cid os s \<Longrightarrow> signed_by cid d \<Longrightarrow> building cid os s'"
  by (auto simp: send_dgram_def building_def outs_signed_def out_def split: if_splits)

lemma add_subject_building: "add_subject t s = Inr (r, s') \<Longrightarrow> building cid os s \<Longrightarrow> building cid os s'"
  by (auto simp: add_subject_def set_subject_def Let_def building_def outs_signed_def out_def split: if_splits)

lemma subscribe_building: "subscribe line s = Inr (r, s') \<Longrightarrow> building cid os s \<Longrightarrow> building cid os s'"
  by (auto simp: subscribe_def split: if_splits option.splits dest: add_subject_building)

lemma send_matching_building:
  "send_matching ok u rest js sent s = Inr (r, s', st) \<Longrightarrow> building cid os s \<Longrightarrow> building cid os s'"
proof (induction js arbitrary: sent s)
  case (Cons i js)
  show ?case
  proof (cases "entry_matches (subject_list s ! i) u = Inr True")
    case True
    then obtain s1 where s1: "append_msg rest s = Inr s1"
      using Cons.prems(1) by (cases "append_msg rest s") (auto split: if_splits)
    obtain s2 st2 where s2: "send_dgram ok (Recv_socket (i + 1)) (send_msg s1) s1 = (s2, st2)" by force
    have "building cid os s1" using append_msg_building [OF s1] Cons.prems(2) .
    then have "building cid os s2" using send_dgram_building [OF s2] building_signed by blast
    then show ?thesis
      using Cons True s1 s2 by (cases st2) (auto split: if_splits)
  next
    case False
    then show ?thesis using Cons by (auto split: if_splits)
  qed
qed simp

lemma sendto_subject_building: "sendto_subject ok line s = Inr (r, s', st) \<Longrightarrow> building cid os s \<Longrightarrow> building cid os s'"
  by (auto simp: sendto_subject_def split: if_splits option.splits dest: append_msg_building send_matching_building)

lemma announcement_signed: "announcement t = Inr d \<Longrightarrow> signed_by cid d"
  by (auto simp: announcement_def signed_by_def split: if_splits)

lemma finish_round_building: "finish_round ok no_send subj s = Inr (s', st) \<Longrightarrow> building cid os s \<Longrightarrow> building cid os s'"
  by (auto simp: finish_round_def split: if_splits prod.splits status.splits option.splits
      dest: send_dgram_building building_signed announcement_signed)

lemma chat_round_signed:
  assumes "chat_round ok time input s = Inr (s', st)" and "outs_signed s" and "nul_free time"
  shows "client_id s' = client_id s \<and> set (outs s) \<subseteq> set (outs s') \<and> outs_signed s'"
proof -
  obtain b where b: "put_str (send_msg s) (client_id s @ '' at '' @ time @ '': '') = Inr b"
    using assms(1) by (auto simp: chat_round_def)
  let ?h = "client_id s @ '' at '' @ time @ '': ''"
  let ?s = "s\<lparr>send_msg := b\<rparr>"
  have "nul_free ?h" using assms(2,3) by (simp add: outs_signed_def)
  then have "cstr b = ?h" using b by (auto simp: put_str_def simp del: append_assoc split: if_splits)
  then have "headed (client_id s) b" unfolding headed_def by (intro exI [of _ time] exI [of _ "[]"]) simp
  then have "building (client_id s) (outs s) ?s" using assms(2) by (simp add: building_def outs_signed_def)
  then have "building (client_id s) (outs s) (out (Screen ''Chat > '') ?s)" by simp
  then have "building (client_id s) (outs s) s'"
    using assms(1) b
    by (auto simp: chat_round_def Let_def split: option.splits if_splits
        dest: subscribe_building sendto_subject_building append_msg_building finish_round_building)
  then show ?thesis by (simp add: building_def)
qed

lemma learn_signed: "learn js t s = Inr s' \<Longrightarrow> client_id s' = client_id s \<and> outs s' = outs s"
  by (induction js t s rule: learn.induct) (auto simp: set_subject_def split: if_splits)

lemma receive_signed:
  assumes "receive ip d s = Inr s'" and "outs_signed s"
  shows "client_id s' = client_id s \<and> set (outs s) \<subseteq> set (outs s') \<and> outs_signed s'"
  using assms learn_signed by (auto simp: receive_def Let_def outs_signed_def out_def split: if_splits)

lemma receiver_round_signed:
  assumes "receiver_round p s = Inr (s', st, on)" and "outs_signed s"
  shows "client_id s' = client_id s \<and> set (outs s) \<subseteq> set (outs s') \<and> outs_signed s'"
  using assms by (cases "(p, s)" rule: receiver_round.cases) (auto dest: receive_signed)

lemma receiver_round_ok: "receiver_round p s = Inr (s', st, on) \<Longrightarrow> chat_ok s \<Longrightarrow> chat_ok s'"
  by (cases "(p, s)" rule: receiver_round.cases) (auto dest: receive_ok)

section \<open>The invariant of the network\<close>

definition member_ok :: "member \<Rightarrow> bool" where
  "member_ok m \<longleftrightarrow> chat_ok (m_chat m) \<and> outs_signed (m_chat m)"

definition sent_by :: "net \<Rightarrow> nat \<Rightarrow> nat \<times> string \<times> bytes \<Rightarrow> bool" where
  "sent_by N j = (\<lambda>(k, ip, d). k = 0 \<and> (\<exists>i < length N. \<exists>sock. ip = m_ip (N ! i) \<and> m_port (N ! i) = m_port (N ! j)
     \<and> Datagram sock (group_of 0) d \<in> set (outs (m_chat (N ! i))) \<and> signed_by (client_id (m_chat (N ! i))) d))"

definition net_ok :: "net \<Rightarrow> bool" where
  "net_ok N \<longleftrightarrow> (\<forall>m \<in> set N. member_ok m) \<and> (\<forall>j < length N. \<forall>x \<in> set (m_got (N ! j)). sent_by N j x)"

lemma group_of_inj: "group_of k = group_of l \<Longrightarrow> k = l"
  using atoi_string_of_int [of "int k"] atoi_string_of_int [of "int l"] by (simp add: group_of_def string_of_int_def)

lemma datagram_dest: "Datagram sock g d \<in> set os \<Longrightarrow> g \<in> set (dests os)"
  by (induction os rule: dests.induct) auto

text \<open>A step of a member that keeps its name and address and all it has sent.\<close>

definition grows :: "member \<Rightarrow> member \<Rightarrow> bool" where
  "grows m m' \<longleftrightarrow> m_ip m' = m_ip m \<and> m_port m' = m_port m \<and> client_id (m_chat m') = client_id (m_chat m)
     \<and> set (outs (m_chat m)) \<subseteq> set (outs (m_chat m'))"

lemma sent_by_update:
  assumes "sent_by N j x" and "i < length N" and "grows (N ! i) m"
  shows "sent_by (N[i := m]) j x"
proof -
  have g: "m_ip (N[i := m] ! l) = m_ip (N ! l) \<and> m_port (N[i := m] ! l) = m_port (N ! l)
    \<and> client_id (m_chat (N[i := m] ! l)) = client_id (m_chat (N ! l))
    \<and> set (outs (m_chat (N ! l))) \<subseteq> set (outs (m_chat (N[i := m] ! l)))" for l
    using assms(2,3) by (auto simp: grows_def nth_list_update)
  obtain k ip d where x: "x = (k, ip, d)" by (cases x) auto
  obtain l sock where l: "k = 0" "l < length N" "ip = m_ip (N ! l)" "m_port (N ! l) = m_port (N ! j)"
      "Datagram sock (group_of 0) d \<in> set (outs (m_chat (N ! l)))" "signed_by (client_id (m_chat (N ! l))) d"
    using assms(1) by (auto simp: sent_by_def x)
  then show ?thesis using g [of l] g [of j] unfolding sent_by_def x
    by (intro case_prodI conjI exI [of _ l] exI [of _ sock]) auto
qed

lemma net_ok_update:
  assumes "net_ok N" and "i < length N" and "member_ok m" and "grows (N ! i) m"
    and "\<And>x. x \<in> set (m_got m) \<Longrightarrow> x \<in> set (m_got (N ! i)) \<or> sent_by N i x"
  shows "net_ok (N[i := m])"
proof -
  have "\<forall>m' \<in> set (N[i := m]). member_ok m'"
    using assms(1,3) set_update_subset_insert [of N i m] unfolding net_ok_def by blast
  moreover have "sent_by (N[i := m]) j x" if "j < length (N[i := m])" "x \<in> set (m_got (N[i := m] ! j))" for j x
  proof -
    have "sent_by N j x"
    proof (cases "j = i")
      case True
      then show ?thesis using assms(1,2) assms(5) [of x] that by (simp add: net_ok_def) blast
    next
      case False
      then show ?thesis using assms(1) that by (simp add: net_ok_def)
    qed
    then show ?thesis by (rule sent_by_update [OF _ assms(2,4)])
  qed
  ultimately show ?thesis by (simp add: net_ok_def)
qed

lemma arrives_sent_by:
  assumes "net_ok N" and "arrives N j k ip d"
  shows "sent_by N j (k, ip, d)"
proof -
  obtain i sock where i: "i < length N" "ip = m_ip (N ! i)" "m_port (N ! i) = m_port (N ! j)"
      "Datagram sock (group_of k) d \<in> set (outs (m_chat (N ! i)))"
    using assms(2) by (auto simp: arrives_def)
  have ok: "chat_ok (m_chat (N ! i))" "outs_signed (m_chat (N ! i))"
    using assms(1) i(1) by (auto simp: net_ok_def member_ok_def)
  have "group_of k = group_of 0" using datagram_dest [OF i(4)] ok(1) by (auto simp: chat_ok_def dest_ok_def)
  then have "k = 0" by (rule group_of_inj)
  moreover have "signed_by (client_id (m_chat (N ! i))) d" using ok(2) i(4) by (auto simp: outs_signed_def)
  ultimately show ?thesis using i by (auto simp: sent_by_def)
qed

lemma net_step_ok:
  assumes "net_step N M" and "net_ok N"
  shows "net_ok M"
  using assms(1)
proof cases
  case (types ok i time input)
  then obtain s st where i: "i < length N" "nul_free time" "chat_round ok time input (m_chat (N ! i)) = Inr (s, st)"
      and M: "M = N[i := (N ! i)\<lparr>m_chat := s, m_status := st\<rparr>]"
    by (auto simp: net_type_def split: if_splits sum.splits prod.splits)
  have m: "member_ok (N ! i)" using assms(2) i(1) by (simp add: net_ok_def)
  have "member_ok ((N ! i)\<lparr>m_chat := s, m_status := st\<rparr>)" "grows (N ! i) ((N ! i)\<lparr>m_chat := s, m_status := st\<rparr>)"
    using m chat_round_ok [OF i(3)] chat_round_signed [OF i(3) _ i(2)] by (auto simp: member_ok_def grows_def)
  then show ?thesis unfolding M by (intro net_ok_update [OF assms(2) i(1)]) auto
next
  case (starts i k calls)
  then have i: "i < length N" by (auto simp: net_start_def split: if_splits)
  then have "member_ok (N ! i)" using assms(2) by (simp add: net_ok_def)
  moreover obtain A B st where "M = N[i := (N ! i)\<lparr>m_status := st, m_started := A, m_listening := B\<rparr>]"
    using starts unfolding net_start_def by (metis option.distinct(1) option.inject)
  ultimately show ?thesis by (auto intro!: net_ok_update [OF assms(2) i] simp: member_ok_def grows_def)
next
  case (polls j k p)
  then obtain s st on where j: "j < length N" "receiver_round p (m_chat (N ! j)) = Inr (s, st, on)"
      and M: "M = N[j := (N ! j)\<lparr>m_chat := s, m_status := st,
        m_listening := (if on then m_listening (N ! j) else m_listening (N ! j) - {k}),
        m_got := (case p of Poll_ready (Got ip d) \<Rightarrow> m_got (N ! j) @ [(k, ip, d)] | _ \<Rightarrow> m_got (N ! j))\<rparr>]"
    by (auto simp: net_poll_def split: if_splits sum.splits prod.splits)
  have m: "member_ok (N ! j)" using assms(2) j(1) by (simp add: net_ok_def)
  have got: "x \<in> set (m_got (N ! j)) \<or> sent_by N j x"
    if "x \<in> set (case p of Poll_ready (Got ip d) \<Rightarrow> m_got (N ! j) @ [(k, ip, d)] | _ \<Rightarrow> m_got (N ! j))" for x
    using that polls(2) arrives_sent_by [OF assms(2)] by (auto split: polled.splits recv_result.splits)
  show ?thesis unfolding M
    using m receiver_round_ok [OF j(2)] receiver_round_signed [OF j(2)] got
    by (intro net_ok_update [OF assms(2) j(1)]) (auto simp: member_ok_def grows_def)
qed

lemma net_reach_ok: "net_reach N M \<Longrightarrow> net_ok N \<Longrightarrow> net_ok M"
  by (induction rule: net_reach.induct) (auto intro: net_step_ok)

lemma net_init_ok: "net_init N \<Longrightarrow> net_ok N"
proof -
  assume init: "net_init N"
  have "member_ok m \<and> m_got m = []" if mem: "m \<in> set N" for m
  proof -
    obtain argv s where s: "chat_main argv = Inr (Started (m_port m) s)" "nul_free (argv ! 1)" "m = joined (m_ip m) (m_port m) s"
      using init mem unfolding net_init_def by blast
    then have c: "chat_init (argv ! 1) = Inr s" by (auto simp: chat_main_def split: if_splits)
    then have "outs_signed s" using s(2) by (auto simp: chat_init_def outs_signed_def split: if_splits)
    moreover have "m_chat m = s" "m_got m = []" using s(3) by (metis joined_def member.simps)+
    ultimately show ?thesis using chat_init_ok [OF c] by (simp add: member_ok_def)
  qed
  then show ?thesis by (simp add: net_ok_def)
qed

lemma deaf_reach:
  assumes "net_reach M L" and "net_ok M"
    and "j < length M" and "0 \<in> m_started (M ! j)" and "0 \<notin> m_listening (M ! j)"
  shows "j < length L \<and> m_got (L ! j) = m_got (M ! j) \<and> 0 \<in> m_started (L ! j) \<and> 0 \<notin> m_listening (L ! j)"
  using assms
proof (induction rule: net_reach.induct)
  case (step M K L)
  then have K: "j < length K" "m_got (K ! j) = m_got (M ! j)" "0 \<in> m_started (K ! j)" "0 \<notin> m_listening (K ! j)"
    by auto
  have okK: "net_ok K" using net_reach_ok [OF step.hyps(1)] step.prems by blast
  from step.hyps(2) show ?case
  proof cases
    case (types ok i time input)
    then show ?thesis using K by (auto simp: net_type_def nth_list_update split: if_splits sum.splits)
  next
    case (starts i k calls)
    then show ?thesis using K by (auto simp: net_start_def nth_list_update split: if_splits)
  next
    case (polls i k p)
    have "sent_by K i (k, ip, d)" if "p = Poll_ready (Got ip d)" for ip d
      using arrives_sent_by [OF okK polls(2) [OF that]] .
    then have "k = 0" if "p = Poll_ready (Got ip d)" for ip d
      using that by (simp add: sent_by_def)
    then show ?thesis using polls(1) K
      by (auto simp: net_poll_def nth_list_update split: if_splits sum.splits polled.splits recv_result.splits)
  qed
qed simp

text \<open>Two clients, the second of which listens.\<close>

definition example_argv :: "string \<Rightarrow> string list" where
  "example_argv name = [''chat'', name, ''8080'']"

lemma example_net:
  obtains N0 N where "net_init N0" "net_reach N0 N" "length N = 2" "m_status (N ! 0) = Running"
    "m_status (N ! 1) = Running" "m_started (N ! 1) = {0}" "m_listening (N ! 1) = {0}" "m_port (N ! 0) = m_port (N ! 1)"
    "client_id (m_chat (N ! 0)) = ''alice''" "m_ip (N ! 0) = ''10.0.0.1''" "m_got (N ! 1) = []"
proof -
  have port: "atoi ''8080'' = 8080" by code_simp
  obtain a where a: "chat_init ''alice'' = Inr a" "client_id a = ''alice''" using initial_chat [of "''alice''"] by auto
  obtain b where b: "chat_init ''bob'' = Inr b" "outs b = [Start 0]" using initial_chat [of "''bob''"] by auto
  let ?a = "joined ''10.0.0.1'' 8080 a" and ?b = "joined ''10.0.0.2'' 8080 b"
  let ?b' = "?b\<lparr>m_started := {0}, m_listening := {0}\<rparr>"
  have "chat_main (example_argv ''alice'') = Inr (Started 8080 a)" "chat_main (example_argv ''bob'') = Inr (Started 8080 b)"
    using a b port by (simp_all add: chat_main_def example_argv_def)
  moreover have "nul_free (example_argv ''alice'' ! 1)" "nul_free (example_argv ''bob'' ! 1)" by (simp_all add: example_argv_def)
  moreover have "?a = joined (m_ip ?a) (m_port ?a) a" "?b = joined (m_ip ?b) (m_port ?b) b" "m_port ?a = 8080" "m_port ?b = 8080"
    by (simp_all add: joined_def)
  ultimately have "net_init [?a, ?b]" unfolding net_init_def by (metis empty_iff empty_set set_ConsD)
  moreover have "net_start 1 0 [True, True, True, True] [?a, ?b] = Some [?a, ?b']"
    using b(2) by (simp add: net_start_def thread_setup_def joined_def)
  then have "net_reach [?a, ?b] [?a, ?b']" by (blast intro: net_reach.intros net_step.starts)
  ultimately show ?thesis using a(2) by (intro that [of "[?a, ?b]" "[?a, ?b']"]) (simp_all add: joined_def)
qed

lemma line_delivered:
  assumes "net_ok N" and "i < length N" and "m_status (N ! i) = Running" and "s = m_chat (N ! i)"
    and "j < length N" and "m_status (N ! j) = Running" and "0 \<in> m_listening (N ! j)" and "m_port (N ! i) = m_port (N ! j)"
    and "nul_free (heading s time @ txt1)" and "length (heading s time @ txt1) < BUFSIZE" and "take 1 (heading s time) \<noteq> ''#''"
    and "txt1 \<notin> {''exit'' @ [NL], [NL]}" and "take 11 txt1 \<noteq> ''!subscribe ''" and "take 8 txt1 \<noteq> ''!sendto ''"
  shows "\<exists>M L d. net_type (\<lambda>_. True) i time (Some txt1) N = Some M \<and> arrives M j 0 (m_ip (N ! i)) d
    \<and> net_poll j 0 (Poll_ready (Got (m_ip (N ! i)) d)) M = Some L
    \<and> m_chat (L ! j) = shown_by (m_ip (N ! i)) (heading s time @ txt1) (m_chat (M ! j))
    \<and> m_got (L ! j) = m_got (N ! j) @ [(0, m_ip (N ! i), d)]"
proof -
  have "chat_ok s" using assms(1,2,4) by (auto simp: net_ok_def member_ok_def)
  then obtain s' d where r: "chat_round (\<lambda>_. True) time (Some txt1) s = Inr (s', Running)"
      "outs s' = outs s @ [Screen ''Chat > '', Datagram Main_socket (group_of 0) d]"
      "\<And>ip r. receive ip d r = Inr (shown_by ip (heading s time @ txt1) r)"
    using chat_line_shown [OF _ assms(9-14)] by metis
  let ?m = "(N ! i)\<lparr>m_chat := s', m_status := Running\<rparr>"
  let ?M = "N[i := ?m]"
  have time: "nul_free time" using assms(9) by (simp add: heading_def)
  have M: "net_type (\<lambda>_. True) i time (Some txt1) N = Some ?M"
    using assms(2-4) r(1) time by (simp add: net_type_def)
  have mj: "j < length ?M" "m_status (?M ! j) = Running" "0 \<in> m_listening (?M ! j)" "m_got (?M ! j) = m_got (N ! j)"
      "m_port (?M ! j) = m_port (N ! j)"
    using assms(2,5-7) by (cases "j = i"; simp)+
  have "arrives ?M j 0 (m_ip (N ! i)) d"
    unfolding arrives_def using assms(2,8) mj r(2) by (intro exI [of _ i] exI [of _ Main_socket]) auto
  moreover obtain L where "net_poll j 0 (Poll_ready (Got (m_ip (N ! i)) d)) ?M = Some L"
      "m_chat (L ! j) = shown_by (m_ip (N ! i)) (heading s time @ txt1) (m_chat (?M ! j))"
      "m_got (L ! j) = m_got (N ! j) @ [(0, m_ip (N ! i), d)]"
    using mj r(3) by (simp add: net_poll_def)
  ultimately show ?thesis using M by blast
qed

section \<open>Properties\<close>

text \<open>
  C12. The integrity of the chat. In a network of clients, whatever is typed, lost, repeated,
  reordered or interrupted: everything a client has received came in through its first
  receiving thread, and is a datagram that the client at the sender's address, with the same
  port, has sent to the first group; and unless it is the announcement of a subject, its text
  starts with the name of that client and a time.
\<close>

theorem chat_integrity:
  assumes "net_init N0" and "net_reach N0 N" and "j < length N" and "(k, ip, d) \<in> set (m_got (N ! j))"
  shows "k = 0 \<and> (\<exists>i < length N. \<exists>sock. ip = m_ip (N ! i) \<and> m_port (N ! i) = m_port (N ! j)
    \<and> Datagram sock (group_of 0) d \<in> set (outs (m_chat (N ! i)))
    \<and> (take 1 d = ''#'' \<or> (\<exists>time rest. cstr d = client_id (m_chat (N ! i)) @ '' at '' @ time @ '': '' @ rest)))"
proof -
  have "net_ok N" using net_reach_ok [OF assms(2) net_init_ok [OF assms(1)]] .
  then have "sent_by N j (k, ip, d)" using assms(3,4) unfolding net_ok_def by blast
  then show ?thesis by (simp add: sent_by_def signed_by_def headed_def)
qed

theorem chat_integrity_witness:
  "\<exists>N0 N d. net_init N0 \<and> net_reach N0 N \<and> (0, ''10.0.0.1'', d) \<in> set (m_got (N ! 1))
     \<and> (\<exists>i < length N. m_ip (N ! i) = ''10.0.0.1'')"
proof -
  obtain N0 N where n: "net_init N0" "net_reach N0 N" "length N = 2" "m_status (N ! 0) = Running"
    "m_status (N ! 1) = Running" "m_listening (N ! 1) = {0}" "m_port (N ! 0) = m_port (N ! 1)"
    "client_id (m_chat (N ! 0)) = ''alice''" "m_ip (N ! 0) = ''10.0.0.1''"
    using example_net by metis
  have "net_ok N" using net_reach_ok [OF n(2) net_init_ok [OF n(1)]] .
  then obtain M L d where l: "net_type (\<lambda>_. True) 0 ''10:00'' (Some (''hi'' @ [NL])) N = Some M" "arrives M 1 0 (m_ip (N ! 0)) d"
      "net_poll 1 0 (Poll_ready (Got (m_ip (N ! 0)) d)) M = Some L" "m_got (L ! 1) = m_got (N ! 1) @ [(0, m_ip (N ! 0), d)]"
    using line_delivered [of N 0 "m_chat (N ! 0)" 1 "''10:00''" "''hi'' @ [NL]"] n by (auto simp: heading_def BUFSIZE_def)
  have "net_step N M" using l(1) by (rule net_step.types)
  moreover have "net_step M L" using l(2,3) by (intro net_step.polls) auto
  ultimately have r: "net_reach N0 L" using n(2) by (blast intro: net_reach.step)
  have j: "1 < length L" using l(1,3) n(3) by (auto simp: net_type_def net_poll_def split: if_splits sum.splits)
  have g: "(0, ''10.0.0.1'', d) \<in> set (m_got (L ! 1))" using l(4) n(9) by simp
  show ?thesis using chat_integrity [OF n(1) r j g] n(1) r g by metis
qed

text \<open>
  C13. A line typed at one client is delivered. It is sent as one datagram, which can arrive at
  the first thread of every client on the same port that listens, and such a client then shows
  the sender's address, name, time and line.
\<close>

theorem typed_line_delivered:
  assumes "net_ok N" and "i < length N" and "m_status (N ! i) = Running" and "s = m_chat (N ! i)"
    and "j < length N" and "m_status (N ! j) = Running" and "0 \<in> m_listening (N ! j)" and "m_port (N ! i) = m_port (N ! j)"
    and "nul_free (heading s time @ txt1)" and "length (heading s time @ txt1) < BUFSIZE" and "take 1 (heading s time) \<noteq> ''#''"
    and "txt1 \<notin> {''exit'' @ [NL], [NL]}" and "take 11 txt1 \<noteq> ''!subscribe ''" and "take 8 txt1 \<noteq> ''!sendto ''"
  shows "\<exists>M L d. net_type (\<lambda>_. True) i time (Some txt1) N = Some M \<and> arrives M j 0 (m_ip (N ! i)) d
    \<and> net_poll j 0 (Poll_ready (Got (m_ip (N ! i)) d)) M = Some L
    \<and> m_chat (L ! j) = shown_by (m_ip (N ! i)) (heading s time @ txt1) (m_chat (M ! j))
    \<and> m_got (L ! j) = m_got (N ! j) @ [(0, m_ip (N ! i), d)]"
  by (rule line_delivered [OF assms])

theorem typed_line_delivered_witness:
  "\<exists>N M L d. net_type (\<lambda>_. True) 0 ''10:00'' (Some (''hi'' @ [NL])) N = Some M
     \<and> net_poll 1 0 (Poll_ready (Got ''10.0.0.1'' d)) M = Some L
     \<and> m_chat (L ! 1) = shown_by ''10.0.0.1'' (''alice at 10:00: hi'' @ [NL]) (m_chat (M ! 1))"
proof -
  obtain N0 N where n: "net_init N0" "net_reach N0 N" "length N = 2" "m_status (N ! 0) = Running"
    "m_status (N ! 1) = Running" "m_listening (N ! 1) = {0}" "m_port (N ! 0) = m_port (N ! 1)"
    "client_id (m_chat (N ! 0)) = ''alice''" "m_ip (N ! 0) = ''10.0.0.1''"
    using example_net by metis
  have "net_ok N" using net_reach_ok [OF n(2) net_init_ok [OF n(1)]] .
  then show ?thesis
    using typed_line_delivered [of N 0 "m_chat (N ! 0)" 1 "''10:00''" "''hi'' @ [NL]"] n
    by (auto simp: heading_def BUFSIZE_def)
qed

text \<open>
  A client goes deaf. When the first receiving thread of a client has ended its loop,
  which an interrupted or failed \<open>pselect\<close> makes it do, the client receives nothing in any
  continuation, also through the threads of its subscriptions.
\<close>

theorem interrupted_client_deaf:
  assumes "net_init N0" and "net_reach N0 N" and "j < length N" and "0 \<in> m_started (N ! j)"
    and "net_poll j 0 p N = Some M" and "p \<in> {Poll_interrupted, Poll_failed, Poll_odd}" and "net_reach M L"
  shows "m_got (L ! j) = m_got (N ! j)"
proof -
  have ok: "net_ok N" using net_reach_ok [OF assms(2) net_init_ok [OF assms(1)]] .
  have "net_step N M" using assms(5,6) by (intro net_step.polls [of j 0 p]) auto
  then have okM: "net_ok M" using ok by (rule net_step_ok)
  have "length M = length N" "m_got (M ! j) = m_got (N ! j)" "0 \<in> m_started (M ! j)" "0 \<notin> m_listening (M ! j)"
    using assms(3-6) by (auto simp: net_poll_def split: if_splits)
  then show ?thesis using deaf_reach [OF assms(7) okM, of j] assms(3) by simp
qed

theorem interrupted_client_deaf_witness:
  "\<exists>N M. m_listening (N ! 1) = {0} \<and> net_poll 1 0 Poll_interrupted N = Some M \<and> m_got (M ! 1) = m_got (N ! 1)"
proof -
  obtain N0 N where n: "net_init N0" "net_reach N0 N" "length N = 2" "m_status (N ! 1) = Running"
    "m_started (N ! 1) = {0}" "m_listening (N ! 1) = {0}"
    using example_net by metis
  then obtain M where M: "net_poll 1 0 Poll_interrupted N = Some M" by (simp add: net_poll_def)
  have "m_got (M ! 1) = m_got (N ! 1)"
    by (rule interrupted_client_deaf [OF n(1,2) _ _ M _ net_reach.here]) (use n in simp_all)
  then show ?thesis using n(6) M by blast
qed

end
