(* ===== verification/Fork_Server.thy ===== *)
theory Fork_Server
  imports NP_Prelude
begin

text \<open>
  The programs of \<open>Fork Per Client\<close>: the server, whose children echo what they read until the
  word \<open>exit\<close>, and the clients, which take a unit of a System V semaphore while they talk. The
  call that should set the semaphore passes a number where an array is expected, so it fails
  and the value is the one the semaphore had, to which the server adds the number of clients.
  Main results: never more clients are active than the semaphore had units at the start,
  waiting clients are let in when one leaves, and a session of a client and a child echoes
  every line.
\<close>

section \<open>The child of the server\<close>

text \<open>
  The loop over what \<open>read\<close> delivers, at most 8192 bytes each time; no byte stands for the end
  of the connection. The result is what was written and whether the child has exited; a
  message that fills the buffer leaves it without a terminator.
\<close>

fun child_loop :: "bytes list \<Rightarrow> cerror + bytes list \<times> bool" where
  "child_loop [] = Inr ([], False)"
| "child_loop (d # ds) =
     (if 8192 \<le> length (cstr d) then Inl Overflow
      else if strncmp_eq d ''exit'' 4 then Inr ([cstr d], True)
      else rbind (child_loop ds) (\<lambda>(ws, e). Inr (cstr d # ws, e)))"

section \<open>The client\<close>

text \<open>
  One exchange: the line from \<open>fgets\<close> is written up to its terminator, the answer is shown. The
  loop ends when the answer starts with \<open>exit\<close>.
\<close>

fun client_loop :: "string list \<Rightarrow> bytes list \<Rightarrow> string list \<times> string list \<times> bool" where
  "client_loop (l # ls) (a # as) =
     (let shown = ''Server sent: '' @ cstr a @ [NL] in
      if strncmp_eq a ''exit'' 4 then ([cstr l], [shown], True)
      else let (ws, ss, e) = client_loop ls as in (cstr l # ws, shown # ss, e))"
| "client_loop _ _ = ([], [], False)"

section \<open>The semaphore\<close>

datatype client_state = Outside | Waiting | Talking | Gone

record hall =
  sem :: nat
  client_of :: "nat \<Rightarrow> client_state"

definition SEMVMX :: int where
  "SEMVMX = 32767"

text \<open>
  One operation on the semaphore with value \<open>v\<close>: a negative one waits until the value is large
  enough, zero waits for the value zero, and a positive one fails with \<open>ERANGE\<close> when the sum
  exceeds \<open>SEMVMX\<close>. No result means that the caller waits; a failure leaves the value.
\<close>

definition semop_value :: "int \<Rightarrow> nat \<Rightarrow> nat option" where
  "semop_value sem_op v =
     (if sem_op = 0 then (if v = 0 then Some v else None)
      else if int v + sem_op < 0 then None
      else if 0 < sem_op \<and> SEMVMX < int v + sem_op then Some v
      else Some (nat (int v + sem_op)))"

text \<open>
  The start of the server: \<open>SETALL\<close> has failed, so \<open>old\<close> is the value the semaphore already
  has; the number of clients is stored in \<open>sem_op\<close>, which has 16 bits, and the result of
  \<open>semop\<close> is not looked at.
\<close>

definition sem_start :: "int \<Rightarrow> nat \<Rightarrow> nat option" where
  "sem_start MAX_CLIENTS old = semop_value (sint (word_of_int MAX_CLIENTS :: 16 word)) old"

lemma short_small: "- 32768 \<le> i \<Longrightarrow> i \<le> 32767 \<Longrightarrow> sint (word_of_int i :: 16 word) = i"
  by (simp add: signed_of_int signed_take_bit_int_eq_self)

lemma sem_start_fresh: "0 \<le> i \<Longrightarrow> i \<le> 32767 \<Longrightarrow> sem_start i 0 = Some (nat i)"
  by (simp add: sem_start_def semop_value_def SEMVMX_def short_small)

text \<open>
  What the number of clients does outside the range of a short, and on a semaphore that was
  left behind by an earlier server.
\<close>

lemma sem_start_wraps:
  "sem_start 65537 0 = Some 1" "sem_start 40000 0 = None" "sem_start 5 3 = Some 8" "sem_start 0 3 = None"
  by (simp_all add: sem_start_def semop_value_def SEMVMX_def)

definition hall_init :: "nat \<Rightarrow> hall" where
  "hall_init units = \<lparr>sem = units, client_of = (\<lambda>_. Outside)\<rparr>"

definition enter_state :: "nat \<Rightarrow> client_state \<Rightarrow> hall \<Rightarrow> hall" where
  "enter_state c x h = h\<lparr>client_of := (client_of h)(c := x)\<rparr>"

text \<open>
  The steps of the clients: connecting, the operation -1, which waits until the value is
  positive or fails, after which the client gives up, the operation +1 after the last exchange,
  and leaving through an error, which does not give the unit back.
\<close>

inductive hall_step :: "hall \<Rightarrow> hall \<Rightarrow> bool" where
  connects: "client_of h c = Outside \<Longrightarrow> hall_step h (enter_state c Waiting h)"
| admitted: "client_of h c = Waiting \<Longrightarrow> 0 < sem h \<Longrightarrow> hall_step h (enter_state c Talking (h\<lparr>sem := sem h - 1\<rparr>))"
| refused: "client_of h c = Waiting \<Longrightarrow> hall_step h (enter_state c Outside h)"
| leaves: "client_of h c = Talking \<Longrightarrow> hall_step h (enter_state c Outside (h\<lparr>sem := sem h + 1\<rparr>))"
| fails: "client_of h c = Talking \<Longrightarrow> hall_step h (enter_state c Gone h)"

inductive hall_reach :: "nat \<Rightarrow> hall \<Rightarrow> bool" for units where
  start: "hall_reach units (hall_init units)"
| step: "hall_reach units h \<Longrightarrow> hall_step h h' \<Longrightarrow> hall_reach units h'"

inductive_cases hall_stepE: "hall_step h h'"

section \<open>The number of clients is bounded\<close>

definition holders :: "hall \<Rightarrow> nat set" where
  "holders h = {c. client_of h c = Talking \<or> client_of h c = Gone}"

lemma holders_simps [simp]:
  "holders (enter_state c Talking h) = insert c (holders h)"
  "holders (enter_state c Gone h) = insert c (holders h)"
  "holders (enter_state c Outside h) = holders h - {c}"
  "holders (enter_state c Waiting h) = holders h - {c}"
  "holders (h\<lparr>sem := n\<rparr>) = holders h"
  by (auto simp: holders_def enter_state_def)

lemma sem_simps [simp]: "sem (enter_state c x h) = sem h"
  by (simp add: enter_state_def)

lemma hall_invariant: "hall_reach m h \<Longrightarrow> finite (holders h) \<and> sem h + card (holders h) = m"
proof (induction rule: hall_reach.induct)
  case start
  then show ?case by (simp add: hall_init_def holders_def)
next
  case (step h h')
  from step.hyps(2) show ?case
  proof cases
    case (connects c)
    then have "c \<notin> holders h" by (simp add: holders_def)
    then show ?thesis using step.IH connects by simp
  next
    case (admitted c)
    then have "c \<notin> holders h" by (simp add: holders_def)
    then show ?thesis using step.IH admitted by (auto simp: Suc_diff_Suc)
  next
    case (refused c)
    then have "c \<notin> holders h" by (simp add: holders_def)
    then show ?thesis using step.IH refused by simp
  next
    case (leaves c)
    then have "c \<in> holders h" by (simp add: holders_def)
    then have "Suc (card (holders h - {c})) = card (holders h)" using step.IH by (intro card_Suc_Diff1) auto
    then have "sem h' + card (holders h') = sem h + card (holders h)" using leaves by (simp only: holders_simps sem_simps) simp
    then show ?thesis using step.IH leaves by (simp only: holders_simps finite_Diff)
  next
    case (fails c)
    then have "c \<in> holders h" by (simp add: holders_def)
    then show ?thesis using step.IH fails by (simp add: insert_absorb)
  qed
qed

text \<open>
  Of a semaphore that starts with \<open>units\<close> units, at most that many clients talk to the server
  at any time; every unit is either in the semaphore or held by a client that talks or has
  ended with an error. A client that waits can be admitted exactly when fewer units are held.
\<close>

theorem clients_bounded:
  assumes "hall_reach units h"
  shows "card {c. client_of h c = Talking} \<le> units
    \<and> sem h + card (holders h) = units
    \<and> (client_of h c = Waiting \<longrightarrow>
         (\<exists>h'. hall_step h h' \<and> client_of h' c = Talking) = (card (holders h) < units))"
proof -
  have inv: "finite (holders h)" "sem h + card (holders h) = units" using hall_invariant [OF assms] by simp_all
  have "card {c. client_of h c = Talking} \<le> card (holders h)"
    using inv(1) by (intro card_mono) (auto simp: holders_def)
  moreover have "0 < sem h" if "hall_step h h'" "client_of h' c = Talking" "client_of h c = Waiting" for h'
    using that by (auto elim!: hall_stepE simp: enter_state_def split: if_splits)
  moreover have "\<exists>h'. hall_step h h' \<and> client_of h' c = Talking" if "client_of h c = Waiting" "0 < sem h"
    using admitted [OF that] by (auto simp: enter_state_def)
  ultimately show ?thesis using inv(2) by (metis add_less_same_cancel2 le_add2 le_trans less_add_same_cancel2)
qed

theorem clients_bounded_witness:
  "\<exists>h. hall_reach 1 h \<and> client_of h 7 = Waiting \<and> (\<exists>h'. hall_step h h' \<and> client_of h' 7 = Talking)"
proof -
  let ?h = "enter_state 7 Waiting (hall_init 1)"
  have r: "hall_reach 1 ?h"
    by (rule hall_reach.step [OF hall_reach.start connects]) (simp add: hall_init_def)
  have "client_of ?h 7 = Waiting" "holders ?h = {}" by (auto simp: enter_state_def hall_init_def holders_def)
  then have "\<exists>h'. hall_step ?h h' \<and> client_of h' 7 = Talking" using clients_bounded [OF r, of 7] by (simp del: holders_simps)
  then show ?thesis using r \<open>client_of ?h 7 = Waiting\<close> by blast
qed

section \<open>A session\<close>

text \<open>A line that is not the last: it does not start with the word that ends the session.\<close>

definition talk_line :: "string \<Rightarrow> bool" where
  "talk_line l \<longleftrightarrow> nul_free l \<and> length l < 8192 \<and> take 4 l \<noteq> ''exit''"

definition exit_line :: "string \<Rightarrow> bool" where
  "exit_line l \<longleftrightarrow> nul_free l \<and> length l < 8192 \<and> take 4 l = ''exit''"

lemma child_echoes: "\<forall>l \<in> set ls. talk_line l \<Longrightarrow> exit_line x \<Longrightarrow> child_loop (ls @ x # rest) = Inr (ls @ [x], True)"
  by (induction ls) (auto simp: talk_line_def exit_line_def strncmp_eq_def not_le)

lemma client_shows: "\<forall>l \<in> set ls. talk_line l \<Longrightarrow> exit_line x \<Longrightarrow>
  client_loop (ls @ x # later) (ls @ [x]) = (ls @ [x], map (\<lambda>l. ''Server sent: '' @ l @ [NL]) (ls @ [x]), True)"
  by (induction ls) (auto simp: talk_line_def exit_line_def strncmp_eq_def)

text \<open>
  When every line a client writes is read as one message by its child, the child writes
  back exactly these lines and exits with the first one that starts with \<open>exit\<close>; the client,
  reading these answers, writes exactly the lines up to that one, shows each of them and ends.
  Neither reads what would follow.
\<close>

theorem echo_session:
  assumes "\<forall>l \<in> set ls. talk_line l" and "exit_line x"
  shows "child_loop (ls @ [x] @ rest) = Inr (ls @ [x], True)
    \<and> client_loop (ls @ [x] @ later) (ls @ [x]) = (ls @ [x], map (\<lambda>l. ''Server sent: '' @ l @ [NL]) (ls @ [x]), True)"
  using child_echoes [OF assms] client_shows [OF assms] by simp

theorem echo_session_witness:
  "child_loop [''hi'' @ [NL], ''exit'' @ [NL], ''never''] = Inr ([''hi'' @ [NL], ''exit'' @ [NL]], True)"
  using echo_session [of "[''hi'' @ [NL]]" "''exit'' @ [NL]" "[''never'']" "[]"]
  by (simp add: talk_line_def exit_line_def)

text \<open>When the client closes the connection without \<open>exit\<close>, the child goes on forever.\<close>

lemma child_never_ends: "child_loop (replicate n []) = Inr (replicate n [], False)"
  by (induction n) (auto simp: strncmp_eq_def)

end
