(* ===== verification/Fork_System.thy ===== *)
theory Fork_System
  imports Fork_Server
begin

text \<open>
  The whole system of \<open>Fork Per Client\<close>: the accepting loop of the server, its children and the
  clients, connected by byte streams and bounded by the semaphore. A read takes any part of
  what a stream holds, so lines can be split and joined on the way; a read or a write can fail,
  and a read finds the end of the stream when the other side is gone. A write takes all its
  bytes or fails. Main results: whatever the interleaving, what a client has been shown is what
  it wrote, in order and without gaps; the clients that talk are those of the abstract hall of
  \<open>Fork_Server\<close>; and the server, which never closes a connection, ends when it has used up its
  descriptors.
\<close>

section \<open>State\<close>

datatype client_phase = Away | Connected | Refused | Asking | Awaiting | Done | Left | Failed

text \<open>
  A child has crashed when it used a buffer without a terminator, and failed when a read or a
  write returned an error.
\<close>

datatype child_state = No_child | Unserved | Reads | Writes bytes | Child_exited | Child_crashed | Child_failed

record conn =
  c_phase :: client_phase
  c_child :: child_state
  c_up :: bytes
  c_down :: bytes
  c_written :: bytes
  c_shown :: bytes

record fork_sys =
  hs_sem :: nat
  hs_conn :: "nat \<Rightarrow> conn"
  hs_accepted :: nat
  hs_serving :: bool

definition no_conn :: conn where
  "no_conn = \<lparr>c_phase = Away, c_child = No_child, c_up = [], c_down = [], c_written = [], c_shown = []\<rparr>"

text \<open>
  The start of the server: its argument, which is added to the value the semaphore had before
  as \<open>sem_start\<close> has it; and the success of \<open>socket\<close> and \<open>bind\<close>.
\<close>

datatype fork_start = Fork_usage | Fork_waits | Fork_failure | Fork_running fork_sys

definition fork_main :: "string list \<Rightarrow> nat \<Rightarrow> bool \<Rightarrow> fork_start" where
  "fork_main argv old up =
     (if length argv \<noteq> 2 then Fork_usage
      else case sem_start (atoi (argv ! 1)) old of
        None \<Rightarrow> Fork_waits
      | Some units \<Rightarrow>
          if up then Fork_running \<lparr>hs_sem = units, hs_conn = (\<lambda>_. no_conn), hs_accepted = 0, hs_serving = True\<rparr>
          else Fork_failure)"

definition upd :: "nat \<Rightarrow> (conn \<Rightarrow> conn) \<Rightarrow> fork_sys \<Rightarrow> fork_sys" where
  "upd c f s = s\<lparr>hs_conn := (hs_conn s)(c := f (hs_conn s c))\<rparr>"

section \<open>Steps of the server and its children\<close>

text \<open>
  Accepting a connection: \<open>limit\<close> is the number of descriptors the server has for connections,
  none of which it ever closes. A failing \<open>fork\<close> leaves the connection without a child.
\<close>

definition accept_conn :: "nat \<Rightarrow> bool \<Rightarrow> nat \<Rightarrow> fork_sys \<Rightarrow> fork_sys option" where
  "accept_conn limit forked c s =
     (if hs_serving s \<and> c_phase (hs_conn s c) \<noteq> Away \<and> c_child (hs_conn s c) = No_child
      then Some (if hs_accepted s < limit
        then upd c (\<lambda>k. k\<lparr>c_child := (if forked then Reads else Unserved)\<rparr>) (s\<lparr>hs_accepted := hs_accepted s + 1\<rparr>)
        else s\<lparr>hs_serving := False\<rparr>)
      else None)"

text \<open>
  A read of the child returns \<open>Some n\<close> bytes or an error, which ends the child. A message that
  fills the buffer has no terminator; zero bytes are the end of the stream of a client that is
  gone, and are treated like a message.
\<close>

definition client_gone :: "conn \<Rightarrow> bool" where
  "client_gone k \<longleftrightarrow> c_phase k \<in> {Refused, Left, Failed}"

definition child_read :: "nat option \<Rightarrow> nat \<Rightarrow> fork_sys \<Rightarrow> fork_sys option" where
  "child_read num_bytes c s =
     (let k = hs_conn s c in
      if c_child k \<noteq> Reads then None
      else case num_bytes of
        None \<Rightarrow> Some (upd c (\<lambda>k. k\<lparr>c_child := Child_failed\<rparr>) s)
      | Some n \<Rightarrow>
          if n \<le> length (c_up k) \<and> n \<le> 8192 \<and> (n = 0 \<longrightarrow> c_up k = [] \<and> client_gone k)
          then Some (upd c (\<lambda>k. k\<lparr>c_up := drop n (c_up k), c_child := (if n = 8192 then Child_crashed else Writes (take n (c_up k)))\<rparr>) s)
          else None)"

text \<open>A write of the child succeeds or fails, which ends the child and loses what it has read.\<close>

definition child_write :: "bool \<Rightarrow> nat \<Rightarrow> fork_sys \<Rightarrow> fork_sys option" where
  "child_write success c s = (case c_child (hs_conn s c) of
      Writes d \<Rightarrow> Some (if success then upd c (\<lambda>k. k\<lparr>c_down := c_down k @ cstr d,
          c_child := (if strncmp_eq d ''exit'' 4 then Child_exited else Reads)\<rparr>) s
        else upd c (\<lambda>k. k\<lparr>c_child := Child_failed\<rparr>) s)
    | _ \<Rightarrow> None)"

section \<open>Steps of a client\<close>

definition client_connect :: "nat \<Rightarrow> fork_sys \<Rightarrow> fork_sys option" where
  "client_connect c s =
     (if c_phase (hs_conn s c) = Away \<and> hs_serving s then Some (upd c (\<lambda>k. k\<lparr>c_phase := Connected\<rparr>) s) else None)"

text \<open>The operation -1 waits for a unit or fails, in which case the client exits.\<close>

definition client_enter :: "bool \<Rightarrow> nat \<Rightarrow> fork_sys \<Rightarrow> fork_sys option" where
  "client_enter success c s =
     (if c_phase (hs_conn s c) \<noteq> Connected then None
      else if \<not> success then Some (upd c (\<lambda>k. k\<lparr>c_phase := Refused\<rparr>) s)
      else if 0 < hs_sem s then Some (upd c (\<lambda>k. k\<lparr>c_phase := Asking\<rparr>) (s\<lparr>hs_sem := hs_sem s - 1\<rparr>))
      else None)"

text \<open>A line from \<open>fgets\<close> is written up to its terminator.\<close>

definition client_write :: "string \<Rightarrow> nat \<Rightarrow> fork_sys \<Rightarrow> fork_sys option" where
  "client_write l c s =
     (if c_phase (hs_conn s c) = Asking \<and> length l < 8192
      then Some (upd c (\<lambda>k. k\<lparr>c_up := c_up k @ cstr l, c_written := c_written k @ cstr l, c_phase := Awaiting\<rparr>) s) else None)"

text \<open>
  The stream to a client ends when its child has shut it down; a connection without a child
  that runs is also closed when the server has ended.
\<close>

definition child_gone :: "fork_sys \<Rightarrow> conn \<Rightarrow> bool" where
  "child_gone s k \<longleftrightarrow> c_child k = Child_exited
     \<or> \<not> hs_serving s \<and> c_child k \<in> {No_child, Unserved, Child_crashed, Child_failed}"

definition client_read :: "nat \<Rightarrow> nat \<Rightarrow> fork_sys \<Rightarrow> fork_sys option" where
  "client_read n c s =
     (let k = hs_conn s c; d = take n (c_down k) in
      if c_phase k = Awaiting \<and> n \<le> length (c_down k) \<and> n \<le> 8192 \<and> (n = 0 \<longrightarrow> c_down k = [] \<and> child_gone s k)
      then Some (upd c (\<lambda>k. if n = 8192 then k\<lparr>c_phase := Failed\<rparr>
          else k\<lparr>c_down := drop n (c_down k), c_shown := c_shown k @ cstr d,
            c_phase := (if strncmp_eq d ''exit'' 4 then Done else Asking)\<rparr>) s)
      else None)"

text \<open>
  Leaving in order, where the operation +1 can fail and is then only reported, and through an
  error of \<open>read\<close> or \<open>write\<close> or a signal. A client that has left without giving its unit back
  has failed.
\<close>

definition client_leave :: "bool \<Rightarrow> nat \<Rightarrow> fork_sys \<Rightarrow> fork_sys option" where
  "client_leave success c s =
     (if c_phase (hs_conn s c) \<noteq> Done then None
      else Some (if success \<and> int (hs_sem s) < SEMVMX
        then upd c (\<lambda>k. k\<lparr>c_phase := Left\<rparr>) (s\<lparr>hs_sem := hs_sem s + 1\<rparr>)
        else upd c (\<lambda>k. k\<lparr>c_phase := Failed\<rparr>) s))"

definition client_fail :: "nat \<Rightarrow> fork_sys \<Rightarrow> fork_sys option" where
  "client_fail c s =
     (if c_phase (hs_conn s c) \<in> {Asking, Awaiting} then Some (upd c (\<lambda>k. k\<lparr>c_phase := Failed\<rparr>) s) else None)"

inductive fork_step :: "nat \<Rightarrow> fork_sys \<Rightarrow> fork_sys \<Rightarrow> bool" for limit where
  accepts: "accept_conn limit forked c s = Some t \<Longrightarrow> fork_step limit s t"
| child_reads: "child_read n c s = Some t \<Longrightarrow> fork_step limit s t"
| child_writes: "child_write success c s = Some t \<Longrightarrow> fork_step limit s t"
| client_connects: "client_connect c s = Some t \<Longrightarrow> fork_step limit s t"
| client_enters: "client_enter success c s = Some t \<Longrightarrow> fork_step limit s t"
| client_writes: "client_write l c s = Some t \<Longrightarrow> fork_step limit s t"
| client_reads: "client_read n c s = Some t \<Longrightarrow> fork_step limit s t"
| client_leaves: "client_leave success c s = Some t \<Longrightarrow> fork_step limit s t"
| client_fails: "client_fail c s = Some t \<Longrightarrow> fork_step limit s t"

inductive fork_reach :: "nat \<Rightarrow> fork_sys \<Rightarrow> fork_sys \<Rightarrow> bool" for limit where
  here: "fork_reach limit s s"
| step: "fork_reach limit s t \<Longrightarrow> fork_step limit t u \<Longrightarrow> fork_reach limit s u"

inductive_cases fork_stepE: "fork_step limit s t"

lemmas fork_ops = accept_conn_def child_read_def child_write_def client_connect_def client_enter_def client_write_def
  client_read_def client_leave_def client_fail_def

section \<open>The streams\<close>

text \<open>What a child has read and not yet written, and where the bytes of a client are.\<close>

fun in_child :: "child_state \<Rightarrow> bytes" where
  "in_child (Writes d) = d"
| "in_child _ = []"

definition stream_ok :: "conn \<Rightarrow> bool" where
  "stream_ok k \<longleftrightarrow> nul_free (c_written k) \<and>
     (if c_child k \<in> {Child_crashed, Child_failed} then (\<exists>rest. c_written k = c_shown k @ c_down k @ rest)
      else c_written k = c_shown k @ c_down k @ in_child (c_child k) @ c_up k)"

lemma conn_upd [simp]: "hs_conn (upd c f s) d = (if d = c then f (hs_conn s c) else hs_conn s d)"
  by (simp add: upd_def)

lemma stream_ok_down: "stream_ok k \<Longrightarrow> nul_free (take n (c_down k))"
  by (auto simp: stream_ok_def nul_free_def split: if_splits dest: in_set_takeD)

lemma stream_step:
  assumes "fork_step limit s t" and "stream_ok (hs_conn s c)"
  shows "stream_ok (hs_conn t c)"
  using assms(1)
proof cases
  case (accepts forked d)
  then show ?thesis using assms(2) by (auto simp: accept_conn_def stream_ok_def split: if_splits)
next
  case (child_reads n d)
  then show ?thesis using assms(2)
    by (auto simp: child_read_def Let_def stream_ok_def split: if_splits option.splits)
next
  case (child_writes success d)
  then show ?thesis using assms(2)
    by (auto simp: child_write_def stream_ok_def split: if_splits child_state.splits)
next
  case (client_connects d)
  then show ?thesis using assms(2) by (auto simp: client_connect_def stream_ok_def split: if_splits)
next
  case (client_enters success d)
  then show ?thesis using assms(2) by (auto simp: client_enter_def stream_ok_def split: if_splits)
next
  case (client_writes l d)
  then show ?thesis using assms(2) by (auto simp: client_write_def stream_ok_def split: if_splits)
next
  case (client_reads n d)
  then show ?thesis using assms(2) stream_ok_down [OF assms(2), of n]
    by (auto simp: client_read_def Let_def stream_ok_def split: if_splits)
next
  case (client_leaves success d)
  then show ?thesis using assms(2) by (auto simp: client_leave_def stream_ok_def split: if_splits)
next
  case (client_fails d)
  then show ?thesis using assms(2) by (auto simp: client_fail_def stream_ok_def split: if_splits)
qed

lemma stream_reach: "fork_reach limit s t \<Longrightarrow> stream_ok (hs_conn s c) \<Longrightarrow> stream_ok (hs_conn t c)"
  by (induction rule: fork_reach.induct) (auto intro: stream_step)

section \<open>The hall\<close>

fun seen_as :: "client_phase \<Rightarrow> client_state" where
  "seen_as Away = Outside"
| "seen_as Connected = Waiting"
| "seen_as Refused = Outside"
| "seen_as Asking = Talking"
| "seen_as Awaiting = Talking"
| "seen_as Done = Talking"
| "seen_as Left = Outside"
| "seen_as Failed = Gone"

definition hall_of :: "fork_sys \<Rightarrow> hall" where
  "hall_of s = \<lparr>sem = hs_sem s, client_of = (\<lambda>c. seen_as (c_phase (hs_conn s c)))\<rparr>"

lemma hall_of_upd:
  "hall_of (upd c f s) = enter_state c (seen_as (c_phase (f (hs_conn s c)))) (hall_of s)"
  by (auto simp: hall_of_def upd_def enter_state_def fun_eq_iff)

lemma enter_same: "client_of h c = x \<Longrightarrow> enter_state c x h = h"
  by (cases h) (auto simp: enter_state_def)

lemma hall_of_simps [simp]:
  "client_of (hall_of s) c = seen_as (c_phase (hs_conn s c))" "sem (hall_of s) = hs_sem s"
  "hall_of (s\<lparr>hs_sem := n\<rparr>) = (hall_of s)\<lparr>sem := n\<rparr>" "hall_of (s\<lparr>hs_accepted := m\<rparr>) = hall_of s"
  "hall_of (s\<lparr>hs_serving := b\<rparr>) = hall_of s"
  by (simp_all add: hall_of_def)

lemma fork_simulates:
  assumes "fork_step limit s t"
  shows "hall_step (hall_of s) (hall_of t) \<or> hall_of t = hall_of s"
  using assms
proof cases
  case (accepts forked c)
  then show ?thesis by (auto simp: accept_conn_def hall_of_upd enter_same split: if_splits)
next
  case (child_reads n c)
  then show ?thesis by (auto simp: child_read_def Let_def hall_of_upd enter_same split: if_splits option.splits)
next
  case (child_writes success c)
  then show ?thesis by (auto simp: child_write_def hall_of_upd enter_same split: child_state.splits if_splits)
next
  case (client_connects c)
  then have "hall_of t = enter_state c Waiting (hall_of s)" "c_phase (hs_conn s c) = Away"
    by (auto simp: client_connect_def hall_of_upd split: if_splits)
  then show ?thesis using connects [of "hall_of s" c] by simp
next
  case (client_enters success c)
  then consider "hall_of t = enter_state c Talking ((hall_of s)\<lparr>sem := hs_sem s - 1\<rparr>)" "c_phase (hs_conn s c) = Connected" "0 < hs_sem s"
    | "hall_of t = enter_state c Outside (hall_of s)" "c_phase (hs_conn s c) = Connected"
    by (auto simp: client_enter_def hall_of_upd split: if_splits)
  then show ?thesis using admitted [of "hall_of s" c] refused [of "hall_of s" c] by cases simp_all
next
  case (client_writes l c)
  then show ?thesis by (auto simp: client_write_def hall_of_upd enter_same split: if_splits)
next
  case (client_reads n c)
  then have "hall_of t = (if n = 8192 then enter_state c Gone (hall_of s) else hall_of s)" "c_phase (hs_conn s c) = Awaiting"
    by (auto simp: client_read_def Let_def hall_of_upd enter_same split: if_splits)
  then show ?thesis using fails [of "hall_of s" c] by simp
next
  case (client_leaves success c)
  then consider "hall_of t = enter_state c Outside ((hall_of s)\<lparr>sem := hs_sem s + 1\<rparr>)" "c_phase (hs_conn s c) = Done"
    | "hall_of t = enter_state c Gone (hall_of s)" "c_phase (hs_conn s c) = Done"
    by (auto simp: client_leave_def hall_of_upd split: if_splits)
  then show ?thesis using leaves [of "hall_of s" c] fails [of "hall_of s" c] by cases simp_all
next
  case (client_fails c)
  then have "hall_of t = enter_state c Gone (hall_of s)" "seen_as (c_phase (hs_conn s c)) = Talking"
    by (auto simp: client_fail_def hall_of_upd split: if_splits)
  then show ?thesis using fails [of "hall_of s" c] by simp
qed

lemma fork_main_running:
  assumes "fork_main argv old up = Fork_running s"
  shows "hall_of s = hall_init (hs_sem s)" "hs_conn s c = no_conn" "hs_accepted s = 0"
    "sem_start (atoi (argv ! 1)) old = Some (hs_sem s)"
  using assms by (auto simp: fork_main_def hall_of_def hall_init_def no_conn_def split: if_splits option.splits)

lemma fork_hall_reach:
  assumes "fork_reach limit s t" and "hall_reach m (hall_of s)"
  shows "hall_reach m (hall_of t)"
  using assms
proof (induction rule: fork_reach.induct)
  case (step s t u)
  then have "hall_reach m (hall_of t)" by blast
  then show ?case using fork_simulates [OF step.hyps(2)] by (metis hall_reach.step)
qed

lemma accepted_bounded: "fork_reach limit s t \<Longrightarrow> hs_accepted s \<le> limit \<Longrightarrow> hs_accepted t \<le> limit"
proof (induction rule: fork_reach.induct)
  case (step s t u)
  then have "hs_accepted t \<le> limit" by blast
  with step.hyps(2) show ?case
    by (elim fork_stepE) (auto simp: fork_ops upd_def Let_def split: if_splits child_state.splits option.splits)
qed

section \<open>A session\<close>

definition example_start :: fork_sys where
  "example_start = \<lparr>hs_sem = 1, hs_conn = (\<lambda>_. no_conn), hs_accepted = 0, hs_serving = True\<rparr>"

lemma example_runs: "fork_main [''server'', ''1''] 0 True = Fork_running example_start" "atoi ''1'' = int 1"
proof -
  have "atoi ''1'' = 1" by code_simp
  then show "fork_main [''server'', ''1''] 0 True = Fork_running example_start" "atoi ''1'' = int 1"
    by (simp_all add: fork_main_def example_start_def sem_start_fresh)
qed

lemma example_session:
  obtains s where "fork_reach 9 example_start s" "c_shown (hs_conn s 7) = ''hi''" "c_phase (hs_conn s 7) = Asking"
    "hs_accepted s = 1" "c_child (hs_conn s 7) = Reads"
proof -
  let ?run = "Option.bind (client_connect 7 example_start) (\<lambda>s. Option.bind (accept_conn 9 True 7 s) (\<lambda>s.
    Option.bind (client_enter True 7 s) (\<lambda>s. Option.bind (client_write ''hi'' 7 s) (\<lambda>s. Option.bind (child_read (Some 2) 7 s) (\<lambda>s.
    Option.bind (child_write True 7 s) (\<lambda>s. client_read 2 7 s))))))"
  obtain s where s: "?run = Some s" "c_shown (hs_conn s 7) = ''hi''" "c_phase (hs_conn s 7) = Asking" "hs_accepted s = 1"
      "c_child (hs_conn s 7) = Reads"
    by (simp add: fork_ops example_start_def upd_def no_conn_def Let_def strncmp_eq_def)
  then have "fork_reach 9 example_start s"
    by (auto simp: Option.bind_eq_Some_conv
        intro!: fork_reach.step [OF fork_reach.step [OF fork_reach.step [OF fork_reach.step [OF fork_reach.step
          [OF fork_reach.step [OF fork_reach.step [OF fork_reach.here]]]]]]]
        intro: fork_step.intros)
  then show ?thesis using s(2-5) that by blast
qed

section \<open>Properties\<close>

text \<open>
  C33. The system implements the hall: every run of the server, its children and its clients is,
  seen through the phases of the clients, a run of the abstract hall, so never more clients
  talk to the server than the semaphore had units when the server went on to accept. This is
  the number given to the server when the semaphore was at zero before and the number fits into
  the short \<open>sem_op\<close>; after an earlier server has left units behind, it is more.
\<close>

theorem fork_system_refines_hall:
  assumes "fork_main argv old up = Fork_running s0" and "fork_reach limit s0 s"
  shows "hall_reach (hs_sem s0) (hall_of s)
    \<and> card {c. c_phase (hs_conn s c) \<in> {Asking, Awaiting, Done}} \<le> hs_sem s0
    \<and> sem_start (atoi (argv ! 1)) old = Some (hs_sem s0)
    \<and> (old = 0 \<and> 0 \<le> atoi (argv ! 1) \<and> atoi (argv ! 1) \<le> 32767 \<longrightarrow> int (hs_sem s0) = atoi (argv ! 1))"
proof -
  let ?m = "hs_sem s0"
  have r: "hall_reach ?m (hall_of s)"
    using fork_hall_reach [OF assms(2)] fork_main_running(1) [OF assms(1)] hall_reach.start by metis
  have inv: "finite (holders (hall_of s))" "card (holders (hall_of s)) \<le> ?m" using hall_invariant [OF r] by auto
  have "{c. c_phase (hs_conn s c) \<in> {Asking, Awaiting, Done}} \<subseteq> holders (hall_of s)" by (auto simp: holders_def)
  then have "card {c. c_phase (hs_conn s c) \<in> {Asking, Awaiting, Done}} \<le> ?m"
    using inv card_mono [OF inv(1)] by (meson le_trans)
  then show ?thesis using r fork_main_running(4) [OF assms(1)] sem_start_fresh [of "atoi (argv ! 1)"] by auto
qed

theorem fork_system_refines_hall_witness:
  "\<exists>s. fork_reach 9 example_start s \<and> c_phase (hs_conn s 7) = Asking \<and> hall_reach 1 (hall_of s)"
proof -
  obtain s where s: "fork_reach 9 example_start s" "c_phase (hs_conn s 7) = Asking" by (rule example_session)
  have "hs_sem example_start = 1" by (simp add: example_start_def)
  then show ?thesis using fork_system_refines_hall [OF example_runs(1) s(1)] s by metis
qed

text \<open>
  C14. The echo is faithful. In every interleaving, with failing reads and writes, and however
  the streams are cut into reads, what a client has been shown is a prefix of what it wrote;
  and unless its child has crashed on a full buffer or has ended with an error of \<open>read\<close> or
  \<open>write\<close>, the bytes on the way to the client, in the child and on the way to the child are, in
  this order, exactly the rest. In these two cases the bytes on the way to the client still
  continue what it was shown.
\<close>

theorem echo_is_faithful:
  assumes "fork_main argv old up = Fork_running s0" and "fork_reach limit s0 s" and "k = hs_conn s c"
  shows "(\<exists>rest. c_written k = c_shown k @ c_down k @ rest)
    \<and> (c_child k \<notin> {Child_crashed, Child_failed} \<longrightarrow>
         c_written k = c_shown k @ c_down k @ in_child (c_child k) @ c_up k)"
proof -
  have "hs_conn s0 c = no_conn" using fork_main_running(2) [OF assms(1)] .
  then have "stream_ok (hs_conn s0 c)" by (simp add: stream_ok_def no_conn_def)
  then have "stream_ok k" using stream_reach [OF assms(2)] assms(3) by simp
  then show ?thesis by (auto simp: stream_ok_def split: if_splits)
qed

theorem echo_is_faithful_witness:
  "\<exists>s rest. fork_reach 9 example_start s \<and> c_shown (hs_conn s 7) = ''hi''
     \<and> c_written (hs_conn s 7) = ''hi'' @ c_down (hs_conn s 7) @ rest"
proof -
  obtain s where s: "fork_reach 9 example_start s" "c_shown (hs_conn s 7) = ''hi''" by (rule example_session)
  then show ?thesis using echo_is_faithful [OF example_runs(1) s(1) refl, of 7] by metis
qed

text \<open>
  The server never closes a connection: it serves at most as many clients as it has
  descriptors, and the next one ends it, whoever has left in between.
\<close>

theorem server_runs_out:
  assumes "fork_main argv old up = Fork_running s0" and "fork_reach limit s0 s"
  shows "hs_accepted s \<le> limit
    \<and> (hs_accepted s = limit \<longrightarrow> (\<forall>t. accept_conn limit forked c s = Some t \<longrightarrow> \<not> hs_serving t))"
proof -
  have "hs_accepted s0 = 0" using fork_main_running(3) [OF assms(1)] .
  then show ?thesis using accepted_bounded [OF assms(2)] by (auto simp: accept_conn_def split: if_splits)
qed

end
