(* ===== verification/Small_Tools.thy ===== *)
theory Small_Tools
  imports NP_Prelude "HOL-Library.Sublist"
begin

text \<open>
  Three small programs: \<open>Tee Command/src/tee.c\<close>, the request and the sending loop of
  \<open>HTTP Requests/client.c\<close>, and the two ways to fill a file of
  \<open>Large DataWrite Comparison/mmap_write.c\<close>. A stream that could not be opened is \<open>None\<close>; the
  results of \<open>write\<close> are a parameter. Main results: tee copies its input to every file or
  crashes, the sending loop ends and sends the whole request, and what the two files contain.
\<close>

section \<open>Tee\<close>

fun write_files :: "bytes \<Rightarrow> bytes option list \<Rightarrow> cerror + bytes option list" where
  "write_files b [] = Inr []"
| "write_files b (None # fs) = Inl Segfault"
| "write_files b (Some f # fs) = rbind (write_files b fs) (\<lambda>fs. Inr (Some (f @ b) # fs))"

function tee_loop :: "bytes \<Rightarrow> bytes \<Rightarrow> bytes option list \<Rightarrow> cerror + bytes \<times> bytes option list" where
  "tee_loop input out fs =
     (let (buffer, rest) = fread 4096 input in
      if buffer = [] then Inr (out, fs)
      else rbind (write_files buffer fs) (\<lambda>fs. tee_loop rest (out @ buffer) fs))"
  by pat_completeness auto

termination
  by (relation "measure (\<lambda>(input, out, fs). length input)") (auto simp: fread_def)

declare tee_loop.simps [simp del]

text \<open>The files are closed at the end, also one that was not opened.\<close>

definition tee_command :: "bytes \<Rightarrow> bool list \<Rightarrow> cerror + bytes \<times> bytes list" where
  "tee_command input opened =
     rbind (tee_loop input [] (map (\<lambda>ok. if ok then Some [] else None) opened)) (\<lambda>(out, fs).
       if None \<in> set fs then Inl Segfault else Inr (out, map the fs))"

lemma write_files_Some: "write_files b (map Some fs) = Inr (map (\<lambda>f. Some (f @ b)) fs)"
  by (induction fs) auto

lemma write_files_None: "None \<in> set fs \<Longrightarrow> write_files b fs = Inl Segfault"
proof (induction b fs rule: write_files.induct)
  case (3 b f fs)
  then show ?case by auto
qed auto

lemma tee_loop_Some: "tee_loop input out (map Some fs) = Inr (out @ input, map (\<lambda>f. Some (f @ input)) fs)"
proof (induction "length input" arbitrary: input out fs rule: less_induct)
  case less
  show ?case
  proof (cases "input = []")
    case False
    then have "tee_loop (drop 4096 input) (out @ take 4096 input) (map Some (map (\<lambda>f. f @ take 4096 input) fs))
        = Inr ((out @ take 4096 input) @ drop 4096 input, map (\<lambda>f. Some (f @ drop 4096 input)) (map (\<lambda>f. f @ take 4096 input) fs))"
      by (intro less) simp
    then show ?thesis
      using False write_files_Some [of "take 4096 input" fs]
      by (subst tee_loop.simps) (simp add: fread_def o_def)
  qed (subst tee_loop.simps, simp add: fread_def)
qed

lemma tee_loop_None: "None \<in> set fs \<Longrightarrow> tee_loop input out fs = (if input = [] then Inr (out, fs) else Inl Segfault)"
  by (subst tee_loop.simps) (simp add: fread_def write_files_None)

text \<open>
  C38. When every file could be opened, tee writes its whole input to the standard output and
  to each of the files, whatever its length; when one of them could not, it crashes, with an
  empty input too.
\<close>

theorem tee_copies:
  "tee_command input opened =
     (if list_all id opened then Inr (input, replicate (length opened) input) else Inl Segfault)"
proof (cases "list_all id opened")
  case True
  then have "map (\<lambda>ok. if ok then Some [] else None :: bytes option) opened = map Some (replicate (length opened) [])"
    by (induction opened) auto
  then have "tee_loop input [] (map (\<lambda>ok. if ok then Some [] else None) opened) = Inr (input, replicate (length opened) (Some input))"
    using tee_loop_Some [of input "[]" "replicate (length opened) []"] by simp
  then show ?thesis using True unfolding tee_command_def by simp
next
  case False
  then have "None \<in> set (map (\<lambda>ok. if ok then Some [] else None :: bytes option) opened)"
    by (auto simp: list_all_iff)
  then show ?thesis using False tee_loop_None [of _ input "[]"] by (simp add: tee_command_def)
qed

section \<open>An HTTP request\<close>

abbreviation CRLF :: string where "CRLF \<equiv> [CHR 0x0D, NL]"

definition http_request :: "string \<Rightarrow> string" where
  "http_request hostname =
     ''GET / HTTP/1.1'' @ CRLF @ ''Host: '' @ hostname @ CRLF @ CRLF @ ''Connection: close'' @ CRLF"

datatype send_status = Sent | Write_error | Writing

text \<open>The results of the calls of \<open>write\<close>, one after the other.\<close>

fun send_loop :: "int list \<Rightarrow> bytes \<Rightarrow> nat \<Rightarrow> bytes \<Rightarrow> bytes \<times> send_status" where
  "send_loop ws req done_bytes out =
     (if length req \<le> done_bytes then (out, Sent)
      else (case ws of
          [] \<Rightarrow> (out, Writing)
        | w # ws \<Rightarrow> if w = -1 then (out, Write_error)
            else send_loop ws req (done_bytes + nat w) (out @ take (nat w) (drop done_bytes req))))"

declare send_loop.simps [simp del]

text \<open>
  The reading loop over the results of \<open>read\<close>, where \<open>None\<close> is an error and no byte the end: what
  is written to the standard output, whose result is not looked at, and whether the loop has
  ended without an error.
\<close>

fun read_loop :: "bytes option list \<Rightarrow> bytes \<times> bool" where
  "read_loop (Some b # rs) = (if b = [] then ([], True) else (let (out, ok) = read_loop rs in (b @ out, ok)))"
| "read_loop _ = ([], False)"

text \<open>
  The client, given the success of \<open>getprotobyname\<close>, \<open>socket\<close>, \<open>gethostbyname\<close>, \<open>inet_addr\<close> and
  \<open>connect\<close>, each of which ends it when it fails, and the results of \<open>write\<close> and \<open>read\<close>: what it
  sends and shows, and whether it exits with success.
\<close>

definition http_client :: "string \<Rightarrow> bool list \<Rightarrow> int list \<Rightarrow> bytes option list \<Rightarrow> bytes \<times> bytes \<times> bool" where
  "http_client hostname calls ws reads =
     (let req = http_request hostname in
      if 1024 \<le> length req \<or> \<not> list_all id calls then ([], [], False)
      else (case send_loop ws req 0 [] of
          (out, Sent) \<Rightarrow> (out, read_loop reads)
        | (out, _) \<Rightarrow> (out, [], False)))"

lemma read_loop_answer: "\<forall>b \<in> set answer. b \<noteq> [] \<Longrightarrow> read_loop (map Some answer @ Some [] # rest) = (concat answer, True)"
  by (induction answer) auto

lemma send_loop_sends:
  assumes "done_bytes \<le> length req" and "out = take done_bytes req" and "\<forall>w \<in> set ws. 1 \<le> w"
    and "length req - done_bytes \<le> length ws"
  shows "send_loop ws req done_bytes out = (req, Sent)"
  using assms
proof (induction ws arbitrary: done_bytes out)
  case Nil
  then show ?case by (simp add: send_loop.simps)
next
  case (Cons w ws)
  show ?case
  proof (cases "length req \<le> done_bytes")
    case True
    then show ?thesis using Cons.prems by (simp add: send_loop.simps)
  next
    case False
    have out: "out @ take (nat w) (drop done_bytes req) = take (done_bytes + nat w) req"
      using Cons.prems(2) by (simp add: take_add)
    have step: "send_loop (w # ws) req done_bytes out = send_loop ws req (done_bytes + nat w) (take (done_bytes + nat w) req)"
      using False Cons.prems(3) out by (subst send_loop.simps) auto
    show ?thesis
    proof (cases "done_bytes + nat w \<le> length req")
      case True
      moreover have "1 \<le> nat w" using Cons.prems(3) by (simp add: le_nat_iff)
      ultimately show ?thesis using Cons.IH [of "done_bytes + nat w" "take (done_bytes + nat w) req"] Cons.prems(3,4) step by simp
    next
      case False
      then show ?thesis using step by (subst (asm) send_loop.simps [of ws]) simp
    qed
  qed
qed

text \<open>
  C39. When the calls that set up the connection succeed, for a host name that leaves the request
  below 1024 bytes, the sending loop ends after at most as many writes as the request has bytes,
  however little each of them takes, and has then sent the request exactly; the answer, when its
  end is reached without an error, is shown in full.
\<close>

theorem http_client_sends_request:
  assumes "length (http_request h) < 1024" and "\<forall>w \<in> set ws. 1 \<le> w" and "length (http_request h) \<le> length ws"
    and "\<forall>b \<in> set answer. b \<noteq> []" and "list_all id calls"
  shows "http_client h calls ws (map Some answer @ Some [] # rest) = (http_request h, concat answer, True)"
  using send_loop_sends [of 0 "http_request h" "[]" ws] read_loop_answer [OF assms(4)] assms
  by (simp add: http_client_def Let_def)

theorem http_client_sends_request_witness:
  "http_client ''a.b'' [True, True, True, True, True] (replicate 100 1) [Some ''ok'', Some []] = (http_request ''a.b'', ''ok'', True)"
  using http_client_sends_request [of "''a.b''" "replicate 100 1" "[''ok'']" "[True, True, True, True, True]" "[]"]
  by (simp add: http_request_def)

text \<open>The header of a request: everything before the first empty line.\<close>

fun http_header :: "string \<Rightarrow> string" where
  "http_header [] = []"
| "http_header (c # cs) = (if prefix (CRLF @ CRLF) (c # cs) then [] else c # http_header cs)"

lemma http_header_line: "CHR 0x0D \<notin> set h \<Longrightarrow> http_header (h @ CRLF @ CRLF @ rest) = h"
  by (induction h) auto

text \<open>
  The header of the request ends before the line that should close the connection: that line
  is part of the body.
\<close>

lemma http_header_without_connection:
  "CHR 0x0D \<notin> set h \<Longrightarrow> http_header (http_request h) = ''GET / HTTP/1.1'' @ CRLF @ ''Host: '' @ h"
  using http_header_line [of h "''Connection: close'' @ CRLF"] by (simp add: http_request_def)

section \<open>A form sent by HTTP\<close>

definition post_header :: "string \<Rightarrow> string \<Rightarrow> nat \<Rightarrow> string" where
  "post_header host page len =
     ''POST '' @ page @ '' HTTP/1.1'' @ CRLF @ ''Host: '' @ host @ CRLF @ ''User-Agent:Mozilla/5.0'' @ CRLF
     @ ''Content-Type: application/x-www-form-urlencoded'' @ CRLF @ ''Content-Length: '' @ string_of_nat len @ CRLF @ CRLF"

text \<open>
  The request is printed into the first 200 bytes of the buffer, of which the last is the NUL, and
  written with one call, which takes \<open>w\<close> bytes. The answer is read in pieces, each shown up to its
  first NUL.
\<close>

definition process_http :: "string \<Rightarrow> string \<Rightarrow> string \<Rightarrow> nat \<Rightarrow> bytes list \<Rightarrow> bytes \<times> string" where
  "process_http host page poststr w reads =
     (take w (take 199 (post_header host page (length poststr) @ poststr)),
      ''Poststring = '' @ poststr @ concat (map cstr (takeWhile (\<lambda>b. b \<noteq> []) reads)))"

definition post_main :: "nat \<Rightarrow> bytes list \<Rightarrow> bytes \<times> string" where
  "post_main w reads = process_http ''google.com'' ''/index.html'' CRLF w reads"

text \<open>
  The form arrives in full exactly when header and form together have less than 200 bytes; of a
  longer one only a part is sent, while the header announces its whole length.
\<close>

theorem post_form_cut:
  assumes "199 \<le> w" and "length (post_header host page (length form)) \<le> 199"
  shows "fst (process_http host page form w reads)
      = post_header host page (length form) @ take (199 - length (post_header host page (length form))) form"
    and "fst (process_http host page form w reads) = post_header host page (length form) @ form
      \<longleftrightarrow> length (post_header host page (length form)) + length form < 200"
  using assms by (auto simp: process_http_def)

lemma post_main_complete:
  "199 \<le> w \<Longrightarrow> fst (post_main w reads) = post_header ''google.com'' ''/index.html'' 2 @ CRLF"
  by (simp add: post_main_def process_http_def post_header_def string_of_nat.simps)

section \<open>Two ways to fill a file\<close>

text \<open>
  A byte is written at the end first; when the mapping succeeds, every 1024th byte of the
  mapped range is set. The file may hold something already.
\<close>

definition mmap_filewrite :: "bool \<Rightarrow> nat \<Rightarrow> bytes \<Rightarrow> bytes" where
  "mmap_filewrite mapped n f =
     (let f = fwrite_at n ''A'' f in
      if mapped then fold (\<lambda>i g. if i mod 1024 = 0 then g[i := CHR ''L''] else g) [0..<n] f else f)"

fun write_filewrite :: "nat \<Rightarrow> nat \<Rightarrow> bytes \<Rightarrow> bytes" where
  "write_filewrite 0 pos f = f"
| "write_filewrite (Suc m) pos f = write_filewrite m (pos + 1 + 1024) (fwrite_at pos ''L'' f)"

lemma mapped_bytes:
  "length (fold (\<lambda>i g. if i mod 1024 = 0 then g[i := c] else g) [0..<n] f) = length f
   \<and> (\<forall>k < length f. fold (\<lambda>i g. if i mod 1024 = 0 then g[i := c] else g) [0..<n] f ! k
        = (if k < n \<and> k mod 1024 = 0 then c else f ! k))"
  by (induction n) (auto simp: nth_update_any less_Suc_eq)

lemma write_filewrite_bytes:
  "byte_at (write_filewrite m pos f) k = (if \<exists>j < m. k = pos + 1025 * j then CHR ''L'' else byte_at f k)"
proof (induction m arbitrary: pos f)
  case (Suc m)
  have "(\<exists>j < Suc m. k = pos + 1025 * j) \<longleftrightarrow> k = pos \<or> (\<exists>j < m. k = pos + 1 + 1024 + 1025 * j)"
    by (auto simp: less_Suc_eq_0_disj)
  then show ?case using Suc [of "pos + 1 + 1024" "fwrite_at pos ''L'' f"] by (auto simp: byte_at_fwrite_at)
qed simp

text \<open>
  The two programs that are compared do not write the same file: through the mapping every
  1024th byte is set and a byte follows the range, with \<open>write\<close> every 1025th byte is set, since
  the position already advances by the byte that is written. All other bytes are kept.
\<close>

theorem filewrite_contents:
  "byte_at (mmap_filewrite True n f) k
     = (if k < n \<and> k mod 1024 = 0 then CHR ''L'' else if k = n then CHR ''A'' else byte_at f k)
   \<and> byte_at (write_filewrite m 0 f) k = (if k < 1025 * m \<and> k mod 1025 = 0 then CHR ''L'' else byte_at f k)"
proof -
  let ?f = "fwrite_at n ''A'' f"
  have len: "n < length ?f" by (simp add: length_fwrite_at)
  have "byte_at (mmap_filewrite True n f) k = (if k < n \<and> k mod 1024 = 0 then CHR ''L'' else byte_at ?f k)"
    using mapped_bytes [of "CHR ''L''" n ?f] len by (auto simp: mmap_filewrite_def byte_at_def)
  moreover have "byte_at ?f k = (if k = n then CHR ''A'' else byte_at f k)" by (auto simp: byte_at_fwrite_at)
  moreover have "(\<exists>j < m. k = 1025 * j) \<longleftrightarrow> k < 1025 * m \<and> k mod 1025 = 0" by auto
  ultimately show ?thesis using write_filewrite_bytes [of m 0 f k] by auto
qed

end
