(* ===== verification/Spec2Isabelle.thy ===== *)
theory Spec2Isabelle
  imports Transfer_Progress Channel_Setup Relay_Transfer Linked_Heap Load_Processes Line_Editor Common_Shell
    Voting Cluster_Race Client_Threads Cluster_Chat BigFS_Copy Sniffer Chat_Network Fork_System Small_Tools
begin

text \<open>
  Verification of the network and systems programs of the repository.

  The repository is a collection of C programs: two file transfer protocols over several
  channels, a process load balancer, a shell with job control, pipes and IPC broadcasts, its
  completion engine, a voting program, a cluster shell in two versions, a distributed file
  system, a packet sniffer, a multicast chat, a fork-per-client server and small tools. Each
  program is modelled by its own theories over a common prelude. The programs of one system
  interact: client and server of a transfer over their channels, the cluster shell client
  with the cluster server, the chat clients with each other over datagrams, the file system
  client with the name server; and several programs share code: the file transfers the packet
  format, the cluster shell client the line splitting and the program search of the shell,
  the shell and the voting program the line reader.

  Conventions. A C string is the list of its characters; a buffer whose size matters carries
  its capacity. What C leaves undefined, and every crash, is a value of the type \<open>cerror\<close>
  (or \<open>trie_error\<close>): \<open>Inl Segfault\<close> for NULL and released objects, \<open>Inl Overflow\<close> for an
  access outside an object, \<open>Inl Uninitialised\<close> for reading what was never written. Machine
  words are kept at their width where the program computes with them. The operating system,
  the network, the terminal library and the random numbers are parameters: what their calls
  return is an argument, what the program asks of them is collected in a log. Releasing
  memory is modelled only where it matters for later accesses. Allocations of a single byte
  that hold whole strings, which several programs make, are treated as large enough, and are
  reported as findings of the inspection.

  \<^item> \<open>NP_Prelude\<close>: C strings, \<open>atoi\<close> and decimal output, the error monad and its loop, files
    with positioned writes and their laws.

  \<^item> \<open>Wire\<close> (\<open>N-Channel-StopNWait/utils.h\<close>): byte order macros for both kinds of host, the
    header layout, the chunk reader. The conversions invert each other, the header is written
    in network order, and the chunk reader loses the last byte of a short chunk.

  \<^item> \<open>Stop_And_Wait\<close> (\<open>client.c\<close>, \<open>server.c\<close>): client and server as program counters over
    per-channel queues; \<open>act\<close> is one step of either side, \<open>reachable\<close> the reachable states, with
    packet drops and timeouts at any moment the environment chooses. With timeouts that fire
    only when nothing is on the way, the output file of a finished transfer is the input
    (without the byte the reader loses) and a channel carries at most one packet; with
    arbitrary timeouts data can be lost.

  \<^item> \<open>Transfer_Progress\<close>: the transfer ends. A potential that every step decreases and a dropped
    packet raises by at most three bounds the number of steps by the length of the file and
    the number of drops; a run is stuck only when both programs have left their loops. The
    locale \<open>measured_runs\<close> of \<open>Measured_Runs\<close> turns these laws into bounds on runs and into the
    statement that every fair schedule reaches the end; it is interpreted on the steps of the
    transfer, which gives that the file is delivered. All this is for patient timeouts, which
    fire only when nothing is on the way on the channel.

  \<^item> \<open>Channel_Setup\<close> (both \<open>main\<close> functions): the client connects a socket per channel, the server
    accepts them into its table, and other clients may connect and write at any time. For the
    client that connects first the programs implement the transfer of \<open>Stop_And_Wait\<close>, so its
    file arrives. A later connection is never served, a single one stops the server in
    \<open>accept\<close>, and connections of two clients that alternate leave channels unserved.

  \<^item> \<open>Selective_Repeat\<close> (\<open>FileTransfer-Selective-Repeat\<close>): rounds of the client, relays, server.
    The missing header is a parameter. Reassembly is independent of order and repetition; the
    relays stop before the last acknowledgement has passed. \<open>Relay_Transfer\<close> composes the three
    programs over queues of datagrams: what the server has read it has written correctly,
    but the client can end without an error although data was lost, or wait for ever.

  \<^item> \<open>Linked_Lists\<close> (both \<open>linked_list.c\<close>): the locale \<open>fifo\<close>, interpreted on both lists.
    \<open>Linked_Heap\<close> is the list of the N-channel transfer on a memory of nodes, whose operations
    implement those on lists; its loops over the pointers are partial functions, and end on
    every list in memory.

  \<^item> \<open>Load_Balancer\<close>, \<open>Load_Rotor\<close> and \<open>Load_Processes\<close> (\<open>load_balancer.h\<close>, \<open>load_balancer.c\<close>): the
    queue of children on an explicit heap of nodes, and the parent and its children with their
    signal handlers as a step relation. The queue is built well formed. The pointer updates of
    the dispatch loop implement a rotor walk: not a round robin, but a sequence of period
    \<open>n * n\<close> that signals each of \<open>n\<close> children equally often. In every interleaving the parent goes
    on, outputs are the first line of the file and no waiting child starves; a child fails
    exactly when it has read more often than it has descriptors, none of which it closes; a
    child that is signalled before it has installed its handler is lost. The printing loop may
    run forever on a malformed heap and is a partial function.

  \<^item> \<open>Trie\<close> and \<open>Line_Editor\<close> (\<open>MyShell/engine.c\<close>): the locale \<open>word_store\<close> states what a set of
    words promises and is interpreted on the trie; completion lists exactly the extensions of
    a prefix in order; the editor submits what is typed, and completion by Tab does not change
    what is submitted. \<open>engine_main\<close> is bounded by a number of lines, each of which consumes
    at least one key.

  \<^item> \<open>Shell_Jobs\<close>, \<open>Shell_Parse\<close>, \<open>Shell_Pipe\<close>, \<open>Shell_Main\<close> (\<open>MyShell/shell.c\<close>): the job list with
    the locale \<open>job_table\<close>, a finite map from pids to jobs, interpreted on it; line reading,
    argument splitting, search path and prompt with their buffer bounds; splitting at pipes
    and the wiring of the children, redirection, message-queue and shared-memory broadcast;
    one input line through the main loop and sessions as the inductive predicate \<open>session\<close>.
    As long as no \<open>fork\<close> fails the job table stays usable in every session, with pids that may be
    reused; an ordinary line runs exactly the program it names, a pipeline is wired in order, a
    broadcast reaches its one command and overflows an array with more. The defects shown are a
    flag that is never reset, lines that crash the shell, exit codes taken for stop signals, and
    a failed \<open>fork\<close> that is entered as a job. \<open>Common_Shell\<close> (\<open>ClusterShell/common.c\<close>) models the functions in which
    the older copy of the shell differs, and shows for which inputs it behaves the same.

  \<^item> \<open>Line_Source\<close> and \<open>Shell_Session\<close>: the locale \<open>line_source\<close> states what a line reader promises
    and proves what the loop over the lines then does; it is interpreted on the line readers of
    the shell and of the voting program. \<open>shell_main\<close> is the whole shell from configuration file
    and standard input: a script of commands, for which \<open>fork\<close> succeeds and which exit with
    code 0, is run exactly, and the end of the input does not end the loop.

  \<^item> \<open>Voting\<close> (\<open>Voting System/msg.c\<close>): with one child every decision is the majority of the votes
    cast, and with more children the array of votes, which has room for one, overflows. The main
    loop is bounded by a number of input lines; one more than the votes is enough, as the
    theorem shows.

  \<^item> \<open>Client_Registry\<close>, \<open>Cluster_Server\<close> (\<open>ClusterShell/clustershell_server.c\<close>), \<open>Cluster_Client\<close>
    (\<open>clustershell_client.c\<close>) and \<open>Cluster_Chat\<close> (\<open>ClusterShell/chat\<close>): the locale
    \<open>client_registry\<close>, a set of clients with different keys, interpreted on the client lists of
    both servers; configuration and routing of commands and answers between the client
    threads, one message per step; the client's command loop, with the output connected to the
    terminal or to the socket; the typing loop of the earlier client. \<open>Cluster_Threads\<close> runs the server's
    threads and \<open>Client_Threads\<close> the two threads of a client as step relations, with the variables
    they share. In \<open>Cluster_Threads\<close> a message is handled as a whole; \<open>Cluster_Race\<close> has the server's
    threads and its main loop statement by statement, with the mutex, and shows what holds in
    every interleaving, that a message handled on its own has the effect of one step of
    \<open>Cluster_Threads\<close>, and that two messages at once can be written to the socket -1. Below, the
    round trip of a command through two clients and the server, for a server that has no other
    command in flight, whose threads start promptly and handle each message on its own.

  \<^item> \<open>BigFS\<close>, \<open>BigFS_Servers\<close> and \<open>BigFS_Copy\<close> (\<open>BigFileSystem\<close>): paths, directory tree, requests, client tables
    and block counts; the rounds of the select loops of both servers and the lines of the
    client. The locale \<open>select_server\<close> states what the loop needs of a table and is interpreted
    on both servers. Clients get their messages echoed and a request answered; the defects shown are a
    typed command that ends the server and a table that overflows at the fourth connection.
    The start of the programs, the inodes, and a copy: its two sending threads over the shared
    file position, and what the blocks and the command do to the servers. The block arithmetic
    is that of C on 32 bits: quotients round towards zero, and an overflow breaks the thread.

  \<^item> \<open>Sniffer\<close> (\<open>Sniffer/read_messages.c\<close>): hex dump, header reports and counters, and the two
    threads as an inductive step relation over a mutex. The dump can be read back, counters and
    log agree with the packets processed in every interleaving; the thread that starts before
    the log file is open can crash.

  \<^item> \<open>Multicast_Chat\<close> (\<open>UDPChatter/multicast_chat_client.c\<close>): the subject table, the messages and
    announcements of one client and what another client does with them. \<open>Chat_Network\<close> is a
    network of clients with their receiving threads: what is received was sent under the
    sender's name, a typed line reaches every listener, and a client whose first thread was
    interrupted stays deaf.

  \<^item> \<open>Fork_Server\<close> (\<open>Fork Per Client\<close>): the semaphore that bounds the clients as a step relation,
    with the value it gets from the 16-bit operation of the server, and the echo loops of both
    sides. \<open>Fork_System\<close> is the whole system over byte streams with failing calls: it implements the
    hall, and what a client is shown is a prefix of what it wrote.

  \<^item> \<open>Small_Tools\<close> (\<open>Tee Command\<close>, \<open>client.c\<close> and \<open>post.c\<close> of \<open>HTTP Requests\<close>, \<open>Large DataWrite
    Comparison\<close>): what the tools write, with partial writes and files that cannot be opened.

  Loops and bounds. Loops over data are structural recursion or functions with a termination
  proof. Loops that wait for the environment are step relations, or recursion over the list of
  what the environment delivers, one element per iteration; their theorems hold for lists of
  every length and state when the loop is left.

  Not modelled: socket setup, signal masks and process groups beyond their appearance in the
  log; \<open>Voting System/vote.c\<close>, a copy of \<open>msg.c\<close>; \<open>test.c\<close> and \<open>client_post.c\<close> of the HTTP programs,
  a formatting test and a copy; the copies of modelled functions that several programs repeat
  (the tree functions of the data server, the path reader of the cluster clients, most of
  \<open>common.c\<close>); \<open>utils.h\<close> of the selective-repeat transfer, which is missing from the repository and a
  parameter of the model.
\<close>

section \<open>A command through the cluster\<close>

text \<open>
  C7. A command typed at one client and addressed to a node travels through all three
  programs. Let the server be quiet, so that no other command waits for an answer, after a run
  in which every thread has read its socket before the next connection was accepted and every
  message was handled by its thread without another thread in between; let the client have a
  name of one character and the node a name of two, no name be a prefix of another, and \<open>fork\<close>
  succeed at the node. Then the client sends the command behind its name and does not run it
  itself; the server forwards it without the address to the socket of the node and to no other;
  the node runs it with exactly its words and with the socket as its output; and the answer of
  the node, when it is the next message to arrive, goes back to the socket of the client, after
  which the server is quiet again.
\<close>

theorem cluster_command_round_trip:
  assumes "server_reach sock True (init_server ns) s" and "0 < sock" and "quiet (vars s)" and "good_names ns"
    and "i < length ns" and "ns ! i = [CHR ''n'', c]" and "c \<noteq> NUL"
    and "me < length (threads s)" and "threads s ! me = Serving user_sock ubuf uk" and "user_sock \<noteq> -1"
    and "i < length (threads s)" and "threads s ! i = Serving node_sock nbuf nk"
    and "nul_free reply" and "2 \<le> length reply" and "length reply < 5000" and "take 5 (drop 2 reply) \<noteq> ''nodes''"
    and "cl_idle node" and "\<forall>p \<in> set ps. plain_word (fst p) \<and> nul_free (fst p)" and "cl_ordinary (map fst ps)"
    and "''|'' \<notin> set (map fst ps)" and "length (spaced ps) < 490" and "a \<noteq> NUL" and "me \<noteq> i"
    and "0 < forked os'"
  shows "\<exists>m s1 node' s2.
      cl_typed os [a] (ns ! i @ CHR ''.'' # spaced ps @ [NL]) user = Inr (True, user\<lparr>cl_sent := cl_sent user @ [m]\<rparr>)
    \<and> server_step sock (Receive me m) s = Some (Inr s1)
    \<and> sent (vars s1) = sent (vars s) @ [(node_sock, spaced ps @ [NL, NUL])]
    \<and> cl_recvmg os' (spaced ps @ [NL, NUL]) node = Inr node' \<and> cl_idle node'
    \<and> cl_log node' = cl_log node @ [(Terminal, Printf (spaced ps @ [NL])),
        (Socket, Spawn (exec_child Exits os' (cl_PATH node) (map fst ps)) Stdin Stdout),
        (Socket, Setpgid 0 0), (Socket, Waitpid (forked os'))]
    \<and> server_step sock (Receive i reply) s1 = Some (Inr s2)
    \<and> sent (vars s2) = sent (vars s1) @ [(user_sock, reply)] \<and> quiet (vars s2)"
proof -
  let ?m = "a # CHR '':'' # ns ! i @ CHR ''.'' # spaced ps @ [NL]"
  have typed: "cl_typed os [a] (ns ! i @ CHR ''.'' # spaced ps @ [NL]) user = Inr (True, user\<lparr>cl_sent := cl_sent user @ [?m]\<rparr>)"
    using cl_typed_addressed [of "[a]" "spaced ps @ [NL]" "ns ! i" c] assms(6,21) by simp
  have ns: "nodes (vars s) = ns" using server_reach_own [OF assms(1,2)] by simp
  have fd: "fd_of (vars s) i = node_sock" "node_sock \<noteq> 0" "length ?m < 5000" "nul_free (spaced ps)"
    using server_reach_socket [OF assms(1,2,11,12)] assms(6,18,21) by (auto intro: nul_free_spaced)
  obtain s1 where s1: "server_step sock (Receive me ?m) s = Some (Inr s1)" "threads s1 ! i = threads s ! i"
      "length (threads s1) = length (threads s)" "sent (vars s1) = sent (vars s) @ [(node_sock, spaced ps @ [NL, NUL])]"
      "SEND_TO_FD (vars s1) = user_sock" "SEND_TO_FD_STAR (vars s1) = -1"
    using forwarded_command [OF assms(8,9,3), of i "spaced ps @ [NL]" ?m a sock] assms(4-7,23) fd by (auto simp: ns)
  obtain s2 where s2: "server_step sock (Receive i reply) s1 = Some (Inr s2)"
      "sent (vars s2) = sent (vars s1) @ [(user_sock, reply)]" "quiet (vars s2)"
    using forwarded_reply [of i s1 node_sock nbuf nk reply sock] s1(2,3,5,6) assms(10-16) by auto
  obtain node' where "cl_recvmg os' (spaced ps @ [NL, NUL]) node = Inr node'" "cl_idle node'"
      "cl_log node' = cl_log node @ [(Terminal, Printf (spaced ps @ [NL])),
        (Socket, Spawn (exec_child Exits os' (cl_PATH node) (map fst ps)) Stdin Stdout),
        (Socket, Setpgid 0 0), (Socket, Waitpid (forked os'))]"
    using cl_recvmg_words [OF assms(17-20) _ assms(24)] assms(21) by auto
  then show ?thesis using typed s1(1,4) s2 by blast
qed

definition example_connections :: "server_event list" where
  "example_connections = [Accept 4 ''10.0.0.1'', Begin 0 [], Accept 5 ''10.0.0.2'', Begin 1 []]"

theorem cluster_command_round_trip_witness:
  "\<exists>s m s1 node' s2. server_run 3 True example_connections (init_server [''n1'', ''n2'']) = Some s
     \<and> cl_typed example_cl_os ''1'' (''n2.ls'' @ [NL]) (cl_init []) = Inr (True, (cl_init [])\<lparr>cl_sent := [m]\<rparr>)
     \<and> server_step 3 (Receive 0 m) s = Some (Inr s1) \<and> sent (vars s1) = [(5, ''ls'' @ [NL, NUL])]
     \<and> cl_recvmg example_cl_os (''ls'' @ [NL, NUL]) (cl_init [''/bin/'']) = Inr node'
     \<and> (Socket, Spawn (Runs ''/bin/ls'' [''ls'']) Stdin Stdout) \<in> set (cl_log node')
     \<and> server_step 3 (Receive 1 ''done'') s1 = Some (Inr s2) \<and> (4, ''done'') \<in> set (sent (vars s2))"
proof -
  have "\<exists>s. server_run 3 True example_connections (init_server [''n1'', ''n2'']) = Some s \<and> quiet (vars s)
      \<and> threads s = [Serving 4 [] 0, Serving 5 [] 0] \<and> sent (vars s) = []"
    by (simp add: example_connections_def server_eval quiet_def)
  then obtain s where s: "server_run 3 True example_connections (init_server [''n1'', ''n2'']) = Some s" "quiet (vars s)"
      "threads s = [Serving 4 [] 0, Serving 5 [] 0]" "sent (vars s) = []" by blast
  have "good_names [''n1'', ''n2'']" by (simp add: good_names_def less_Suc_eq)
  moreover have "cl_idle (cl_init [''/bin/''])" "cl_ordinary [''ls'']" "plain_word ''ls''"
    by (simp_all add: cl_idle_def cl_init_def cl_ordinary_def plain_word_def)
  moreover have "exec_child Exits example_cl_os [''/bin/''] [''ls''] = Runs ''/bin/ls'' [''ls'']"
    by (simp add: exec_child_def str_concat_def example_cl_os_def)
  moreover have fork: "0 < forked example_cl_os" by (simp add: example_cl_os_def)
  ultimately obtain m s1 node' s2 where
      "cl_typed example_cl_os ''1'' (''n2.ls'' @ [NL]) (cl_init []) = Inr (True, (cl_init [])\<lparr>cl_sent := [m]\<rparr>)"
      "server_step 3 (Receive 0 m) s = Some (Inr s1)" "sent (vars s1) = [(5, ''ls'' @ [NL, NUL])]"
      "cl_recvmg example_cl_os (''ls'' @ [NL, NUL]) (cl_init [''/bin/'']) = Inr node'"
      "(Socket, Spawn (Runs ''/bin/ls'' [''ls'']) Stdin Stdout) \<in> set (cl_log node')"
      "server_step 3 (Receive 1 ''done'') s1 = Some (Inr s2)" "(4, ''done'') \<in> set (sent (vars s2))"
    using cluster_command_round_trip [OF server_run_reach [OF s(1)], of 1 "CHR ''2''" 0 4 "[]" 0 5 "[]" 0 "''done''"
        "cl_init [''/bin/'']" "[(''ls'', 0)]" "CHR ''1''" example_cl_os example_cl_os "cl_init []"] s(2-) fork
    by (force simp: cl_init_def)
  then show ?thesis using s(1) by blast
qed

end
